(* ===== verification/Prelude.thy ===== *)
theory Prelude
  imports Main "HOL-Library.Word" "HOL-Library.Monad_Syntax"
begin

text \<open>
  Shared vocabulary of the development: the memory of the C program, its NUL-terminated
  strings and the integers it counts with, together with the generic lemmas the component
  theories use.

  A partial operation returns an \<^typ>\<open>'a option\<close>: \<open>None\<close> stands for undefined behaviour
  (a NULL or dangling pointer is dereferenced, a block is freed twice, an array is indexed
  outside its bounds).  A theorem of the form \<open>f x = Some y\<close> therefore includes the
  memory safety of the run.
\<close>

named_theorems mem_simps \<open>loads and stores of the memory model\<close>
named_theorems cstr_simps \<open>the string library functions\<close>

section \<open>Machine integers\<close>

type_synonym uchar = "8 word"
type_synonym ushort = "16 word"
type_synonym uint = "32 word"
type_synonym ulong = "64 word"

section \<open>Memory\<close>

type_synonym ptr = nat

abbreviation (input) NULL :: ptr where
  "NULL \<equiv> 0"

text \<open>
  Memory holding blocks of one type: \<open>cells\<close> maps the allocated addresses to their
  contents, \<open>brk\<close> is the next address to hand out.  Addresses are never handed out
  twice, so every use of a freed block is seen.
\<close>

record 'a mem =
  cells :: "ptr \<rightharpoonup> 'a"
  brk :: ptr

definition mem_empty :: "'a mem" where
  "mem_empty = \<lparr>cells = Map.empty, brk = 1\<rparr>"

definition mem_load :: "'a mem \<Rightarrow> ptr \<Rightarrow> 'a option" where
  "mem_load m p = cells m p"

definition mem_store :: "'a mem \<Rightarrow> ptr \<Rightarrow> 'a \<Rightarrow> 'a mem option" where
  "mem_store m p v =
     (if cells m p = None then None else Some (m\<lparr>cells := (cells m)(p \<mapsto> v)\<rparr>))"

text \<open>
  \<open>MyMalloc\<close> (malloc.c) hands out a zeroed block: the caller passes the zeroed value of
  the structure it allocates.  The \<open>assert\<close> on an exhausted heap is not modelled.
\<close>

definition MyMalloc :: "'a mem \<Rightarrow> 'a \<Rightarrow> ptr \<times> 'a mem" where
  "MyMalloc m z = (brk m, m\<lparr>cells := (cells m)(brk m \<mapsto> z), brk := Suc (brk m)\<rparr>)"

text \<open>\<open>_MyFree\<close> (malloc.c): freeing NULL does nothing, freeing a block that is not
  allocated is undefined.\<close>

definition MyFree :: "'a mem \<Rightarrow> ptr \<Rightarrow> 'a mem option" where
  "MyFree m p =
     (if p = NULL then Some m
      else if cells m p = None then None
      else Some (m\<lparr>cells := (cells m)(p := None)\<rparr>))"

definition mem_wf :: "'a mem \<Rightarrow> bool" where
  "mem_wf m \<longleftrightarrow> 0 < brk m \<and> (\<forall>p. cells m p \<noteq> None \<longrightarrow> 0 < p \<and> p < brk m)"

lemma mem_wf_empty [simp]: "mem_wf mem_empty"
  by (simp add: mem_wf_def mem_empty_def)

lemma mem_wf_dom: "mem_wf m \<Longrightarrow> cells m p = Some v \<Longrightarrow> 0 < p \<and> p < brk m"
  by (auto simp: mem_wf_def)

lemma mem_wf_brk: "mem_wf m \<Longrightarrow> cells m (brk m) = None"
  by (auto simp: mem_wf_def)

lemma mem_wf_null: "mem_wf m \<Longrightarrow> cells m NULL = None"
  by (auto simp: mem_wf_def)

lemma mem_wf_malloc: "mem_wf m \<Longrightarrow> MyMalloc m z = (p, m') \<Longrightarrow> mem_wf m'"
  by (auto simp: mem_wf_def MyMalloc_def less_Suc_eq split: if_splits)

lemma mem_wf_store: "mem_wf m \<Longrightarrow> mem_store m p v = Some m' \<Longrightarrow> mem_wf m'"
  by (auto simp: mem_wf_def mem_store_def split: if_splits)

lemma mem_wf_free: "mem_wf m \<Longrightarrow> MyFree m p = Some m' \<Longrightarrow> mem_wf m'"
  by (auto simp: mem_wf_def MyFree_def split: if_splits)

lemma mem_wf_upd: "mem_wf m \<Longrightarrow> cells m p = Some w \<Longrightarrow> mem_wf (m\<lparr>cells := (cells m)(p \<mapsto> v)\<rparr>)"
  by (auto simp: mem_wf_def)

lemma mem_load_Some [mem_simps]: "mem_load m p = Some v \<longleftrightarrow> cells m p = Some v"
  by (simp add: mem_load_def)

lemma mem_store_Some [mem_simps]:
  "cells m p = Some w \<Longrightarrow> mem_store m p v = Some (m\<lparr>cells := (cells m)(p \<mapsto> v)\<rparr>)"
  by (simp add: mem_store_def)

section \<open>Lists and options\<close>

lemma bind_Some_iff: "Option.bind x f = Some y \<longleftrightarrow> (\<exists>a. x = Some a \<and> f a = Some y)"
  by (cases x) auto

lemma takeWhile_dropWhile_len: "length (takeWhile P xs) + length (dropWhile P xs) = length xs"
  by (metis length_append takeWhile_dropWhile_id)

section \<open>NUL-terminated strings\<close>

text \<open>
  A C string is the list of the bytes before its terminating NUL; a pointer into it is
  the suffix it points at.
\<close>

abbreviation (input) NUL :: char where
  "NUL \<equiv> CHR 0x00"

definition cstring :: "string \<Rightarrow> bool" where
  "cstring s \<longleftrightarrow> NUL \<notin> set s"

text \<open>The byte a pointer into a string points at, the NUL included.\<close>

definition deref :: "string \<Rightarrow> char" where
  "deref s = (case s of [] \<Rightarrow> NUL | c # _ \<Rightarrow> c)"

lemma deref_simps [simp]: "deref [] = NUL" "deref (c # s) = c"
  by (simp_all add: deref_def)

lemma cstring_simps [simp]:
  "cstring []" "cstring (c # s) \<longleftrightarrow> c \<noteq> NUL \<and> cstring s"
  "cstring (s @ t) \<longleftrightarrow> cstring s \<and> cstring t"
  by (auto simp: cstring_def)

lemma deref_NUL_iff: "cstring s \<Longrightarrow> deref s = NUL \<longleftrightarrow> s = []"
  by (cases s) auto

lemma cstring_drop [simp]: "cstring s \<Longrightarrow> cstring (drop n s)"
  by (auto simp: cstring_def dest: in_set_dropD)

lemma cstring_take [simp]: "cstring s \<Longrightarrow> cstring (take n s)"
  by (auto simp: cstring_def dest: in_set_takeD)

text \<open>\<open>strchr\<close>: the suffix that starts at the first occurrence, if there is one.\<close>

fun strchr :: "string \<Rightarrow> char \<Rightarrow> string option" where
  "strchr [] c = None"
| "strchr (x # s) c = (if x = c then Some (x # s) else strchr s c)"

lemma strchr_None [cstr_simps]: "strchr s c = None \<longleftrightarrow> c \<notin> set s"
  by (induction s) auto

lemma strchr_Some:
  "strchr s c = Some t \<Longrightarrow> \<exists>u. s = u @ t \<and> c \<notin> set u \<and> t \<noteq> [] \<and> hd t = c"
  by (induction s) (auto split: if_splits intro: exI [of _ "[]"] exI [of _ "_ # _"])

lemma strchr_append [cstr_simps]: "c \<notin> set u \<Longrightarrow> strchr (u @ c # v) c = Some (c # v)"
  by (induction u) auto

text \<open>\<open>tolower\<close> of the C locale, and the comparisons that ignore case.\<close>

definition tolower :: "char \<Rightarrow> char" where
  "tolower c = (if 65 \<le> (of_char c :: nat) \<and> (of_char c :: nat) \<le> 90
                then char_of ((of_char c :: nat) + 32) else c)"

definition strcaseeq :: "string \<Rightarrow> string \<Rightarrow> bool" where
  "strcaseeq s t \<longleftrightarrow> map tolower s = map tolower t"

definition strncaseeq :: "string \<Rightarrow> string \<Rightarrow> nat \<Rightarrow> bool" where
  "strncaseeq s t n \<longleftrightarrow> map tolower (take n s) = map tolower (take n t)"

lemma strcaseeq_refl [simp]: "strcaseeq s s"
  by (simp add: strcaseeq_def)

lemma strcaseeq_sym: "strcaseeq s t \<Longrightarrow> strcaseeq t s"
  by (simp add: strcaseeq_def)

end
