(* ===== verification/CList.thy ===== *)
theory CList
  imports Prelude
begin

text \<open>
  The doubly linked list of list.c and list.h.  Nodes live in a \<^typ>\<open>'a mem\<close>; a
  \<open>list_t\<close> holds the head, the tail and the element count.  The representation
  predicate \<open>list_rep m l xs\<close> says that \<open>l\<close> links exactly the nodes \<open>xs\<close> (address and
  data), in this order, both ways.  The interface the other components use is the locale
  \<open>linked_list\<close>.
\<close>

section \<open>Data and operations\<close>

record 'd node_t =
  nnext :: ptr
  nprev :: ptr
  ndata :: 'd

record list_t =
  head :: ptr
  tail :: ptr
  elements :: int

type_synonym 'd nodes = "'d node_t mem"

definition node_create :: "'d nodes \<Rightarrow> 'd \<Rightarrow> ptr \<times> 'd nodes" where
  "node_create m d = MyMalloc m \<lparr>nnext = NULL, nprev = NULL, ndata = d\<rparr>"

definition list_create :: list_t where
  "list_create = \<lparr>head = NULL, tail = NULL, elements = 0\<rparr>"

text \<open>The two assignments through a node pointer.\<close>

definition set_next :: "'d nodes \<Rightarrow> ptr \<Rightarrow> ptr \<Rightarrow> 'd nodes option" where
  "set_next m p q = do { n \<leftarrow> mem_load m p; mem_store m p (n\<lparr>nnext := q\<rparr>) }"

definition set_prev :: "'d nodes \<Rightarrow> ptr \<Rightarrow> ptr \<Rightarrow> 'd nodes option" where
  "set_prev m p q = do { n \<leftarrow> mem_load m p; mem_store m p (n\<lparr>nprev := q\<rparr>) }"

text \<open>
  \<open>list_add\<close> and \<open>list_remove\<close> take the list by reference (\<open>None\<close> is a NULL list) and
  return the memory, the list and the returned node.
\<close>

definition list_add ::
  "'d nodes \<Rightarrow> list_t option \<Rightarrow> ptr \<Rightarrow> ('d nodes \<times> list_t option \<times> ptr) option" where
  "list_add m list node =
     (case list of
        None \<Rightarrow> Some (m, list, NULL)
      | Some l \<Rightarrow>
          if node = NULL then Some (m, list, NULL)
          else if tail l = NULL then do {
            m \<leftarrow> set_next m node NULL;
            m \<leftarrow> set_prev m node NULL;
            Some (m, Some (l\<lparr>head := node, tail := node, elements := elements l + 1\<rparr>), node) }
          else do {
            m \<leftarrow> set_prev m node (tail l);
            m \<leftarrow> set_next m (tail l) node;
            m \<leftarrow> set_next m node NULL;
            Some (m, Some (l\<lparr>tail := node, elements := elements l + 1\<rparr>), node) })"

definition list_remove ::
  "'d nodes \<Rightarrow> list_t option \<Rightarrow> ptr \<Rightarrow> ('d nodes \<times> list_t option \<times> ptr) option" where
  "list_remove m list node =
     (case list of
        None \<Rightarrow> Some (m, list, NULL)
      | Some l \<Rightarrow>
          if node = NULL then Some (m, list, NULL)
          else if node = head l then do {
            n \<leftarrow> mem_load m node;
            if nnext n \<noteq> NULL then do {
              m \<leftarrow> set_prev m (nnext n) NULL;
              Some (m, Some (l\<lparr>head := nnext n, elements := elements l - 1\<rparr>), node) }
            else
              Some (m, Some (l\<lparr>head := nnext n, tail := NULL, elements := elements l - 1\<rparr>), node) }
          else if node = tail l then do {
            t \<leftarrow> mem_load m (tail l);
            m \<leftarrow> set_next m (nprev t) NULL;
            Some (m, Some (l\<lparr>tail := nprev t, elements := elements l - 1\<rparr>), node) }
          else do {
            n \<leftarrow> mem_load m node;
            m \<leftarrow> set_next m (nprev n) (nnext n);
            n \<leftarrow> mem_load m node;
            m \<leftarrow> set_prev m (nnext n) (nprev n);
            Some (m, Some (l\<lparr>elements := elements l - 1\<rparr>), node) })"

definition node_free :: "'d nodes \<Rightarrow> ptr \<Rightarrow> 'd nodes option" where
  "node_free m node = MyFree m node"

text \<open>\<open>LIST_FOREACH\<close> (list.h): the nodes visited from a pointer on; each step spends one
  unit of fuel.\<close>

fun list_foreach :: "nat \<Rightarrow> 'd nodes \<Rightarrow> ptr \<Rightarrow> (ptr \<times> 'd) list option" where
  "list_foreach 0 m p = (if p = NULL then Some [] else None)"
| "list_foreach (Suc k) m p =
     (if p = NULL then Some []
      else do {
        n \<leftarrow> mem_load m p;
        rest \<leftarrow> list_foreach k m (nnext n);
        Some ((p, ndata n) # rest) })"

text \<open>
  The shape of every loop of the program that removes entries while it walks a list:
  \<open>LIST_FOREACH_SAFE (node, next, head)\<close> whose body removes and frees the nodes whose
  data satisfy \<open>drop_it\<close>.  The successor is read before the body runs.
\<close>

fun foreach_safe_remove ::
  "nat \<Rightarrow> ('d \<Rightarrow> bool) \<Rightarrow> 'd nodes \<Rightarrow> list_t option \<Rightarrow> ptr \<Rightarrow> ('d nodes \<times> list_t option) option"
where
  "foreach_safe_remove 0 drop_it m list pos = (if pos = NULL then Some (m, list) else None)"
| "foreach_safe_remove (Suc k) drop_it m list pos =
     (if pos = NULL then Some (m, list)
      else do {
        n \<leftarrow> mem_load m pos;
        (m, list) \<leftarrow>
          (if drop_it (ndata n) then do {
             (m, list, r) \<leftarrow> list_remove m list pos;
             m \<leftarrow> node_free m pos;
             Some (m, list) }
           else Some (m, list));
        foreach_safe_remove k drop_it m list (nnext n) })"

section \<open>Representation\<close>

fun first_addr :: "(ptr \<times> 'd) list \<Rightarrow> ptr \<Rightarrow> ptr" where
  "first_addr [] nx = nx"
| "first_addr ((a, d) # xs) nx = a"

fun last_addr :: "ptr \<Rightarrow> (ptr \<times> 'd) list \<Rightarrow> ptr" where
  "last_addr pv [] = pv"
| "last_addr pv ((a, d) # xs) = last_addr a xs"

fun seg :: "'d nodes \<Rightarrow> ptr \<Rightarrow> (ptr \<times> 'd) list \<Rightarrow> ptr \<Rightarrow> bool" where
  "seg m pv [] nx \<longleftrightarrow> True"
| "seg m pv ((a, d) # xs) nx \<longleftrightarrow>
     a \<noteq> NULL \<and> cells m a = Some \<lparr>nnext = first_addr xs nx, nprev = pv, ndata = d\<rparr> \<and> seg m a xs nx"

definition list_rep :: "'d nodes \<Rightarrow> list_t option \<Rightarrow> (ptr \<times> 'd) list \<Rightarrow> bool" where
  "list_rep m list xs \<longleftrightarrow>
     (\<exists>l. list = Some l \<and> head l = first_addr xs NULL \<and> tail l = last_addr NULL xs \<and>
          elements l = int (length xs) \<and> seg m NULL xs NULL \<and> distinct (map fst xs))"

section \<open>Lemmas\<close>

lemma seg_append:
  "seg m pv (xs @ ys) nx \<longleftrightarrow> seg m pv xs (first_addr ys nx) \<and> seg m (last_addr pv xs) ys nx"
proof (induction m pv xs nx rule: seg.induct)
  case (2 m pv a d xs nx)
  then show ?case by (cases xs) auto
qed simp

lemma last_addr_append [simp]: "last_addr pv (xs @ ys) = last_addr (last_addr pv xs) ys"
  by (induction pv xs rule: last_addr.induct) auto

lemma first_addr_append [simp]: "first_addr (xs @ ys) nx = first_addr xs (first_addr ys nx)"
  by (cases xs) auto

lemma last_addr_mem: "last_addr pv xs = pv \<or> last_addr pv xs \<in> fst ` set xs"
  by (induction pv xs rule: last_addr.induct) auto

lemma seg_nonnull: "seg m pv xs nx \<Longrightarrow> NULL \<notin> fst ` set xs"
  by (induction m pv xs nx rule: seg.induct) auto

lemma seg_dom: "seg m pv xs nx \<Longrightarrow> a \<in> fst ` set xs \<Longrightarrow> cells m a \<noteq> None"
  by (induction m pv xs nx rule: seg.induct) auto

lemma first_addr_null: "seg m pv xs NULL \<Longrightarrow> first_addr xs NULL = NULL \<longleftrightarrow> xs = []"
  by (cases xs) auto

lemma last_addr_null: "seg m NULL xs nx \<Longrightarrow> last_addr NULL xs = NULL \<longleftrightarrow> xs = []"
proof (cases xs)
  case (Cons x ys)
  assume s: "seg m NULL xs nx"
  obtain a d where x: "x = (a, d)" by (cases x)
  have "last_addr a ys \<noteq> NULL"
    using s seg_nonnull [OF s] last_addr_mem [of a ys] by (metis Cons x insert_iff list.simps(15)
        fst_conv image_insert)
  then show ?thesis by (simp add: Cons x)
qed simp

text \<open>A segment is not affected by changes outside its addresses.\<close>

lemma seg_frame:
  assumes "\<And>a. a \<in> fst ` set xs \<Longrightarrow> cells m' a = cells m a"
  shows "seg m' pv xs nx = seg m pv xs nx"
  using assms by (induction m pv xs nx rule: seg.induct) (auto simp: image_iff)

lemma seg_split_last:
  assumes "seg m pv xs nx" "xs \<noteq> []"
  obtains ys a d where "xs = ys @ [(a, d)]" "a = last_addr pv xs"
proof (cases xs rule: rev_cases)
  case (snoc ys y)
  then show ?thesis by (cases y) (use that snoc in auto)
qed (use assms in simp)


lemma set_next_cell:
  "cells m p = Some n \<Longrightarrow> set_next m p q = Some (m\<lparr>cells := (cells m)(p \<mapsto> n\<lparr>nnext := q\<rparr>)\<rparr>)"
  by (simp add: set_next_def mem_load_def mem_store_def)

lemma set_prev_cell:
  "cells m p = Some n \<Longrightarrow> set_prev m p q = Some (m\<lparr>cells := (cells m)(p \<mapsto> n\<lparr>nprev := q\<rparr>)\<rparr>)"
  by (simp add: set_prev_def mem_load_def mem_store_def)

lemmas set_cell = set_next_cell set_prev_cell

lemma seg_last_cell:
  "seg m pv (xs @ [(a, d)]) nx \<Longrightarrow>
   cells m a = Some \<lparr>nnext = nx, nprev = last_addr pv xs, ndata = d\<rparr>"
  by (simp add: seg_append)

text \<open>Changing the successor of the last node, or the predecessor of the first one.\<close>

lemma seg_set_last:
  assumes "seg m pv (xs @ [(a, d)]) nx" "distinct (map fst (xs @ [(a, d)]))"
    and "cells m' a = Some \<lparr>nnext = ny, nprev = last_addr pv xs, ndata = d\<rparr>"
    and "\<And>b. b \<in> fst ` set xs \<Longrightarrow> cells m' b = cells m b"
  shows "seg m' pv (xs @ [(a, d)]) ny"
proof -
  have "seg m' pv xs a = seg m pv xs a" by (rule seg_frame) (use assms in auto)
  with assms show ?thesis by (auto simp: seg_append)
qed

lemma seg_set_first:
  assumes "seg m pv ((a, d) # xs) nx" "a \<notin> fst ` set xs"
    and "cells m' a = Some \<lparr>nnext = first_addr xs nx, nprev = pw, ndata = d\<rparr>"
    and "\<And>b. b \<in> fst ` set xs \<Longrightarrow> cells m' b = cells m b"
  shows "seg m' pw ((a, d) # xs) nx"
proof -
  have "seg m' a xs nx = seg m a xs nx" by (rule seg_frame) (use assms in auto)
  with assms show ?thesis by simp
qed

definition same_dom :: "'a mem \<Rightarrow> 'a mem \<Rightarrow> bool" where
  "same_dom m m' \<longleftrightarrow> dom (cells m') = dom (cells m) \<and> brk m' = brk m"

lemma same_dom_upd:
  "cells m p = Some n \<Longrightarrow> same_dom m (m\<lparr>cells := (cells m)(p \<mapsto> v)\<rparr>)"
  by (auto simp: same_dom_def)

lemma same_dom_refl [simp]: "same_dom m m"
  by (simp add: same_dom_def)

lemma same_dom_trans: "same_dom a b \<Longrightarrow> same_dom b c \<Longrightarrow> same_dom a c"
  by (simp add: same_dom_def)

lemma same_dom_wf: "same_dom m m' \<Longrightarrow> mem_wf m \<Longrightarrow> mem_wf m'"
proof -
  assume "same_dom m m'" "mem_wf m"
  then have "cells m' p \<noteq> None \<longleftrightarrow> cells m p \<noteq> None" "brk m' = brk m" for p
    unfolding same_dom_def by blast+
  then show "mem_wf m'" using \<open>mem_wf m\<close> by (simp add: mem_wf_def)
qed

lemma same_dom_cell: "same_dom m m' \<Longrightarrow> cells m a \<noteq> None \<Longrightarrow> cells m' a \<noteq> None"
  by (auto simp: same_dom_def dom_def)

lemma list_add_spec:
  assumes rep: "list_rep m list xs" and n: "cells m p = Some n"
    and p: "p \<noteq> NULL" "p \<notin> fst ` set xs"
  shows "\<exists>m' list'. list_add m list p = Some (m', list', p) \<and>
           list_rep m' list' (xs @ [(p, ndata n)]) \<and> same_dom m m' \<and>
           (\<forall>a. a \<noteq> p \<longrightarrow> a \<notin> fst ` set xs \<longrightarrow> cells m' a = cells m a)"
proof -
  from rep obtain l where l: "list = Some l" "head l = first_addr xs NULL"
      "tail l = last_addr NULL xs" "elements l = int (length xs)" "seg m NULL xs NULL"
      "distinct (map fst xs)"
    by (auto simp: list_rep_def)
  show ?thesis
  proof (cases xs rule: rev_cases)
    case Nil
    with l n p show ?thesis
      by (auto simp: list_add_def set_cell list_rep_def same_dom_def)
  next
    case (snoc ys y)
    obtain b e where y: "y = (b, e)" by (cases y)
    let ?n = "\<lparr>nnext = NULL, nprev = b, ndata = ndata n\<rparr>"
    let ?b = "\<lparr>nnext = p, nprev = last_addr NULL ys, ndata = e\<rparr>"
    let ?m = "m\<lparr>cells := (cells m)(p \<mapsto> ?n, b \<mapsto> ?b)\<rparr>"
    have bc: "cells m b = Some \<lparr>nnext = NULL, nprev = last_addr NULL ys, ndata = e\<rparr>"
      and pb: "b \<noteq> p" "b \<noteq> NULL" and bys: "b \<notin> fst ` set ys"
      using l(5,6) p seg_nonnull [OF l(5)] by (auto simp: snoc y seg_append)
    have s: "seg ?m NULL xs p" unfolding snoc y
      by (rule seg_set_last [of m _ _ _ _ NULL]) (use l bys p pb in \<open>auto simp: snoc y image_iff\<close>)
    have t: "tail l = b" using l(3) by (simp add: snoc y)
    have nn: "n\<lparr>nprev := b, nnext := NULL\<rparr> = ?n" by (cases n) simp
    have "list_add m list p =
        Some (?m, Some (l\<lparr>tail := p, elements := elements l + 1\<rparr>), p)"
      using n p pb bc by (simp add: list_add_def l(1) t set_cell nn fun_upd_twist)
    moreover have "list_rep ?m (Some (l\<lparr>tail := p, elements := elements l + 1\<rparr>)) (xs @ [(p, ndata n)])"
      using l s p pb by (auto simp: list_rep_def seg_append snoc y)
    ultimately show ?thesis
      using n bc by (auto simp: same_dom_def snoc y)
  qed
qed

lemma list_remove_spec:
  assumes rep: "list_rep m list (xs @ (p, d) # ys)"
  shows "\<exists>m' list'. list_remove m list p = Some (m', list', p) \<and>
           list_rep m' list' (xs @ ys) \<and> same_dom m m' \<and>
           (\<forall>a. a \<notin> fst ` set (xs @ ys) \<longrightarrow> cells m' a = cells m a)"
proof -
  let ?zs = "xs @ (p, d) # ys"
  from rep obtain l where l: "list = Some l" "head l = first_addr ?zs NULL"
      "tail l = last_addr NULL ?zs" "elements l = int (length ?zs)" "seg m NULL ?zs NULL"
      "distinct (map fst ?zs)"
    by (auto simp: list_rep_def)
  have p0: "p \<noteq> NULL" and pc: "cells m p = Some \<lparr>nnext = first_addr ys NULL, nprev = last_addr NULL xs, ndata = d\<rparr>"
    using l(5) by (auto simp: seg_append)
  show ?thesis
  proof (cases xs rule: rev_cases)
    case xs: Nil
    show ?thesis
    proof (cases ys)
      case Nil
      then show ?thesis using l p0 pc xs
        by (auto simp: list_remove_def list_rep_def mem_load_def)
    next
      case (Cons y zs)
      obtain b e where y: "y = (b, e)" by (cases y)
      let ?b = "\<lparr>nnext = first_addr zs NULL, nprev = NULL, ndata = e\<rparr>"
      let ?m = "m\<lparr>cells := (cells m)(b \<mapsto> ?b)\<rparr>"
      have bc: "cells m b = Some \<lparr>nnext = first_addr zs NULL, nprev = p, ndata = e\<rparr>"
        and b: "b \<noteq> p" "b \<noteq> NULL" "b \<notin> fst ` set zs"
        using l(5,6) xs Cons y by auto
      have s: "seg ?m NULL ((b, e) # zs) NULL"
        by (rule seg_set_first [of m p]) (use l b in \<open>auto simp: xs Cons y\<close>)
      then show ?thesis using l p0 pc bc b
        by (auto simp: list_remove_def list_rep_def mem_load_def set_cell same_dom_def xs Cons y)
    qed
  next
    case (snoc us u)
    obtain a c where u: "u = (a, c)" by (cases u)
    have sx: "seg m NULL (us @ [(a, c)]) p" using l(5) by (auto simp: seg_append snoc u)
    have ac: "cells m a = Some \<lparr>nnext = p, nprev = last_addr NULL us, ndata = c\<rparr>"
      using sx by (rule seg_last_cell)
    have a: "a \<noteq> p" "a \<notin> fst ` set us" "a \<notin> fst ` set ys" "a \<noteq> NULL"
      using l(5,6) by (auto simp: snoc u seg_append)
    have ph: "p \<noteq> head l" using l(2,5,6) by (cases us) (auto simp: snoc u)
    show ?thesis
    proof (cases ys)
      case Nil
      let ?a = "\<lparr>nnext = NULL, nprev = last_addr NULL us, ndata = c\<rparr>"
      let ?m = "m\<lparr>cells := (cells m)(a \<mapsto> ?a)\<rparr>"
      have s: "seg ?m NULL xs NULL" unfolding snoc u
        by (rule seg_set_last [of m _ _ _ _ p]) (use l sx a in \<open>auto simp: snoc u\<close>)
      have t: "tail l = p" using l(3) by (simp add: Nil)
      show ?thesis using l p0 pc ac ph s a t
        by (auto simp: list_remove_def list_rep_def mem_load_def set_cell same_dom_def snoc u Nil)
    next
      case (Cons y zs)
      obtain b e where y: "y = (b, e)" by (cases y)
      let ?a = "\<lparr>nnext = b, nprev = last_addr NULL us, ndata = c\<rparr>"
      let ?b = "\<lparr>nnext = first_addr zs NULL, nprev = a, ndata = e\<rparr>"
      let ?m = "m\<lparr>cells := (cells m)(a \<mapsto> ?a, b \<mapsto> ?b)\<rparr>"
      have bc: "cells m b = Some \<lparr>nnext = first_addr zs NULL, nprev = p, ndata = e\<rparr>"
        and b: "b \<noteq> p" "b \<noteq> NULL" "b \<notin> fst ` set zs" "b \<noteq> a" "b \<notin> fst ` set us"
        using l(5,6) by (auto simp: Cons y snoc u seg_append)
      have pt: "p \<noteq> tail l"
      proof -
        have "tail l \<in> fst ` set ys" using l(3) last_addr_mem [of b zs] by (auto simp: Cons y)
        then show ?thesis using l(6) by auto
      qed
      have s1: "seg ?m NULL (us @ [(a, c)]) b"
        by (rule seg_set_last [of m _ _ _ _ p]) (use l sx a b in \<open>auto simp: snoc u\<close>)
      have s2: "seg ?m a ((b, e) # zs) NULL"
        by (rule seg_set_first [of m p]) (use l a b in \<open>auto simp: seg_append Cons y\<close>)
      have s: "seg ?m NULL (xs @ ys) NULL"
        using s1 s2 by (simp add: snoc u Cons y seg_append)
      have "list_remove m list p = Some (?m, Some (l\<lparr>elements := elements l - 1\<rparr>), p)"
        using l(1) p0 ph pt pc ac bc a b
        by (simp add: list_remove_def mem_load_def set_cell snoc u Cons y)
      moreover have "list_rep ?m (Some (l\<lparr>elements := elements l - 1\<rparr>)) (xs @ ys)"
        using l s by (auto simp: list_rep_def snoc Cons y u)
      ultimately show ?thesis using ac bc by (auto simp: same_dom_def snoc u Cons y)
    qed
  qed
qed


lemma list_foreach_spec:
  "seg m pv xs NULL \<Longrightarrow> length xs \<le> k \<Longrightarrow> list_foreach k m (first_addr xs NULL) = Some xs"
proof (induction k arbitrary: pv xs)
  case (Suc k)
  then show ?case by (cases xs) (auto simp: mem_load_def)
qed simp

lemma list_rep_free:
  assumes rep: "list_rep m list xs" and p: "cells m p \<noteq> None" "p \<noteq> NULL" "p \<notin> fst ` set xs"
  shows "\<exists>m'. node_free m p = Some m' \<and> list_rep m' list xs \<and> brk m' = brk m \<and>
           cells m' = (cells m)(p := None)"
proof -
  let ?m = "m\<lparr>cells := (cells m)(p := None)\<rparr>"
  have "seg ?m NULL xs NULL = seg m NULL xs NULL" by (rule seg_frame) (use p in auto)
  then have "list_rep ?m list xs" using rep by (auto simp: list_rep_def)
  then show ?thesis using p by (auto simp: node_free_def MyFree_def)
qed

text \<open>
  The removing loop visits every node once, never touches a freed one and keeps exactly
  the entries whose data do not satisfy the condition.
\<close>

lemma foreach_safe_remove_spec:
  assumes "list_rep m list (ys @ zs)" "length zs \<le> k"
  shows "\<exists>m' list'.
     foreach_safe_remove k P m list (first_addr zs NULL) = Some (m', list') \<and>
     list_rep m' list' (ys @ filter (\<lambda>(a, d). \<not> P d) zs) \<and> brk m' = brk m \<and>
     dom (cells m') = dom (cells m) - fst ` set (filter (\<lambda>(a, d). P d) zs)"
  using assms
proof (induction k arbitrary: m list ys zs)
  case 0
  then show ?case by simp
next
  case (Suc k)
  show ?case
  proof (cases zs)
    case Nil
    then show ?thesis using Suc.prems by simp
  next
    case (Cons z ws)
    obtain p d where z: "z = (p, d)" by (cases z)
    have rep: "list_rep m list (ys @ (p, d) # ws)" using Suc.prems(1) by (simp add: Cons z)
    then have p0: "p \<noteq> NULL" and pc: "cells m p = Some \<lparr>nnext = first_addr ws NULL,
        nprev = last_addr NULL ys, ndata = d\<rparr>" and dp: "p \<notin> fst ` set (ys @ ws)"
      by (auto simp: list_rep_def seg_append)
    have len: "length ws \<le> k" using Suc.prems(2) by (simp add: Cons)
    show ?thesis
    proof (cases "P d")
      case False
      have "list_rep m list ((ys @ [(p, d)]) @ ws)" using rep by simp
      from Suc.IH [OF this len] obtain m' l' where
        IH: "foreach_safe_remove k P m list (first_addr ws NULL) = Some (m', l')"
          "list_rep m' l' ((ys @ [(p, d)]) @ filter (\<lambda>(a, d). \<not> P d) ws)" "brk m' = brk m"
          "dom (cells m') = dom (cells m) - fst ` set (filter (\<lambda>(a, d). P d) ws)"
        by blast
      show ?thesis
        by (rule exI [of _ m'], rule exI [of _ l'])
          (use False p0 pc IH in \<open>simp add: Cons z mem_load_def\<close>)
    next
      case True
      obtain m1 l1 where r: "list_remove m list p = Some (m1, l1, p)" "list_rep m1 l1 (ys @ ws)"
          "same_dom m m1"
        using list_remove_spec [OF rep] by blast
      have "cells m1 p \<noteq> None" using same_dom_cell [OF r(3)] pc by simp
      from list_rep_free [OF r(2) this p0 dp] obtain m2 where
        f: "node_free m1 p = Some m2" "list_rep m2 l1 (ys @ ws)" "brk m2 = brk m1"
          "cells m2 = (cells m1)(p := None)"
        by blast
      from Suc.IH [OF f(2) len] obtain m' l' where
        IH: "foreach_safe_remove k P m2 l1 (first_addr ws NULL) = Some (m', l')"
          "list_rep m' l' (ys @ filter (\<lambda>(a, d). \<not> P d) ws)" "brk m' = brk m2"
          "dom (cells m') = dom (cells m2) - fst ` set (filter (\<lambda>(a, d). P d) ws)"
        by blast
      have "dom (cells m2) = dom (cells m) - {p}"
        using r(3) f(4) by (auto simp: same_dom_def)
      then show ?thesis
        using True p0 pc r(1) f(1) IH r(3) f(3)
        by (intro exI [of _ m'] exI [of _ l']) (auto simp: Cons z mem_load_def same_dom_def)
    qed
  qed
qed

section \<open>The list as a queue\<close>

text \<open>
  How the program uses its lists: an entry is created and added at the tail, and loops
  remove the entries that meet a condition.  The interface abstracts from the nodes.
\<close>

type_synonym 'd clist = "'d nodes \<times> list_t option"

definition list_push :: "'d clist \<Rightarrow> 'd \<Rightarrow> 'd clist option" where
  "list_push q d =
     (let (m, list) = q; (p, m) = node_create m d
      in do { (m, list, r) \<leftarrow> list_add m list p; Some (m, list) })"

definition list_sweep :: "('d \<Rightarrow> bool) \<Rightarrow> 'd clist \<Rightarrow> 'd clist option" where
  "list_sweep drop_it q =
     (let (m, list) = q
      in case list of None \<Rightarrow> None
         | Some l \<Rightarrow> foreach_safe_remove (nat (elements l)) drop_it m list (head l))"

definition list_size :: "'d clist \<Rightarrow> int option" where
  "list_size q = (let (m, list) = q in map_option elements list)"

definition clist_rep :: "'d clist \<Rightarrow> 'd list \<Rightarrow> bool" where
  "clist_rep q ds \<longleftrightarrow>
     (let (m, list) = q
      in mem_wf m \<and>
         (\<exists>xs. list_rep m list xs \<and> map snd xs = ds \<and> dom (cells m) = fst ` set xs))"

definition clist_empty :: "'d clist" where
  "clist_empty = (mem_empty, Some list_create)"

datatype 'd list_op = Push 'd | Sweep "'d \<Rightarrow> bool"

fun run_ops ::
  "('q \<Rightarrow> 'd \<Rightarrow> 'q option) \<Rightarrow> (('d \<Rightarrow> bool) \<Rightarrow> 'q \<Rightarrow> 'q option) \<Rightarrow> 'q \<Rightarrow> 'd list_op list \<Rightarrow> 'q option"
where
  "run_ops push sweep q [] = Some q"
| "run_ops push sweep q (Push d # ops) = Option.bind (push q d) (\<lambda>q. run_ops push sweep q ops)"
| "run_ops push sweep q (Sweep P # ops) = Option.bind (sweep P q) (\<lambda>q. run_ops push sweep q ops)"

fun abs_ops :: "'d list \<Rightarrow> 'd list_op list \<Rightarrow> 'd list" where
  "abs_ops ds [] = ds"
| "abs_ops ds (Push d # ops) = abs_ops (ds @ [d]) ops"
| "abs_ops ds (Sweep P # ops) = abs_ops (filter (\<lambda>d. \<not> P d) ds) ops"

locale linked_list =
  fixes rep :: "'q \<Rightarrow> 'd list \<Rightarrow> bool"
    and create :: 'q
    and push :: "'q \<Rightarrow> 'd \<Rightarrow> 'q option"
    and sweep :: "('d \<Rightarrow> bool) \<Rightarrow> 'q \<Rightarrow> 'q option"
    and size_of :: "'q \<Rightarrow> int option"
  assumes create: "rep create []"
    and push: "rep q ds \<Longrightarrow> \<exists>q'. push q d = Some q' \<and> rep q' (ds @ [d])"
    and sweep: "rep q ds \<Longrightarrow> \<exists>q'. sweep P q = Some q' \<and> rep q' (filter (\<lambda>d. \<not> P d) ds)"
    and size_of: "rep q ds \<Longrightarrow> size_of q = Some (int (length ds))"
begin

lemma run_refines: "rep q ds \<Longrightarrow> \<exists>q'. run_ops push sweep q ops = Some q' \<and> rep q' (abs_ops ds ops)"
proof (induction ops arbitrary: q ds)
  case (Cons x ops)
  show ?case
  proof (cases x)
    case (Push d)
    then show ?thesis using push [OF Cons.prems, of d] Cons.IH by fastforce
  next
    case (Sweep P)
    then show ?thesis using sweep [OF Cons.prems, of P] Cons.IH by fastforce
  qed
qed auto

lemma run_from_create:
  "\<exists>q'. run_ops push sweep create ops = Some q' \<and> rep q' (abs_ops [] ops) \<and>
        size_of q' = Some (int (length (abs_ops [] ops)))"
  using run_refines [OF create, of ops] size_of by blast

end

lemma clist_rep_empty: "clist_rep clist_empty []"
  by (simp add: clist_rep_def clist_empty_def list_rep_def list_create_def mem_empty_def mem_wf_def)

lemma clist_rep_push: "clist_rep q ds \<Longrightarrow> \<exists>q'. list_push q d = Some q' \<and> clist_rep q' (ds @ [d])"
proof -
  assume "clist_rep q ds"
  then obtain m list xs where q: "q = (m, list)" "mem_wf m" "list_rep m list xs"
      "map snd xs = ds" "dom (cells m) = fst ` set xs"
    by (cases q) (auto simp: clist_rep_def)
  obtain p m1 where c: "node_create m d = (p, m1)" by (cases "node_create m d")
  then have p: "p = brk m" and m1: "m1 = m\<lparr>cells := (cells m)(p \<mapsto> \<lparr>nnext = NULL, nprev = NULL,
      ndata = d\<rparr>), brk := Suc (brk m)\<rparr>"
    by (auto simp: node_create_def MyMalloc_def)
  have new: "p \<notin> fst ` set xs" "p \<noteq> NULL"
    using mem_wf_brk [OF q(2)] q(2,5) by (auto simp: p mem_wf_def)
  have "seg m1 NULL xs NULL = seg m NULL xs NULL" by (rule seg_frame) (use new in \<open>auto simp: m1\<close>)
  then have "list_rep m1 list xs" using q(3) by (auto simp: list_rep_def)
  from list_add_spec [OF this, of p] new obtain m2 l2 where
    a: "list_add m1 list p = Some (m2, l2, p)" "list_rep m2 l2 (xs @ [(p, d)])" "same_dom m1 m2"
    by (auto simp: m1)
  have "mem_wf m1" by (rule mem_wf_malloc [OF q(2)]) (use c in \<open>auto simp: node_create_def\<close>)
  then have "mem_wf m2" by (rule same_dom_wf [OF a(3)])
  moreover have "dom (cells m2) = fst ` set (xs @ [(p, d)])"
    using a(3) q(5) by (auto simp: same_dom_def m1)
  ultimately show ?thesis
    using a q(4) by (auto simp: list_push_def q(1) c clist_rep_def intro!: exI [of _ "xs @ [(p, d)]"])
qed

lemma clist_rep_sweep:
  "clist_rep q ds \<Longrightarrow> \<exists>q'. list_sweep P q = Some q' \<and> clist_rep q' (filter (\<lambda>d. \<not> P d) ds)"
proof -
  assume "clist_rep q ds"
  then obtain m list xs where q: "q = (m, list)" "mem_wf m" "list_rep m list xs"
      "map snd xs = ds" "dom (cells m) = fst ` set xs"
    by (cases q) (auto simp: clist_rep_def)
  obtain l where l: "list = Some l" "head l = first_addr xs NULL" "elements l = int (length xs)"
      "distinct (map fst xs)"
    using q(3) by (auto simp: list_rep_def)
  obtain m' l' where s: "foreach_safe_remove (length xs) P m list (first_addr xs NULL) = Some (m', l')"
      "list_rep m' l' (filter (\<lambda>(a, d). \<not> P d) xs)" "brk m' = brk m"
      "dom (cells m') = dom (cells m) - fst ` set (filter (\<lambda>(a, d). P d) xs)"
    using foreach_safe_remove_spec [of m list "[]" xs "length xs" P] q(3) by auto
  have "mem_wf m'" using q(2) s(3,4) by (auto simp: mem_wf_def dom_def)
  moreover have "dom (cells m') = fst ` set (filter (\<lambda>(a, d). \<not> P d) xs)"
  proof -
    have "inj_on fst (set xs)" using l(4) by (simp add: distinct_map)
    then have "fst ` (set xs - set (filter (\<lambda>(a, d). P d) xs)) =
        fst ` set xs - fst ` set (filter (\<lambda>(a, d). P d) xs)"
      by (rule inj_on_image_set_diff) auto
    moreover have "set xs - set (filter (\<lambda>(a, d). P d) xs) = set (filter (\<lambda>(a, d). \<not> P d) xs)"
      by auto
    ultimately show ?thesis using s(4) q(5) by simp
  qed
  moreover have "map snd (filter (\<lambda>(a, d). \<not> P d) xs) = filter (\<lambda>d. \<not> P d) ds"
    unfolding q(4) [symmetric] by (simp add: filter_map comp_def case_prod_unfold)
  ultimately show ?thesis
    using s(1,2) l
    by (intro exI [of _ "(m', l')"]) (auto simp: list_sweep_def q(1) clist_rep_def
        intro!: exI [of _ "filter (\<lambda>(a, d). \<not> P d) xs"])
qed

interpretation clist: linked_list clist_rep clist_empty list_push list_sweep list_size
proof unfold_locales
  fix q :: "'a clist" and ds
  assume "clist_rep q ds"
  then show "list_size q = Some (int (length ds))"
    by (auto simp: clist_rep_def list_rep_def list_size_def split: prod.splits)
qed (rule clist_rep_empty clist_rep_push clist_rep_sweep; assumption)+


section \<open>Properties\<close>

text \<open>
  C23. The linked list refines a queue: whatever sequence of additions (\<open>node_create\<close> and
  \<open>list_add\<close>) and of removing loops (\<open>LIST_FOREACH_SAFE\<close> with \<open>list_remove\<close> and
  \<open>node_free\<close>) runs on a new list, no NULL or freed node is ever dereferenced, the list
  holds the added data in order without the removed ones, \<open>LIST_SIZE\<close> is their number, and
  every removed node has been freed.
\<close>

theorem list_ops_refine_queue:
  "\<exists>q. run_ops list_push list_sweep clist_empty ops = Some q \<and> clist_rep q (abs_ops [] ops) \<and>
       list_size q = Some (int (length (abs_ops [] ops)))"
  by (rule clist.run_from_create)

text \<open>
  C12. \<open>list_remove\<close> unlinks exactly the given node, at the head, at the tail or in between:
  it succeeds on every well-formed list that holds the node, the rest keeps its order and
  its links in both directions, and no cell outside the list is written.
\<close>

lemma list_remove_correct:
  assumes "list_rep m list (xs @ (p, d) # ys)"
  shows "\<exists>m' list'. list_remove m list p = Some (m', list', p) \<and> list_rep m' list' (xs @ ys) \<and>
           (\<forall>a. a \<notin> fst ` set (xs @ ys) \<longrightarrow> cells m' a = cells m a)"
  using list_remove_spec [OF assms] by blast

end
