(* ===== verification/Dlclist.thy ===== *)
theory Dlclist
  imports Prelude
begin

text \<open>
  The circular doubly linked list of dlclist.c.  A list is a head node whose value is not used and
  the nodes behind it, each linked with its neighbours both ways; \<open>ring m xs\<close> says that the memory
  holds the nodes \<open>xs\<close> (address and value) in this order, the last of them followed by the first.
  No file of the program uses these functions yet.
\<close>

section \<open>Data and operations\<close>

record 'v dlclist =
  dl_next :: ptr
  dl_prev :: ptr
  dl_val :: "'v option"

type_synonym 'v dlc = "'v dlclist mem"

text \<open>Assignments through a pointer, and the reading of a field.\<close>

definition dl_set_next :: "ptr \<Rightarrow> ptr \<Rightarrow> 'v dlc \<Rightarrow> 'v dlc option" where
  "dl_set_next p q m = do { n \<leftarrow> mem_load m p; mem_store m p (n\<lparr>dl_next := q\<rparr>) }"

definition dl_set_prev :: "ptr \<Rightarrow> ptr \<Rightarrow> 'v dlc \<Rightarrow> 'v dlc option" where
  "dl_set_prev p q m = do { n \<leftarrow> mem_load m p; mem_store m p (n\<lparr>dl_prev := q\<rparr>) }"

definition dl_set_val :: "ptr \<Rightarrow> 'v option \<Rightarrow> 'v dlc \<Rightarrow> 'v dlc option" where
  "dl_set_val p v m = do { n \<leftarrow> mem_load m p; mem_store m p (n\<lparr>dl_val := v\<rparr>) }"

definition dlclist_init :: "'v dlc \<Rightarrow> (ptr \<times> 'v dlc) option" where
  "dlclist_init m =
     (let (l, m) = MyMalloc m \<lparr>dl_next = NULL, dl_prev = NULL, dl_val = None\<rparr> in
      if l = NULL then Some (NULL, m)
      else do {
        m \<leftarrow> dl_set_next l l m;
        m \<leftarrow> dl_set_prev l l m;
        m \<leftarrow> dl_set_val l None m;
        Some (l, m) })"

text \<open>The node stays allocated: the call of \<open>MyFree\<close> is commented out.\<close>

definition dlclist_delete_node :: "ptr \<Rightarrow> 'v dlc \<Rightarrow> 'v dlc option" where
  "dlclist_delete_node n m = do {
     c \<leftarrow> mem_load m n;
     m \<leftarrow> dl_set_next (dl_prev c) (dl_next c) m;
     c \<leftarrow> mem_load m n;
     dl_set_prev (dl_next c) (dl_prev c) m }"

partial_function (option) dlclist_destroy :: "ptr \<Rightarrow> 'v dlc \<Rightarrow> 'v dlc option" where
  "dlclist_destroy h m = do {
     c \<leftarrow> mem_load m h;
     if dl_next c \<noteq> h then do { m \<leftarrow> dlclist_delete_node (dl_next c) m; dlclist_destroy h m }
     else Some m }"

declare dlclist_destroy.simps [code]

definition dlclist_insert_before :: "ptr \<Rightarrow> 'v option \<Rightarrow> 'v dlc \<Rightarrow> (ptr \<times> 'v dlc) option" where
  "dlclist_insert_before n v m =
     (let (t, m) = MyMalloc m \<lparr>dl_next = NULL, dl_prev = NULL, dl_val = None\<rparr> in
      if t = NULL then Some (NULL, m)
      else do {
        m \<leftarrow> dl_set_val t v m;
        m \<leftarrow> dl_set_next t n m;
        c \<leftarrow> mem_load m n;
        m \<leftarrow> dl_set_prev t (dl_prev c) m;
        c \<leftarrow> mem_load m t;
        m \<leftarrow> dl_set_prev (dl_next c) t m;
        c \<leftarrow> mem_load m t;
        m \<leftarrow> dl_set_next (dl_prev c) t m;
        Some (t, m) })"

definition dlclist_insert_after :: "ptr \<Rightarrow> 'v option \<Rightarrow> 'v dlc \<Rightarrow> (ptr \<times> 'v dlc) option" where
  "dlclist_insert_after n v m = do { c \<leftarrow> mem_load m n; dlclist_insert_before (dl_next c) v m }"

section \<open>Representation\<close>

text \<open>The three fields of the nodes as maps.\<close>

definition nx :: "'v dlc \<Rightarrow> ptr \<rightharpoonup> ptr" where "nx m a = map_option dl_next (cells m a)"
definition pv :: "'v dlc \<Rightarrow> ptr \<rightharpoonup> ptr" where "pv m a = map_option dl_prev (cells m a)"
definition vl :: "'v dlc \<Rightarrow> ptr \<rightharpoonup> 'v option" where "vl m a = map_option dl_val (cells m a)"

text \<open>A chain of nodes, each linked with the next one both ways, and a chain that is closed.\<close>

definition linked :: "'v dlc \<Rightarrow> ptr \<Rightarrow> ptr \<Rightarrow> bool" where
  "linked m a b \<longleftrightarrow> nx m a = Some b \<and> pv m b = Some a"

fun chain :: "'v dlc \<Rightarrow> ptr list \<Rightarrow> bool" where
  "chain m (a # b # xs) \<longleftrightarrow> linked m a b \<and> chain m (b # xs)"
| "chain m xs \<longleftrightarrow> True"

definition ring :: "'v dlc \<Rightarrow> (ptr \<times> 'v option) list \<Rightarrow> bool" where
  "ring m xs \<longleftrightarrow> xs \<noteq> [] \<and> distinct (map fst xs) \<and> (\<forall>(a, v) \<in> set xs. vl m a = Some v) \<and>
     chain m (map fst xs) \<and> linked m (fst (last xs)) (fst (hd xs))"

text \<open>An operation changes only the contents of nodes in \<open>A\<close>.\<close>

definition touches :: "ptr set \<Rightarrow> 'v dlc \<Rightarrow> 'v dlc \<Rightarrow> bool" where
  "touches A m m' \<longleftrightarrow> (\<forall>a. a \<notin> A \<longrightarrow> cells m' a = cells m a)"

section \<open>Chains\<close>

lemma chain_append: "chain m (xs @ a # ys) \<longleftrightarrow> chain m (xs @ [a]) \<and> chain m (a # ys)"
  by (induction m xs rule: chain.induct) auto

lemma chain_snoc: "chain m (xs @ [a, b]) \<longleftrightarrow> chain m (xs @ [a]) \<and> linked m a b"
  using chain_append [of m xs a "[b]"] by simp

text \<open>A chain depends on the successors of all its nodes but the last and the predecessors of all
  but the first.\<close>

lemma chain_keep:
  assumes "chain m xs" "distinct xs" "\<And>a. a \<in> set (butlast xs) \<Longrightarrow> nx m' a = nx m a"
    and "\<And>a. a \<in> set (tl xs) \<Longrightarrow> pv m' a = pv m a"
  shows "chain m' xs"
  using assms
proof (induction m xs rule: chain.induct)
  case (1 m a b xs)
  have "chain m' (b # xs)"
    using 1(2-) by (intro 1(1)) (auto intro: list.set_sel(2))
  moreover have "linked m' a b" using 1(2-) by (simp add: linked_def)
  ultimately show ?case by simp
qed simp_all

text \<open>A ring can be entered at any of its nodes.\<close>

lemma chain_last:
  assumes "xs \<noteq> []"
  shows "chain m (xs @ [a]) \<longleftrightarrow> chain m xs \<and> linked m (last xs) a"
proof -
  obtain ys b where "xs = ys @ [b]" using assms by (cases xs rule: rev_cases) auto
  then show ?thesis using chain_snoc [of m ys b a] by simp
qed

lemma ring_rotate1: "ring m (x # xs) = ring m (xs @ [x])"
proof (cases xs)
  case (Cons y ys)
  have "chain m (map fst xs @ [fst x]) \<longleftrightarrow> chain m (map fst xs) \<and> linked m (fst (last xs)) (fst x)"
    using chain_last [of "map fst xs" m "fst x"] by (simp add: Cons last_map)
  moreover have "chain m (fst x # map fst xs) \<longleftrightarrow> linked m (fst x) (fst y) \<and> chain m (map fst xs)" by (simp add: Cons)
  moreover have "last (x # xs) = last xs" "hd (xs @ [x]) = y" by (simp_all add: Cons)
  moreover have "distinct (map fst xs @ [fst x]) = distinct (fst x # map fst xs)" by auto
  ultimately show ?thesis by (auto simp: ring_def)
qed simp

lemma ring_swap: "ring m (xs @ ys) = ring m (ys @ xs)"
proof (induction xs arbitrary: ys)
  case (Cons x xs)
  have "ring m (xs @ ys @ [x]) = ring m ((ys @ [x]) @ xs)" using Cons.IH [of "ys @ [x]"] by simp
  then show ?case using ring_rotate1 [of m x "xs @ ys"] by simp
qed simp

section \<open>Effects on the fields\<close>

lemma dom_fields: "dom (nx m) = dom (cells m)" "dom (pv m) = dom (cells m)" "dom (vl m) = dom (cells m)"
  by (auto simp: nx_def pv_def vl_def dom_def)

lemmas assign_defs = dl_set_next_def dl_set_prev_def dl_set_val_def mem_load_def mem_store_def
lemmas field_defs = nx_def pv_def vl_def

lemma insert_before_fields:
  assumes wf: "mem_wf m" and c: "cells m n = Some c" and d: "cells m (dl_prev c) = Some d"
  shows "\<exists>m'. dlclist_insert_before n v m = Some (brk m, m') \<and> nx m' = (nx m)(brk m \<mapsto> n, dl_prev c \<mapsto> brk m) \<and>
    pv m' = (pv m)(brk m \<mapsto> dl_prev c, n \<mapsto> brk m) \<and> vl m' = (vl m)(brk m \<mapsto> v) \<and> mem_wf m' \<and>
    touches {brk m, n, dl_prev c} m m'"
proof -
  have t: "brk m \<noteq> NULL" "n \<noteq> brk m" "dl_prev c \<noteq> brk m"
    using wf c d mem_wf_brk [OF wf] by (auto simp: mem_wf_def)
  let ?t = "\<lparr>dl_next = n, dl_prev = dl_prev c, dl_val = v\<rparr>"
  let ?cs = "if dl_prev c = n then (cells m)(brk m \<mapsto> ?t, n \<mapsto> c\<lparr>dl_prev := brk m, dl_next := brk m\<rparr>)
    else (cells m)(brk m \<mapsto> ?t, n \<mapsto> c\<lparr>dl_prev := brk m\<rparr>, dl_prev c \<mapsto> d\<lparr>dl_next := brk m\<rparr>)"
  let ?m = "m\<lparr>cells := ?cs, brk := Suc (brk m)\<rparr>"
  have "dlclist_insert_before n v m = Some (brk m, ?m)"
    using t c d by (cases "dl_prev c = n") (auto simp: dlclist_insert_before_def MyMalloc_def assign_defs fun_upd_twist)
  moreover have "nx ?m = (nx m)(brk m \<mapsto> n, dl_prev c \<mapsto> brk m)" "pv ?m = (pv m)(brk m \<mapsto> dl_prev c, n \<mapsto> brk m)" "vl ?m = (vl m)(brk m \<mapsto> v)"
    using t c d by (auto simp: field_defs fun_eq_iff)
  moreover have "mem_wf ?m" using wf c d by (auto simp: mem_wf_def less_Suc_eq split: if_splits)
  ultimately show ?thesis by (auto simp: touches_def)
qed

lemma delete_node_fields:
  assumes wf: "mem_wf m" and c: "cells m n = Some c" and d: "cells m (dl_prev c) = Some d" "cells m (dl_next c) = Some e"
    and l: "dl_prev c = n \<longleftrightarrow> dl_next c = n"
  shows "\<exists>m'. dlclist_delete_node n m = Some m' \<and> nx m' = (nx m)(dl_prev c \<mapsto> dl_next c) \<and>
    pv m' = (pv m)(dl_next c \<mapsto> dl_prev c) \<and> vl m' = vl m \<and> mem_wf m' \<and>
    touches {dl_prev c, dl_next c} m m' \<and> dom (cells m') = dom (cells m)"
proof -
  define m1 where "m1 = m\<lparr>cells := (cells m)(dl_prev c \<mapsto> d\<lparr>dl_next := dl_next c\<rparr>)\<rparr>"
  obtain c' where c': "cells m1 n = Some c'" "dl_next c' = dl_next c" "dl_prev c' = dl_prev c"
    using c d l by (cases "dl_prev c = n") (auto simp: m1_def)
  obtain e' where e': "cells m1 (dl_next c) = Some e'" "dl_next e' = (if dl_next c = dl_prev c then dl_next c else dl_next e)"
      "dl_val e' = dl_val e" using d by (cases "dl_next c = dl_prev c") (auto simp: m1_def)
  let ?m2 = "m1\<lparr>cells := (cells m1)(dl_next c \<mapsto> e'\<lparr>dl_prev := dl_prev c\<rparr>)\<rparr>"
  have "dl_set_next (dl_prev c) (dl_next c) m = Some m1" using d(1) by (simp add: assign_defs m1_def)
  moreover have "dl_set_prev (dl_next c) (dl_prev c) m1 = Some ?m2" using e'(1) by (simp add: assign_defs)
  ultimately have "dlclist_delete_node n m = Some ?m2" using c c' by (simp add: dlclist_delete_node_def mem_load_def)
  moreover have "nx ?m2 = (nx m)(dl_prev c \<mapsto> dl_next c)" "pv ?m2 = (pv m)(dl_next c \<mapsto> dl_prev c)" "vl ?m2 = vl m"
    using d e' by (auto simp: field_defs fun_eq_iff m1_def)
  moreover have "mem_wf ?m2" using wf d by (auto simp: mem_wf_def m1_def)
  moreover have "dom (cells ?m2) = dom (cells m)" using d by (auto simp: m1_def)
  ultimately show ?thesis by (auto simp: touches_def m1_def)
qed

section \<open>Effects on a ring\<close>

lemma ring_cells:
  assumes "ring m ((n, u) # ys)"
  obtains c where "cells m n = Some c" "dl_val c = u" "dl_prev c = fst (last ((n, u) # ys))"
    "dl_next c = (case ys of [] \<Rightarrow> n | y # zs \<Rightarrow> fst y)"
  using assms by (cases ys) (auto simp: ring_def linked_def field_defs)

lemma ring_dom: "ring m xs \<Longrightarrow> fst ` set xs \<subseteq> dom (cells m)"
  using dom_fields(3) [of m] by (fastforce simp: ring_def)

lemma butlast_not_last: "distinct xs \<Longrightarrow> a \<in> set (butlast xs) \<Longrightarrow> a \<noteq> last xs"
  by (cases xs rule: rev_cases) auto

text \<open>A chain stays one when the successor of its last node and the predecessor of its first one change.\<close>

lemma chain_ends:
  assumes "chain m xs" "distinct xs" "\<And>a. a \<in> set xs \<Longrightarrow> a \<noteq> last xs \<Longrightarrow> nx m' a = nx m a"
    and "\<And>a. a \<in> set xs \<Longrightarrow> a \<noteq> hd xs \<Longrightarrow> pv m' a = pv m a"
  shows "chain m' xs"
proof (rule chain_keep [OF assms(1,2)])
  fix a show "a \<in> set (butlast xs) \<Longrightarrow> nx m' a = nx m a"
    using butlast_not_last [OF assms(2)] assms(3) by (blast dest: in_set_butlastD)
  show "a \<in> set (tl xs) \<Longrightarrow> pv m' a = pv m a" using assms(2,4) by (cases xs) auto
qed

lemma touches_mono: "touches A m m' \<Longrightarrow> A \<subseteq> B \<Longrightarrow> touches B m m'"
  unfolding touches_def by blast

lemma ringI:
  assumes "xs \<noteq> []" "distinct (map fst xs)" "\<And>a v. (a, v) \<in> set xs \<Longrightarrow> vl m a = Some v" "chain m (map fst xs)"
    "linked m (fst (last xs)) (fst (hd xs))"
  shows "ring m xs"
  unfolding ring_def using assms by blast

lemma ringD:
  assumes "ring m xs"
  shows "xs \<noteq> []" "distinct (map fst xs)" "\<And>a v. (a, v) \<in> set xs \<Longrightarrow> vl m a = Some v" "chain m (map fst xs)"
    "linked m (fst (last xs)) (fst (hd xs))"
  using assms unfolding ring_def by blast+

lemma ring_ends:
  assumes "ring m xs"
  obtains c where "cells m (fst (hd xs)) = Some c" "dl_prev c = fst (last xs)" "fst (last xs) \<in> fst ` set xs" "fst (hd xs) \<in> fst ` set xs"
  using assms by (auto simp: ring_def linked_def field_defs)

lemma insert_before_ring:
  assumes "mem_wf m" "ring m xs" "n = fst (hd xs)"
  shows "\<exists>m'. dlclist_insert_before n v m = Some (brk m, m') \<and> ring m' (xs @ [(brk m, v)]) \<and>
    mem_wf m' \<and> touches (insert (brk m) (fst ` set xs)) m m'"
proof -
  let ?p = "fst (last xs)"
  obtain c where c: "cells m n = Some c" "dl_prev c = ?p" and pin: "?p \<in> fst ` set xs" "n \<in> fst ` set xs"
    using ring_ends [OF assms(2)] unfolding assms(3) by metis
  have dm: "fst ` set xs \<subseteq> dom (cells m)" using ring_dom [OF assms(2)] .
  obtain d where d: "cells m (dl_prev c) = Some d" using subsetD [OF dm pin(1)] c(2) by auto
  have "brk m \<notin> dom (cells m)" using mem_wf_brk [OF assms(1)] by auto
  then have t: "brk m \<notin> fst ` set xs" using subsetD [OF dm] by metis
  then have t': "a \<noteq> brk m" if "a \<in> fst ` set xs" for a using that by blast
  obtain m' where m': "dlclist_insert_before n v m = Some (brk m, m')" "nx m' = (nx m)(brk m \<mapsto> n, ?p \<mapsto> brk m)"
      "pv m' = (pv m)(brk m \<mapsto> ?p, n \<mapsto> brk m)" "vl m' = (vl m)(brk m \<mapsto> v)" "mem_wf m'" "touches {brk m, n, ?p} m m'"
    using insert_before_fields [OF assms(1) c(1) d, of v] unfolding c(2) by blast
  note r = ringD [OF assms(2)]
  have e: "last (map fst xs) = ?p" "hd (map fst xs) = n" using r(1) assms(3) by (simp_all add: last_map hd_map)
  have "chain m' (map fst xs)"
  proof (rule chain_ends [OF r(4) r(2)])
    fix a assume "a \<in> set (map fst xs)"
    then have "a \<noteq> brk m" using t' by simp
    then show "a \<noteq> last (map fst xs) \<Longrightarrow> nx m' a = nx m a" "a \<noteq> hd (map fst xs) \<Longrightarrow> pv m' a = pv m a"
      using m'(2,3) e by simp_all
  qed
  moreover have l: "linked m' ?p (brk m)" "linked m' (brk m) n" using t' [OF pin(1)] t' [OF pin(2)] m'(2,3) by (simp_all add: linked_def)
  ultimately have ch: "chain m' (map fst xs @ [brk m])" using chain_last [of "map fst xs" m' "brk m"] r(1) e(1) by simp
  have vl: "vl m' a = Some x" if "(a, x) \<in> set xs" for a x
    using t' [OF imageI [OF that, of fst, simplified]] r(3) [OF that] m'(4) by simp
  have "ring m' (xs @ [(brk m, v)])"
    proof (rule ringI)
    show "distinct (map fst (xs @ [(brk m, v)]))" using r(2) t by simp
    show "vl m' a = Some x" if "(a, x) \<in> set (xs @ [(brk m, v)])" for a x
    proof (cases "(a, x) \<in> set xs")
      case True then show ?thesis by (rule vl)
    next
      case False then show ?thesis using that by (simp add: m'(4))
    qed
  qed (use r(1) ch l(2) assms(3) in simp_all)
  moreover have "touches (insert (brk m) (fst ` set xs)) m m'" by (rule touches_mono [OF m'(6)]) (use pin in blast)
  ultimately show ?thesis using m'(1,5) by blast
qed

lemma delete_node_ring:
  assumes "mem_wf m" "ring m ((n, u) # ys)" "ys \<noteq> []"
  shows "\<exists>m'. dlclist_delete_node n m = Some m' \<and> ring m' ys \<and> mem_wf m' \<and> touches (fst ` set ys) m m' \<and> dom (cells m') = dom (cells m)"
proof -
  let ?p = "fst (last ys)" let ?q = "fst (hd ys)"
  obtain y zs where y: "ys = y # zs" using assms(3) by (cases ys) auto
  obtain c where c: "cells m n = Some c" "dl_prev c = ?p" "dl_next c = ?q"
    by (rule ring_cells [OF assms(2)]) (simp add: y)
  have pq: "?p \<in> fst ` set ys" "?q \<in> fst ` set ys" using assms(3) by simp_all
  have dm: "fst ` set ys \<subseteq> dom (cells m)" using ring_dom [OF assms(2)] by auto
  have n: "n \<notin> fst ` set ys" using assms(2) by (auto simp: ring_def)
  then have x: "?p \<noteq> n" "?q \<noteq> n" using pq by auto
  obtain d e where d: "cells m (dl_prev c) = Some d" "cells m (dl_next c) = Some e" using dm pq c(2,3) by (metis domD subsetD)
  obtain m' where m': "dlclist_delete_node n m = Some m'" "nx m' = (nx m)(?p \<mapsto> ?q)" "pv m' = (pv m)(?q \<mapsto> ?p)" "vl m' = vl m"
      "mem_wf m'" "touches {?p, ?q} m m'" "dom (cells m') = dom (cells m)"
    using delete_node_fields [OF assms(1) c(1) d] c(2,3) x by auto
  note r = ringD [OF assms(2)]
  have ch: "chain m (map fst ys)" using r(4) by (simp add: y)
  have dy: "distinct (map fst ys)" using r(2) by simp
  have "chain m' (map fst ys)"
    by (rule chain_ends [OF ch dy]) (use assms(3) m'(2,3) in \<open>simp_all add: last_map hd_map\<close>)
  moreover have "linked m' ?p ?q" using m'(2,3) by (simp add: linked_def)
  moreover have "vl m' a = Some x" if "(a, x) \<in> set ys" for a x using r(3) [of a x] that m'(4) by simp
  ultimately have "ring m' ys" using dy assms(3) by (intro ringI)
  moreover have "touches (fst ` set ys) m m'" by (rule touches_mono [OF m'(6)]) (use pq in blast)
  ultimately show ?thesis using m'(1,5,7) by blast
qed

text \<open>An insertion after the first node of a ring is one before the second.\<close>

lemma insert_after_ring:
  assumes "mem_wf m" "ring m ((n, u) # ys)"
  shows "\<exists>m'. dlclist_insert_after n v m = Some (brk m, m') \<and> ring m' ((n, u) # (brk m, v) # ys) \<and>
    mem_wf m' \<and> touches (insert (brk m) (fst ` set ((n, u) # ys))) m m'"
proof -
  let ?zs = "ys @ [(n, u)]"
  obtain c where c: "cells m n = Some c" "dl_next c = (case ys of [] \<Rightarrow> n | y # zs \<Rightarrow> fst y)"
    using ring_cells [OF assms(2)] by metis
  have q: "dl_next c = fst (hd ?zs)" using c(2) by (cases ys) auto
  have z: "ring m ?zs" using assms(2) by (simp only: ring_rotate1)
  obtain m' where m': "dlclist_insert_before (dl_next c) v m = Some (brk m, m')" "ring m' (?zs @ [(brk m, v)])" "mem_wf m'"
      "touches (insert (brk m) (fst ` set ?zs)) m m'" using insert_before_ring [OF assms(1) z q] by blast
  have "ring m' ((n, u) # (brk m, v) # ys)" using m'(2) ring_swap [of m' "[(n, u), (brk m, v)]" ys] by simp
  moreover have "set ?zs = set ((n, u) # ys)" by simp
  ultimately show ?thesis using c(1) m'(1,3,4) by (simp add: dlclist_insert_after_def mem_load_def)
qed

text \<open>The loop of \<open>dlclist_destroy\<close> unlinks the nodes behind the head one by one and returns.\<close>

lemma destroy_ring:
  assumes "mem_wf m" "ring m ((h, u) # ys)"
  shows "\<exists>m'. dlclist_destroy h m = Some m' \<and> ring m' [(h, u)] \<and> mem_wf m' \<and> touches (fst ` set ((h, u) # ys)) m m' \<and> dom (cells m') = dom (cells m)"
  using assms
proof (induction ys arbitrary: m)
  case Nil
  obtain c where "cells m h = Some c" "dl_next c = h" using ring_cells [OF Nil(2)] by (metis list.simps(4))
  then show ?case using Nil by (simp add: dlclist_destroy.simps [of h m] mem_load_def touches_def)
next
  case (Cons y ys)
  obtain a x where y: "y = (a, x)" by (cases y)
  obtain c where c: "cells m h = Some c" "dl_next c = a" using ring_cells [OF Cons(3)] y by (metis fst_conv list.simps(5))
  have "h \<noteq> a" using ringD(2) [OF Cons(3)] by (auto simp: y)
  have r: "ring m ((a, x) # ys @ [(h, u)])" using Cons(3) ring_rotate1 [of m "(h, u)" "y # ys"] by (simp add: y)
  obtain m1 where m1: "dlclist_delete_node a m = Some m1" "ring m1 (ys @ [(h, u)])" "mem_wf m1" "touches (fst ` set (ys @ [(h, u)])) m m1"
      "dom (cells m1) = dom (cells m)" using delete_node_ring [OF Cons(2) r] by blast
  have "ring m1 ((h, u) # ys)" using m1(2) by (simp only: ring_rotate1)
  then obtain m2 where m2: "dlclist_destroy h m1 = Some m2" "ring m2 [(h, u)]" "mem_wf m2" "touches (fst ` set ((h, u) # ys)) m1 m2"
      "dom (cells m2) = dom (cells m1)" using Cons.IH [OF m1(3)] by blast
  have "dlclist_destroy h m = Some m2"
    using c \<open>h \<noteq> a\<close> m1(1) m2(1) by (simp add: dlclist_destroy.simps [of h m] mem_load_def)
  moreover have "touches (fst ` set ((h, u) # y # ys)) m m2" using m1(4) m2(4) by (auto simp: touches_def)
  ultimately show ?case using m2(2,3,5) m1(5) by blast
qed

lemma init_ring:
  assumes "mem_wf m"
  shows "\<exists>m'. dlclist_init m = Some (brk m, m') \<and> ring m' [(brk m, None)] \<and> mem_wf m' \<and> touches {brk m} m m'"
proof -
  have "brk m \<noteq> NULL" using assms by (simp add: mem_wf_def)
  then have "dlclist_init m = Some (brk m, m\<lparr>cells := (cells m)(brk m \<mapsto> \<lparr>dl_next = brk m, dl_prev = brk m, dl_val = None\<rparr>), brk := Suc (brk m)\<rparr>)"
    by (simp add: dlclist_init_def MyMalloc_def assign_defs)
  moreover have "mem_wf (m\<lparr>cells := (cells m)(brk m \<mapsto> z), brk := Suc (brk m)\<rparr>)" for z
    using assms by (auto simp: mem_wf_def less_Suc_eq split: if_splits)
  ultimately show ?thesis by (simp add: ring_def linked_def field_defs touches_def)
qed

text \<open>A head and two nodes, for an example.\<close>

definition three_ring :: "nat dlc" where
  "three_ring = \<lparr>cells = [1 \<mapsto> \<lparr>dl_next = 2, dl_prev = 3, dl_val = None\<rparr>, 2 \<mapsto> \<lparr>dl_next = 3, dl_prev = 1, dl_val = Some 10\<rparr>,
     3 \<mapsto> \<lparr>dl_next = 1, dl_prev = 2, dl_val = Some 20\<rparr>], brk = 4\<rparr>"

lemma three_ring_ok: "mem_wf three_ring" "ring three_ring ([(1, None)] @ (2, Some 10) # [(3, Some 20)])"
  by (auto simp: three_ring_def mem_wf_def ring_def linked_def field_defs split: if_splits)

text \<open>C24: The circular list implements a sequence.  In a ring that contains the node \<open>n\<close>, an
  insertion puts the new node next to \<open>n\<close> on the side the name says, a deletion takes \<open>n\<close> out and keeps
  the order of the others, and destroying the list returns with the head alone in its ring.  Nothing
  outside the ring is changed, and no node is ever freed.\<close>

theorem dlclist_refines_sequence:
  assumes "mem_wf m" "ring m (xs @ (n, u) # ys)"
  shows "(\<exists>m'. dlclist_insert_before n v m = Some (brk m, m') \<and> ring m' (xs @ (brk m, v) # (n, u) # ys) \<and> mem_wf m' \<and>
            (\<forall>a. a \<notin> insert (brk m) (fst ` set (xs @ (n, u) # ys)) \<longrightarrow> cells m' a = cells m a)) \<and>
         (\<exists>m'. dlclist_insert_after n v m = Some (brk m, m') \<and> ring m' (xs @ (n, u) # (brk m, v) # ys) \<and> mem_wf m' \<and>
            (\<forall>a. a \<notin> insert (brk m) (fst ` set (xs @ (n, u) # ys)) \<longrightarrow> cells m' a = cells m a)) \<and>
         (xs @ ys \<noteq> [] \<longrightarrow> (\<exists>m'. dlclist_delete_node n m = Some m' \<and> ring m' (xs @ ys) \<and> mem_wf m' \<and> dom (cells m') = dom (cells m) \<and>
            (\<forall>a. a \<notin> fst ` set (xs @ ys) \<longrightarrow> cells m' a = cells m a))) \<and>
         (\<exists>m'. dlclist_destroy n m = Some m' \<and> ring m' [(n, u)] \<and> mem_wf m' \<and> dom (cells m') = dom (cells m) \<and>
            (\<forall>a. a \<notin> fst ` set (xs @ (n, u) # ys) \<longrightarrow> cells m' a = cells m a))"
proof -
  let ?r = "(n, u) # ys @ xs"
  have r: "ring m ?r" using assms(2) ring_swap [of m xs "(n, u) # ys"] by simp
  have s: "set ?r = set (xs @ (n, u) # ys)" "set (ys @ xs) = set (xs @ ys)" by auto
  have t: "ring m' ((n, u) # ys @ xs @ [(brk m, v)]) = ring m' (xs @ (brk m, v) # (n, u) # ys)"
    "ring m' ((n, u) # (brk m, v) # ys @ xs) = ring m' (xs @ (n, u) # (brk m, v) # ys)" for m'
    using ring_swap [of m' "xs @ [(brk m, v)]" "(n, u) # ys"] ring_swap [of m' xs "(n, u) # (brk m, v) # ys"] by simp_all
  have "\<exists>m'. dlclist_insert_before n v m = Some (brk m, m') \<and> ring m' (xs @ (brk m, v) # (n, u) # ys) \<and> mem_wf m' \<and>
            (\<forall>a. a \<notin> insert (brk m) (fst ` set (xs @ (n, u) # ys)) \<longrightarrow> cells m' a = cells m a)"
    using insert_before_ring [OF assms(1) r, of n v] unfolding s touches_def by (simp add: t)
  moreover have "\<exists>m'. dlclist_insert_after n v m = Some (brk m, m') \<and> ring m' (xs @ (n, u) # (brk m, v) # ys) \<and> mem_wf m' \<and>
            (\<forall>a. a \<notin> insert (brk m) (fst ` set (xs @ (n, u) # ys)) \<longrightarrow> cells m' a = cells m a)"
    using insert_after_ring [OF assms(1) r, of v] unfolding s touches_def by (simp only: t)
  moreover have "xs @ ys \<noteq> [] \<longrightarrow> (\<exists>m'. dlclist_delete_node n m = Some m' \<and> ring m' (xs @ ys) \<and> mem_wf m' \<and> dom (cells m') = dom (cells m) \<and>
            (\<forall>a. a \<notin> fst ` set (xs @ ys) \<longrightarrow> cells m' a = cells m a))"
    using delete_node_ring [OF assms(1) r] ring_swap [of _ ys xs] unfolding s touches_def by (metis append_is_Nil_conv)
  moreover have "\<exists>m'. dlclist_destroy n m = Some m' \<and> ring m' [(n, u)] \<and> mem_wf m' \<and> dom (cells m') = dom (cells m) \<and>
            (\<forall>a. a \<notin> fst ` set (xs @ (n, u) # ys) \<longrightarrow> cells m' a = cells m a)"
    using destroy_ring [OF assms(1) r] unfolding s touches_def by blast
  ultimately show ?thesis by blast
qed

theorem dlclist_refines_sequence_witness:
  "(\<exists>m'. dlclist_insert_after 2 (Some 15) three_ring = Some (4, m') \<and> ring m' [(1, None), (2, Some 10), (4, Some 15), (3, Some 20)]) \<and>
   (\<exists>m'. dlclist_delete_node 2 three_ring = Some m' \<and> ring m' [(1, None), (3, Some 20)])"
proof -
  have "brk three_ring = 4" by (simp add: three_ring_def)
  then show ?thesis using dlclist_refines_sequence [OF three_ring_ok, of "Some 15"] by auto
qed

end
