(* ===== verification/Snprintf.thy ===== *)
theory Snprintf
  imports Prelude
begin

text \<open>
  The formatted output of snprintf.c, through which the program builds every line it sends:
  the parsing of a conversion specification, the conversions, the padding and the truncated
  copy into the buffer.  The conditional compilation symbols of the file
  (\<open>SNPRINTF_LONGLONG_SUPPORT\<close> and the \<open>_COMPATIBLE\<close> switches) are not defined by the
  build, so their branches are left out.  \<open>%p\<close>, whose text is left to the system by the C
  standard and which the program never uses, is \<open>None\<close>.

  \<open>vformat\<close> is the text the code would write into an unbounded buffer.  The main result
  relates the writes of \<open>portable_vsnprintf\<close> to it.
\<close>

section \<open>Arguments and numbers\<close>

text \<open>What \<open>va_arg\<close> finds: an \<open>int\<close> or \<open>unsigned int\<close>, a \<open>long\<close> or \<open>unsigned long\<close>, or a
  string pointer (\<open>None\<close> is NULL), or a \<open>double\<close>, whose value no conversion of the file
  reads.  Reading an argument at another type is undefined.\<close>

datatype arg = ArgInt uint | ArgLong ulong | ArgStr "string option" | ArgDouble

fun va_int :: "arg list \<Rightarrow> (uint \<times> arg list) option" where
  "va_int (ArgInt w # ap) = Some (w, ap)"
| "va_int ap = None"

fun va_long :: "arg list \<Rightarrow> (ulong \<times> arg list) option" where
  "va_long (ArgLong w # ap) = Some (w, ap)"
| "va_long ap = None"

fun va_str :: "arg list \<Rightarrow> (string option \<times> arg list) option" where
  "va_str (ArgStr s # ap) = Some (s, ap)"
| "va_str ap = None"

text \<open>Conversion to \<open>int\<close>.\<close>

definition cint :: "int \<Rightarrow> int" where
  "cint x = (x + 2 ^ 31) mod 2 ^ 32 - 2 ^ 31"

definition isdigit :: "char \<Rightarrow> bool" where
  "isdigit c \<longleftrightarrow> 48 \<le> (of_char c :: nat) \<and> (of_char c :: nat) \<le> 57"

definition digit_char :: "bool \<Rightarrow> nat \<Rightarrow> char" where
  "digit_char upper d =
     (if d < 10 then char_of (48 + d) else char_of ((if upper then 55 else 87) + d))"

text \<open>The digits of a number, as \<open>sprintf\<close> prints them.\<close>

function num_str :: "nat \<Rightarrow> bool \<Rightarrow> nat \<Rightarrow> string" where
  "num_str base upper n =
     (if base < 2 \<or> n < base then [digit_char upper n]
      else num_str base upper (n div base) @ [digit_char upper (n mod base)])"
  by pat_completeness auto
termination
  by (relation "measure (\<lambda>(b, u, n). n)") auto

declare num_str.simps [simp del]

definition int_str :: "int \<Rightarrow> string" where
  "int_str i = (if i < 0 then CHR ''-'' # num_str 10 False (nat (- i)) else num_str 10 False (nat i))"

section \<open>Conversion specifications\<close>

record spec =
  zero_padding :: bool
  justify_left :: bool
  force_sign :: bool
  alternate_form :: bool
  space_for_positive :: bool
  min_field_width :: nat
  precision :: nat
  precision_specified :: bool
  length_modifier :: char

definition spec_init :: spec where
  "spec_init = \<lparr>zero_padding = False, justify_left = False, force_sign = False,
     alternate_form = False, space_for_positive = True, min_field_width = 0, precision = 0,
     precision_specified = False, length_modifier = NUL\<rparr>"

fun parse_flags :: "spec \<Rightarrow> string \<Rightarrow> spec \<times> string" where
  "parse_flags s [] = (s, [])"
| "parse_flags s (c # p) =
     (if c = CHR ''0'' then parse_flags (s\<lparr>zero_padding := True\<rparr>) p
      else if c = CHR ''-'' then parse_flags (s\<lparr>justify_left := True\<rparr>) p
      else if c = CHR ''+'' then parse_flags (s\<lparr>force_sign := True, space_for_positive := False\<rparr>) p
      else if c = CHR '' '' then parse_flags (s\<lparr>force_sign := True\<rparr>) p
      else if c = CHR ''#'' then parse_flags (s\<lparr>alternate_form := True\<rparr>) p
      else if c = CHR 0x27 then parse_flags s p
      else (s, c # p))"

text \<open>\<open>while (isdigit(*p)) uj = 10*uj + (*p++ - '0')\<close>, in \<open>unsigned int\<close>.\<close>

fun parse_uint :: "nat \<Rightarrow> string \<Rightarrow> nat \<times> string" where
  "parse_uint uj [] = (uj, [])"
| "parse_uint uj (c # p) =
     (if isdigit c then parse_uint ((10 * uj + (of_char c - 48)) mod 2 ^ 32) p else (uj, c # p))"

definition parse_width :: "spec \<Rightarrow> string \<Rightarrow> arg list \<Rightarrow> (spec \<times> string \<times> arg list) option" where
  "parse_width s p ap =
     (if deref p = CHR ''*'' then do {
        (w, ap) \<leftarrow> va_int ap;
        let j = sint w;
        if j \<ge> 0 then Some (s\<lparr>min_field_width := nat j\<rparr>, tl p, ap)
        else if j = - (2 ^ 31) then None
        else Some (s\<lparr>min_field_width := nat (- j), justify_left := True\<rparr>, tl p, ap) }
      else if isdigit (deref p) then
        (let (uj, p) = parse_uint 0 p in Some (s\<lparr>min_field_width := uj\<rparr>, p, ap))
      else Some (s, p, ap))"

definition parse_precision :: "spec \<Rightarrow> string \<Rightarrow> arg list \<Rightarrow> (spec \<times> string \<times> arg list) option" where
  "parse_precision s p ap =
     (if deref p = CHR ''.'' then
        let s = s\<lparr>precision_specified := True\<rparr>; p = tl p in
        if deref p = CHR ''*'' then do {
          (w, ap) \<leftarrow> va_int ap;
          let j = sint w;
          if j \<ge> 0 then Some (s\<lparr>precision := nat j\<rparr>, tl p, ap)
          else Some (s\<lparr>precision_specified := False, precision := 0\<rparr>, tl p, ap) }
        else if isdigit (deref p) then
          (let (uj, p) = parse_uint 0 p in Some (s\<lparr>precision := uj\<rparr>, p, ap))
        else Some (s, p, ap)
      else Some (s, p, ap))"

definition parse_length :: "spec \<Rightarrow> string \<Rightarrow> spec \<times> string" where
  "parse_length s p =
     (let c = deref p in
      if c = CHR ''h'' \<or> c = CHR ''l'' then
        let s = s\<lparr>length_modifier := c\<rparr>; p = tl p in
        if c = CHR ''l'' \<and> deref p = CHR ''l'' then (s\<lparr>length_modifier := CHR ''l''\<rparr>, tl p)
        else (s, p)
      else (s, p))"

text \<open>The common synonyms.\<close>

definition fmt_synonym :: "spec \<Rightarrow> char \<Rightarrow> spec \<times> char" where
  "fmt_synonym s c =
     (if c = CHR ''i'' then (s, CHR ''d'')
      else if c = CHR ''D'' then (s\<lparr>length_modifier := CHR ''l''\<rparr>, CHR ''d'')
      else if c = CHR ''U'' then (s\<lparr>length_modifier := CHR ''l''\<rparr>, CHR ''u'')
      else if c = CHR ''O'' then (s\<lparr>length_modifier := CHR ''l''\<rparr>, CHR ''o'')
      else (s, c))"

section \<open>Conversions\<close>

text \<open>
  The outcome of a conversion: the (changed) flags, the bytes at \<open>str_arg\<close> (as many as
  \<open>str_arg_l\<close>), \<open>number_of_zeros_to_pad\<close> and \<open>zero_padding_insertion_ind\<close>.
\<close>

record conv =
  cspec :: spec
  ctext :: string
  czeros :: nat
  cins :: nat

text \<open>\<open>%%\<close>, \<open>%c\<close> and \<open>%s\<close>.  With a precision, the string is searched for its end in the
  first \<open>precision\<close> (at most \<open>0x7fffffff\<close>) bytes only.\<close>

definition str_arg_len :: "spec \<Rightarrow> string \<Rightarrow> nat" where
  "str_arg_len s t =
     (if \<not> precision_specified s then length t
      else if precision s = 0 then 0
      else if length t < min (precision s) 0x7fffffff then length t else precision s)"

definition conv_string :: "spec \<Rightarrow> char \<Rightarrow> arg list \<Rightarrow> (conv \<times> arg list) option" where
  "conv_string s0 c ap = do {
     let s = s0\<lparr>length_modifier := NUL, zero_padding := False\<rparr>;
     (t, ap) \<leftarrow>
       (if c = CHR ''%'' then Some (''%'', ap)
        else if c = CHR ''c'' then do { (w, ap) \<leftarrow> va_int ap; Some ([char_of (unat w)], ap) }
        else do {
          (q, ap) \<leftarrow> va_str ap;
          (case q of
             None \<Rightarrow> Some ([], ap)
           | Some t \<Rightarrow> if str_arg_len s t \<le> length t then Some (take (str_arg_len s t) t, ap)
                       else None) });
     Some (\<lparr>cspec = s, ctext = t, czeros = 0, cins = 0\<rparr>, ap) }"

text \<open>The numeric argument: \<open>arg_sign\<close> and the text \<open>sprintf\<close> prints for it.  \<open>%hd\<close> and
  \<open>%hu\<close> print the argument converted to a \<open>short\<close>.\<close>

definition unsigned_str :: "char \<Rightarrow> nat \<Rightarrow> string" where
  "unsigned_str c n =
     (if c = CHR ''o'' then num_str 8 False n
      else if c = CHR ''x'' then num_str 16 False n
      else if c = CHR ''X'' then num_str 16 True n
      else num_str 10 False n)"

definition number_arg :: "spec \<Rightarrow> char \<Rightarrow> arg list \<Rightarrow> (int \<times> string \<times> arg list) option" where
  "number_arg s c ap =
     (if length_modifier s = CHR ''l'' then do {
        (w, ap) \<leftarrow> va_long ap;
        Some (if c = CHR ''d'' then (sgn (sint w), int_str (sint w), ap)
              else (sgn (uint w), unsigned_str c (unat w), ap)) }
      else do {
        (w, ap) \<leftarrow> va_int ap;
        let h = (length_modifier s = CHR ''h'');
        Some (if c = CHR ''d'' then
                (sgn (sint w), int_str (if h then sint (ucast w :: ushort) else sint w), ap)
              else
                (sgn (uint w), unsigned_str c (if h then unat (ucast w :: ushort) else unat w), ap)) })"

text \<open>The sign or the \<open>0x\<close> put before the number.\<close>

definition number_prefix :: "spec \<Rightarrow> char \<Rightarrow> int \<Rightarrow> string" where
  "number_prefix s c arg_sign =
     (if c = CHR ''d'' then
        if force_sign s \<and> arg_sign \<ge> 0 then (if space_for_positive s then '' '' else ''+'') else []
      else if alternate_form s \<and> arg_sign \<noteq> 0 \<and> (c = CHR ''x'' \<or> c = CHR ''X'') then [CHR ''0'', c]
      else [])"

text \<open>Where zeros are inserted: after the sign and after \<open>0x\<close>.\<close>

definition insertion_ind :: "string \<Rightarrow> nat \<Rightarrow> nat" where
  "insertion_ind tmp i0 =
     (let i = (if i0 < length tmp \<and> tmp ! i0 = CHR ''-'' then i0 + 1 else i0) in
      if i + 1 < length tmp \<and> tmp ! i = CHR ''0'' \<and> (tmp ! (i + 1) = CHR ''x'' \<or> tmp ! (i + 1) = CHR ''X'')
      then i + 2 else i)"

text \<open>
  A numeric conversion, from the argument's sign and text on.  \<open>num_text\<close> is the content
  of \<open>tmp\<close> and the insertion index, \<open>num_precision\<close> the precision after the adjustment for
  \<open>%#o\<close>, \<open>num_zeros\<close> the zeros for the precision and for the field width.
\<close>

definition num_text :: "spec \<Rightarrow> char \<Rightarrow> int \<Rightarrow> string \<Rightarrow> string \<times> nat" where
  "num_text s c arg_sign body =
     (let prefix = number_prefix s c arg_sign in
      if precision s = 0 \<and> arg_sign = 0 then (prefix, length prefix)
      else (prefix @ body, insertion_ind (prefix @ body) (length prefix)))"

definition num_precision :: "spec \<Rightarrow> char \<Rightarrow> string \<Rightarrow> nat \<Rightarrow> spec" where
  "num_precision s c tmp ind =
     (if alternate_form s \<and> c = CHR ''o'' \<and> \<not> (ind < length tmp \<and> tmp ! ind = CHR ''0'') \<and>
         (\<not> precision_specified s \<or> precision s < length tmp - ind + 1)
      then s\<lparr>precision := length tmp - ind + 1, precision_specified := True\<rparr> else s)"

definition num_zeros :: "spec \<Rightarrow> string \<Rightarrow> nat \<Rightarrow> nat" where
  "num_zeros s tmp ind =
     (let zeros = precision s - (length tmp - ind);
          n = cint (int (min_field_width s) - int (length tmp + zeros)) in
      if \<not> justify_left s \<and> zero_padding s \<and> n > 0 then zeros + nat n else zeros)"

text \<open>\<open>tmp\<close> has room for 32 bytes, the NUL included.\<close>

definition conv_number :: "spec \<Rightarrow> char \<Rightarrow> arg list \<Rightarrow> (conv \<times> arg list) option" where
  "conv_number s0 c ap = do {
     (arg_sign, body, ap) \<leftarrow> number_arg s0 c ap;
     let s1 = (if precision_specified s0 then s0\<lparr>zero_padding := False\<rparr> else s0\<lparr>precision := 1\<rparr>);
     let (tmp, ind) = num_text s1 c arg_sign body;
     let s = num_precision s1 c tmp ind;
     if 32 \<le> length tmp then None
     else Some (\<lparr>cspec = s, ctext = tmp, czeros = num_zeros s tmp ind, cins = ind\<rparr>, ap) }"

text \<open>An unknown conversion character is printed as it is.\<close>

definition conv_default :: "spec \<Rightarrow> string \<Rightarrow> conv" where
  "conv_default s p =
     \<lparr>cspec = s\<lparr>zero_padding := False, justify_left := True, min_field_width := 0\<rparr>,
      ctext = take 1 p, czeros = 0, cins = 0\<rparr>"

text \<open>The strings a conversion puts out, in order: left padding, sign, zeros, the rest of the
  text, right padding.\<close>

definition pad_len :: "conv \<Rightarrow> int" where
  "pad_len k = cint (int (min_field_width (cspec k)) - int (length (ctext k) + czeros k))"

definition pieces :: "conv \<Rightarrow> string list" where
  "pieces k =
     (let n = nat (pad_len k); i = (if czeros k = 0 then 0 else cins k) in
      [if justify_left (cspec k) then []
       else replicate n (if zero_padding (cspec k) then CHR ''0'' else CHR '' ''),
       take i (ctext k),
       replicate (nat (cint (int (czeros k)))) CHR ''0'',
       take (nat (cint (int (length (ctext k)) - int i))) (drop i (ctext k)),
       if justify_left (cspec k) then replicate n CHR '' '' else []])"

text \<open>One conversion, from the character after the percent sign.\<close>

definition directive :: "string \<Rightarrow> arg list \<Rightarrow> (string list \<times> string \<times> arg list) option" where
  "directive p ap = do {
     let (s, p) = parse_flags spec_init p;
     (s, p, ap) \<leftarrow> parse_width s p ap;
     (s, p, ap) \<leftarrow> parse_precision s p ap;
     let (s, p) = parse_length s p;
     let (s, c) = fmt_synonym s (deref p);
     (k, ap) \<leftarrow>
       (if c \<in> set ''%cs'' then conv_string s c ap
        else if c \<in> set ''duoxX'' then conv_number s c ap
        else if c = CHR ''p'' then None
        else Some (conv_default s p, ap));
     Some (pieces k, tl p, ap) }"

section \<open>Writing into the buffer\<close>

text \<open>\<open>memcpy\<close> or \<open>memset\<close> of \<open>bytes\<close> at an offset; a write outside the buffer is undefined.\<close>

definition poke :: "string \<Rightarrow> nat \<Rightarrow> string \<Rightarrow> string option" where
  "poke buf off bytes =
     (if off + length bytes \<le> length buf
      then Some (take off buf @ bytes @ drop (off + length bytes) buf) else None)"

text \<open>Every piece is written as far as it fits; \<open>str_l\<close> counts all of it.\<close>

definition emit :: "nat \<Rightarrow> string \<Rightarrow> string \<times> nat \<Rightarrow> (string \<times> nat) option" where
  "emit str_m bytes = (\<lambda>(str, str_l). do {
     str \<leftarrow> (if str_l < str_m then poke str str_l (take (str_m - str_l) bytes) else Some str);
     Some (str, str_l + length bytes) })"

fun emits :: "nat \<Rightarrow> string list \<Rightarrow> string \<times> nat \<Rightarrow> (string \<times> nat) option" where
  "emits str_m [] st = Some st"
| "emits str_m (b # bs) st = do { st \<leftarrow> emit str_m b st; emits str_m bs st }"

text \<open>The text before the next percent sign; the first character is not one.\<close>

definition literal :: "string \<Rightarrow> string \<times> string" where
  "literal p =
     (let n = (case strchr (tl p) CHR ''%'' of None \<Rightarrow> length p | Some q \<Rightarrow> length p - length q) in
      (take n p, drop n p))"

lemma parse_flags_len: "length (snd (parse_flags s p)) \<le> length p"
  by (induction p arbitrary: s) (simp_all add: le_SucI)

lemma parse_uint_len: "length (snd (parse_uint n p)) \<le> length p"
  by (induction p arbitrary: n) (simp_all add: le_SucI)

lemma parse_width_len: "parse_width s p ap = Some (s', p', ap') \<Longrightarrow> length p' \<le> length p"
  using parse_uint_len [of 0 p]
  by (auto simp: parse_width_def bind_Some_iff Let_def split: if_splits prod.splits)

lemma parse_precision_len: "parse_precision s p ap = Some (s', p', ap') \<Longrightarrow> length p' \<le> length p"
  using parse_uint_len [of 0 "tl p"]
  by (auto simp: parse_precision_def bind_Some_iff Let_def split: if_splits prod.splits)

lemma parse_length_len: "length (snd (parse_length s p)) \<le> length p"
  by (simp add: parse_length_def Let_def)

lemma directive_len: "directive p ap = Some (ps, p', ap') \<Longrightarrow> length p' \<le> length p"
proof -
  assume d: "directive p ap = Some (ps, p', ap')"
  obtain s1 p1 where 1: "parse_flags spec_init p = (s1, p1)" by (cases "parse_flags spec_init p")
  obtain s2 p2 ap2 where 2: "parse_width s1 p1 ap = Some (s2, p2, ap2)"
    using d 1 by (cases "parse_width s1 p1 ap") (auto simp: directive_def)
  obtain s3 p3 ap3 where 3: "parse_precision s2 p2 ap2 = Some (s3, p3, ap3)"
    using d 1 2 by (cases "parse_precision s2 p2 ap2") (auto simp: directive_def)
  obtain s4 p4 where 4: "parse_length s3 p3 = (s4, p4)" by (cases "parse_length s3 p3")
  have "p' = tl p4"
    using d 1 2 3 4 by (auto simp: directive_def bind_Some_iff case_prod_beta Let_def)
  then show ?thesis
    using parse_flags_len [of spec_init p] parse_width_len [OF 2]
      parse_precision_len [OF 3] parse_length_len [of s3 p3] 1 4
    by simp
qed

lemma literal_append: "fst (literal p) @ snd (literal p) = p"
  by (simp add: literal_def Let_def)

lemma literal_len: "p \<noteq> [] \<Longrightarrow> length (snd (literal p)) < length p"
proof -
  assume "p \<noteq> []"
  then obtain c t where p: "p = c # t" by (cases p) auto
  have "length q \<le> length t" if "strchr t CHR ''%'' = Some q" for q
    using strchr_Some [OF that] by auto
  then show ?thesis by (auto simp: literal_def p Let_def split: option.split)
qed

text \<open>The main loop.\<close>

function vsn_loop :: "nat \<Rightarrow> string \<Rightarrow> arg list \<Rightarrow> string \<times> nat \<Rightarrow> (string \<times> nat) option" where
  "vsn_loop str_m p ap st =
     (if p = [] then Some st
      else if hd p \<noteq> CHR ''%'' then
        (case emit str_m (fst (literal p)) st of
           None \<Rightarrow> None
         | Some st \<Rightarrow> vsn_loop str_m (snd (literal p)) ap st)
      else
        (case directive (tl p) ap of
           None \<Rightarrow> None
         | Some (ps, p', ap') \<Rightarrow>
             (case emits str_m ps st of
                None \<Rightarrow> None
              | Some st \<Rightarrow> vsn_loop str_m p' ap' st)))"
  by pat_completeness auto
termination
proof (relation "measure (\<lambda>(m, p, ap, st). length p)", goal_cases)
  case (3 str_m p ap st x ps y p' ap' st')
  then have "length p' \<le> length (tl p)" by (auto dest: directive_len)
  then show ?case using 3(1) by (cases p) auto
qed (auto simp: literal_len)

declare vsn_loop.simps [simp del]

text \<open>\<open>portable_vsnprintf\<close>: a NULL format is empty; the result is the buffer and the returned
  \<open>int\<close>.\<close>

definition portable_vsnprintf ::
  "string \<Rightarrow> nat \<Rightarrow> string option \<Rightarrow> arg list \<Rightarrow> (string \<times> int) option" where
  "portable_vsnprintf str str_m fmt ap = do {
     (str, str_l) \<leftarrow> vsn_loop str_m (case fmt of None \<Rightarrow> [] | Some f \<Rightarrow> f) ap (str, 0);
     str \<leftarrow> (if str_m > 0 then poke str (min str_l (str_m - 1)) [NUL] else Some str);
     Some (str, cint (int str_l)) }"

definition portable_snprintf ::
  "string \<Rightarrow> nat \<Rightarrow> string option \<Rightarrow> arg list \<Rightarrow> (string \<times> int) option" where
  "portable_snprintf str str_m fmt ap = portable_vsnprintf str str_m fmt ap"

section \<open>The text of a format\<close>

function vformat :: "string \<Rightarrow> arg list \<Rightarrow> string option" where
  "vformat p ap =
     (if p = [] then Some []
      else if hd p \<noteq> CHR ''%'' then map_option (\<lambda>t. fst (literal p) @ t) (vformat (snd (literal p)) ap)
      else
        (case directive (tl p) ap of
           None \<Rightarrow> None
         | Some (ps, p', ap') \<Rightarrow> map_option (\<lambda>t. concat ps @ t) (vformat p' ap')))"
  by pat_completeness auto
termination
proof (relation "measure (\<lambda>(p, ap). length p)", goal_cases)
  case (3 p ap x ps y p' ap')
  then have "length p' \<le> length (tl p)" by (auto dest: directive_len)
  then show ?case using 3(1) by (cases p) auto
qed (auto simp: literal_len)

declare vformat.simps [simp del]

section \<open>Lemmas\<close>

subsection \<open>Writing\<close>

text \<open>\<open>o\<close> is what was put out so far: the buffer holds as much of it as fits, and nothing
  outside the first \<open>m\<close> bytes was touched.\<close>

definition written :: "string \<Rightarrow> nat \<Rightarrow> string \<Rightarrow> string \<times> nat \<Rightarrow> bool" where
  "written buf0 m out st \<longleftrightarrow>
     snd st = length out \<and> length (fst st) = length buf0 \<and>
     drop m (fst st) = drop m buf0 \<and> take (min (length out) m) (fst st) = take m out"

lemma poke_at:
  "off + length b \<le> length buf \<Longrightarrow>
   poke buf off b = Some (take off buf @ b @ drop (off + length b) buf)"
  by (simp add: poke_def)

lemma emit_written:
  assumes "written buf0 m out st" "m \<le> length buf0"
  shows "\<exists>st'. emit m b st = Some st' \<and> written buf0 m (out @ b) st'"
proof (cases st)
  case (Pair buf l)
  have w: "l = length out" "length buf = length buf0" "drop m buf = drop m buf0"
    "take (min l m) buf = take m out"
    using assms(1) by (simp_all add: written_def Pair)
  show ?thesis
  proof (cases "l < m")
    case True
    let ?b = "take (m - l) b"
    have le: "l + length ?b \<le> m" using True by simp
    have "take l buf = out" using w True by (simp add: min_def)
    then have p: "poke buf l ?b = Some (out @ ?b @ drop (l + length ?b) buf)"
      using le w(2) assms(2) by (subst poke_at) (auto simp del: length_take)
    have "drop m (out @ ?b @ drop (l + length ?b) buf) = drop m buf0"
      using w le True by (auto simp: min_def)
    moreover have "take (min (length (out @ b)) m) (out @ ?b @ drop (l + length ?b) buf) = take m (out @ b)"
      using w True by (auto simp: min_def)
    moreover have "length (out @ ?b @ drop (l + length ?b) buf) = length buf0"
      using w le assms(2) True by auto
    ultimately show ?thesis using p True w by (simp add: emit_def Pair written_def)
  next
    case False
    then show ?thesis using w by (simp add: emit_def Pair written_def)
  qed
qed

lemma emits_written:
  "written buf0 m out st \<Longrightarrow> m \<le> length buf0 \<Longrightarrow>
   \<exists>st'. emits m bs st = Some st' \<and> written buf0 m (out @ concat bs) st'"
proof (induction bs arbitrary: out st)
  case (Cons b bs)
  obtain st1 where 1: "emit m b st = Some st1" "written buf0 m (out @ b) st1"
    using emit_written Cons.prems by blast
  then show ?case using Cons.IH [OF 1(2)] Cons.prems by simp
qed simp

lemma vsn_loop_written:
  assumes "vformat p ap = Some t" "written buf0 m out st" "m \<le> length buf0"
  shows "\<exists>st'. vsn_loop m p ap st = Some st' \<and> written buf0 m (out @ t) st'"
  using assms
proof (induction p ap arbitrary: t out st rule: vformat.induct)
  case (1 p ap)
  consider "p = []" | "p \<noteq> []" "hd p \<noteq> CHR ''%''" | "p \<noteq> []" "hd p = CHR ''%''" by blast
  then show ?case
  proof cases
    case 1
    then show ?thesis using \<open>vformat p ap = Some t\<close> \<open>written buf0 m out st\<close>
      by (simp add: vformat.simps vsn_loop.simps)
  next
    case 2
    then obtain u where u: "vformat (snd (literal p)) ap = Some u" "t = fst (literal p) @ u"
      using \<open>vformat p ap = Some t\<close> by (subst (asm) vformat.simps) auto
    obtain st1 where st1: "emit m (fst (literal p)) st = Some st1"
      "written buf0 m (out @ fst (literal p)) st1"
      using emit_written "1.prems" by blast
    then show ?thesis
      using "1.IH"(1) [OF 2 u(1) st1(2) "1.prems"(3)] 2 u(2)
      by (subst vsn_loop.simps) simp
  next
    case 3
    then obtain ps p' ap' u where d: "directive (tl p) ap = Some (ps, p', ap')"
      and u: "vformat p' ap' = Some u" "t = concat ps @ u"
      using \<open>vformat p ap = Some t\<close>
      by (subst (asm) vformat.simps) (auto split: option.splits)
    obtain st1 where st1: "emits m ps st = Some st1" "written buf0 m (out @ concat ps) st1"
      using emits_written "1.prems" by blast
    have "\<exists>st'. vsn_loop m p' ap' st1 = Some st' \<and> written buf0 m ((out @ concat ps) @ u) st'"
      using "1.IH"(2) [OF 3(1) _ d refl refl u(1) st1(2) "1.prems"(3)] 3 by simp
    then show ?thesis using 3 d st1 u(2) by (subst vsn_loop.simps) simp
  qed
qed

text \<open>The string that is in the buffer afterwards.\<close>

definition buffer_string :: "string \<Rightarrow> string" where
  "buffer_string buf = takeWhile (\<lambda>c. c \<noteq> NUL) buf"

lemma takeWhile_nul: "cstring s \<Longrightarrow> takeWhile (\<lambda>c. c \<noteq> NUL) (s @ NUL # t) = s"
  by (induction s) auto

lemma snprintf_buffer:
  assumes "vformat fmt ap = Some out" "str_m \<le> length str" "0 < str_m"
  shows "\<exists>str'. portable_vsnprintf str str_m (Some fmt) ap = Some (str', cint (int (length out))) \<and>
           length str' = length str \<and> drop str_m str' = drop str_m str \<and>
           (\<exists>r. str' = take (str_m - 1) out @ NUL # r)"
proof -
  have "written str str_m [] (str, 0)" by (simp add: written_def)
  then obtain buf l where st: "vsn_loop str_m fmt ap (str, 0) = Some (buf, l)"
    "written str str_m out (buf, l)"
    using vsn_loop_written [OF assms(1) _ assms(2)] by (metis append_Nil old.prod.exhaust)
  have w: "l = length out" "length buf = length str" "drop str_m buf = drop str_m str"
    "take (min l str_m) buf = take str_m out"
    using st(2) by (simp_all add: written_def)
  let ?i = "min l (str_m - 1)"
  have "take ?i buf = take ?i (take (min l str_m) buf)" by (simp add: min_def)
  also have "\<dots> = take (str_m - 1) out" using w(1,4) by (auto simp: min_def)
  finally have t: "take ?i buf = take (str_m - 1) out" .
  have i: "?i + 1 \<le> str_m" using assms(3) by simp
  have p: "poke buf ?i [NUL] = Some (take (str_m - 1) out @ NUL # drop (?i + 1) buf)"
    using t i w(2) assms(2) by (subst poke_at) auto
  have "length (take (str_m - 1) out @ NUL # drop (?i + 1) buf) = length str"
    using w i assms(2) by (auto simp: min_def)
  moreover have "drop str_m (take (str_m - 1) out @ NUL # drop (?i + 1) buf) = drop str_m str"
  proof -
    have "drop str_m (take ?i buf @ NUL # drop (?i + 1) buf) = drop str_m buf"
      using i w(2) assms(2) by (simp add: drop_Cons' min_def)
    then show ?thesis by (simp only: t w(3))
  qed
  ultimately show ?thesis
    using st(1) p assms(3) w(1) by (auto simp: portable_vsnprintf_def)
qed

subsection \<open>Numbers\<close>

lemma cint_id [simp]: "- (2 ^ 31) \<le> x \<Longrightarrow> x < 2 ^ 31 \<Longrightarrow> cint x = x"
  by (simp add: cint_def)

lemma of_char_digit [simp]: "d < 10 \<Longrightarrow> (of_char (digit_char u d) :: nat) = 48 + d"
  by (simp add: digit_char_def)

lemma isdigit_digit: "d < 10 \<Longrightarrow> isdigit (digit_char u d)"
  by (simp add: isdigit_def)

lemma num_str_digits: "c \<in> set (num_str 10 u n) \<Longrightarrow> isdigit c"
proof (induction "10 :: nat" u n rule: num_str.induct)
  case (1 u n)
  then show ?case
    by (subst (asm) (2) num_str.simps) (auto simp: isdigit_digit split: if_splits)
qed

lemma num_str_nonempty [simp]: "num_str b u n \<noteq> []"
  by (subst num_str.simps) simp

lemma num_str_length: "n < b ^ Suc k \<Longrightarrow> length (num_str b u n) \<le> Suc k"
proof (induction k arbitrary: n)
  case (Suc k)
  show ?case
  proof (cases "b < 2 \<or> n < b")
    case False
    then have "n div b < b ^ Suc k" using Suc.prems by (simp add: less_mult_imp_div_less mult.commute)
    then show ?thesis using Suc.IH False by (subst num_str.simps) simp
  qed (subst num_str.simps, simp)
qed (subst num_str.simps, simp)

text \<open>Reading the digits back.\<close>

definition digits_val :: "string \<Rightarrow> nat" where
  "digits_val s = foldl (\<lambda>n c. 10 * n + (of_char c - 48)) 0 s"

lemma digits_val_num_str: "digits_val (num_str 10 u n) = n"
proof (induction "10 :: nat" u n rule: num_str.induct)
  case (1 u n)
  then show ?case
    by (subst num_str.simps) (auto simp: digits_val_def)
qed

lemma not_isdigit [simp]:
  "\<not> isdigit CHR ''-''" "\<not> isdigit CHR ''x''" "\<not> isdigit CHR ''X''" "\<not> isdigit CHR ''.''"
  "\<not> isdigit CHR ''d''" "\<not> isdigit CHR ''s''" "\<not> isdigit CHR ''u''" "\<not> isdigit CHR ''l''"
  "\<not> isdigit CHR ''%''" "\<not> isdigit CHR ''c''" "\<not> isdigit NUL" "\<not> isdigit CHR '':''"
  "isdigit CHR ''2''" "isdigit CHR ''0''"
  by (simp_all add: isdigit_def)

lemma num_str_notx:
  "i < length (num_str 10 u n) \<Longrightarrow> isdigit (num_str 10 u n ! i)"
  using num_str_digits nth_mem by blast

lemma insertion_num_str: "insertion_ind (num_str 10 u n) 0 = 0"
  using num_str_notx [of 0 u n] num_str_notx [of 1 u n]
  by (auto simp: insertion_ind_def Let_def)

lemma insertion_int_str:
  "insertion_ind (int_str i) 0 = (if i < 0 then 1 else 0)"
proof (cases "i < 0")
  case True
  let ?s = "num_str 10 False (nat (- i))"
  have "\<not> (1 < length ?s \<and> (?s ! 1 = CHR ''x'' \<or> ?s ! 1 = CHR ''X''))"
    using num_str_notx [of 1 False "nat (- i)"] by auto
  then show ?thesis using True by (auto simp: insertion_ind_def int_str_def Let_def)
qed (simp add: int_str_def insertion_num_str)

lemma int_str_length:
  assumes "- (2 ^ 63) \<le> i" "i < 2 ^ 63"
  shows "length (int_str i) \<le> 20 \<and> (if i < 0 then 1 else 0) < length (int_str i)"
proof -
  have "nat (- i) < 10 ^ Suc 18" "nat i < 10 ^ Suc 18" using assms by auto
  then have "length (num_str 10 False (nat (- i))) \<le> 19" "length (num_str 10 False (nat i)) \<le> 19"
    using num_str_length [of "nat (- i)" 10 18 False] num_str_length [of "nat i" 10 18 False] by simp_all
  then show ?thesis using num_str_nonempty [of 10 False "nat (- i)"] by (auto simp: int_str_def)
qed

subsection \<open>The conversions the program uses\<close>

named_theorems fmt_simps \<open>evaluation of formats\<close>

lemma vformat_Nil [fmt_simps]: "vformat [] ap = Some []"
  by (simp add: vformat.simps)

lemma literal_Cons:
  assumes "c \<noteq> CHR ''%''"
  shows "literal (c # p) =
    (if p = [] \<or> hd p = CHR ''%'' then ([c], p) else (c # fst (literal p), snd (literal p)))"
proof (cases p)
  case (Cons d q)
  have "length r \<le> length q" if "strchr q CHR ''%'' = Some r" for r
    using strchr_Some [OF that] by auto
  then show ?thesis by (auto simp: literal_def Cons Let_def Suc_diff_le split: option.split)
qed (simp add: literal_def Let_def)

lemma vformat_literal [fmt_simps]:
  assumes "c \<noteq> CHR ''%''"
  shows "vformat (c # p) ap = map_option (\<lambda>t. c # t) (vformat p ap)"
proof (cases "p = [] \<or> hd p = CHR ''%''")
  case True
  then show ?thesis using assms
    by (subst vformat.simps) (cases "vformat p ap", simp_all add: literal_Cons)
next
  case False
  then show ?thesis using assms
    by (subst (1 2) vformat.simps)
       (cases "vformat (snd (literal p)) ap", simp_all add: literal_Cons)
qed

lemma vformat_directive:
  "directive p ap = Some (ps, p', ap') \<Longrightarrow>
   vformat (CHR ''%'' # p) ap = map_option (\<lambda>t. concat ps @ t) (vformat p' ap')"
  by (subst vformat.simps) simp

lemmas parse_defs = directive_def parse_width_def parse_precision_def parse_length_def
  fmt_synonym_def spec_init_def

lemma vformat_string [fmt_simps]:
  assumes "length s < 2 ^ 31"
  shows "vformat (CHR ''%'' # CHR ''s'' # p) (ArgStr (Some s) # ap) =
         map_option (\<lambda>t. s @ t) (vformat p ap)"
proof -
  have "directive (CHR ''s'' # p) (ArgStr (Some s) # ap) = Some ([[], [], [], s, []], p, ap)"
    using assms by (simp add: parse_defs conv_string_def str_arg_len_def pieces_def pad_len_def)
  from vformat_directive [OF this] show ?thesis by simp
qed

lemma vformat_percent [fmt_simps]:
  "vformat (CHR ''%'' # CHR ''%'' # p) ap = map_option (\<lambda>t. CHR ''%'' # t) (vformat p ap)"
proof -
  have "directive (CHR ''%'' # p) ap = Some ([[], [], [], ''%'', []], p, ap)"
    by (simp add: parse_defs conv_string_def pieces_def pad_len_def)
  from vformat_directive [OF this] show ?thesis by simp
qed

text \<open>A numeric conversion without width, precision and flags.\<close>

lemma plain_number_pieces:
  assumes "length t \<le> 31" "ind < length t"
    and "s = spec_init\<lparr>precision := 1, length_modifier := lm\<rparr>"
  shows "concat (pieces \<lparr>cspec = s, ctext = t, czeros = num_zeros s t ind, cins = ind\<rparr>) = t"
proof -
  have "num_zeros s t ind = 0" using assms by (simp add: num_zeros_def spec_init_def Let_def)
  then show ?thesis using assms by (simp add: pieces_def pad_len_def spec_init_def Let_def)
qed

lemma plain_number:
  assumes "number_arg (spec_init\<lparr>length_modifier := lm\<rparr>) c ap = Some (sg, t, ap')"
    and "insertion_ind t 0 < length t" "length t \<le> 31" "c \<in> set ''dux''"
  shows "\<exists>k. conv_number (spec_init\<lparr>length_modifier := lm\<rparr>) c ap = Some (k, ap') \<and> concat (pieces k) = t"
  using assms plain_number_pieces [OF assms(3) assms(2) refl, of lm]
  by (simp add: conv_number_def num_text_def number_prefix_def num_precision_def spec_init_def Let_def)

lemma directive_plain:
  assumes "c \<in> set ''dux''"
    and "conv_number spec_init c ap = Some (k, ap')"
  shows "directive (c # p) ap = Some (pieces k, p, ap')"
proof -
  consider "c = CHR ''d''" | "c = CHR ''u''" | "c = CHR ''x''" using assms(1) by auto
  then show ?thesis by cases (use assms(2) in \<open>simp_all add: parse_defs\<close>)
qed

lemma directive_plain_long:
  assumes "c \<in> set ''dux''"
    and "conv_number (spec_init\<lparr>length_modifier := CHR ''l''\<rparr>) c ap = Some (k, ap')"
  shows "directive (CHR ''l'' # c # p) ap = Some (pieces k, p, ap')"
proof -
  consider "c = CHR ''d''" | "c = CHR ''u''" | "c = CHR ''x''" using assms(1) by auto
  then show ?thesis by cases (use assms(2) in \<open>simp_all add: parse_defs\<close>)
qed

lemma sint32_bounds: "- (2 ^ 31) \<le> sint (w :: uint)" "sint (w :: uint) < 2 ^ 31"
  using sint_range_size [of w] by (auto simp: word_size)

lemma vformat_int [fmt_simps]:
  "vformat (CHR ''%'' # CHR ''d'' # p) (ArgInt w # ap) =
   map_option (\<lambda>t. int_str (sint w) @ t) (vformat p ap)"
proof -
  have "length (int_str (sint w)) \<le> 31" "insertion_ind (int_str (sint w)) 0 < length (int_str (sint w))"
    using int_str_length [of "sint w"] sint32_bounds [of w] by (auto simp: insertion_int_str)
  moreover have "number_arg (spec_init\<lparr>length_modifier := NUL\<rparr>) CHR ''d'' (ArgInt w # ap) =
      Some (sgn (sint w), int_str (sint w), ap)"
    by (simp add: number_arg_def)
  moreover have "spec_init\<lparr>length_modifier := NUL\<rparr> = spec_init" by (simp add: spec_init_def)
  ultimately obtain k where "conv_number spec_init CHR ''d'' (ArgInt w # ap) = Some (k, ap)"
    "concat (pieces k) = int_str (sint w)"
    using plain_number [of NUL "CHR ''d''" "ArgInt w # ap"] by force
  then show ?thesis using vformat_directive [OF directive_plain] by simp
qed

lemma num_str_fits: "n < 2 ^ 64 \<Longrightarrow> length (num_str 10 u n) \<le> 20 \<and> 0 < length (num_str 10 u n)"
  using num_str_length [of n 10 19 u] by simp

lemma uint32_nat: "unat (w :: uint) < 2 ^ 32"
  using unsigned_less [of w, where ?'a = nat] by simp

lemma uint64_nat: "unat (w :: ulong) < 2 ^ 64"
  using unsigned_less [of w, where ?'a = nat] by simp

lemma vformat_unsigned [fmt_simps]:
  "vformat (CHR ''%'' # CHR ''u'' # p) (ArgInt w # ap) =
   map_option (\<lambda>t. num_str 10 False (unat w) @ t) (vformat p ap)"
proof -
  have "length (num_str 10 False (unat w)) \<le> 31" "insertion_ind (num_str 10 False (unat w)) 0 < length (num_str 10 False (unat w))"
    using num_str_fits [of "unat w" False] uint32_nat [of w] by (auto simp: insertion_num_str)
  moreover have "number_arg (spec_init\<lparr>length_modifier := NUL\<rparr>) CHR ''u'' (ArgInt w # ap) =
      Some (sgn (uint w), num_str 10 False (unat w), ap)"
    by (simp add: number_arg_def unsigned_str_def)
  moreover have "spec_init\<lparr>length_modifier := NUL\<rparr> = spec_init" by (simp add: spec_init_def)
  ultimately obtain k where "conv_number spec_init CHR ''u'' (ArgInt w # ap) = Some (k, ap)"
    "concat (pieces k) = num_str 10 False (unat w)"
    using plain_number [of NUL "CHR ''u''" "ArgInt w # ap"] by force
  then show ?thesis using vformat_directive [OF directive_plain] by simp
qed

lemma vformat_long [fmt_simps]:
  "vformat (CHR ''%'' # CHR ''l'' # CHR ''u'' # p) (ArgLong w # ap) =
   map_option (\<lambda>t. num_str 10 False (unat w) @ t) (vformat p ap)"
proof -
  have "length (num_str 10 False (unat w)) \<le> 31" "insertion_ind (num_str 10 False (unat w)) 0 < length (num_str 10 False (unat w))"
    using num_str_fits [of "unat w" False] uint64_nat [of w] by (auto simp: insertion_num_str)
  moreover have "number_arg (spec_init\<lparr>length_modifier := CHR ''l''\<rparr>) CHR ''u'' (ArgLong w # ap) =
      Some (sgn (uint w), num_str 10 False (unat w), ap)"
    by (simp add: number_arg_def unsigned_str_def)
  ultimately obtain k where "conv_number (spec_init\<lparr>length_modifier := CHR ''l''\<rparr>) CHR ''u'' (ArgLong w # ap) = Some (k, ap)"
    "concat (pieces k) = num_str 10 False (unat w)"
    using plain_number [of "CHR ''l''" "CHR ''u''" "ArgLong w # ap"] by force
  then show ?thesis using vformat_directive [OF directive_plain_long] by simp
qed

text \<open>\<open>%02d\<close> of a number that is not negative: at least two digits.\<close>

definition two_digits :: "nat \<Rightarrow> string" where
  "two_digits n = (if n < 10 then CHR ''0'' # num_str 10 False n else num_str 10 False n)"

lemma num_str_small: "n < 10 \<Longrightarrow> num_str 10 u n = [digit_char u n]"
  by (subst num_str.simps) simp

lemma num_str_large: "10 \<le> n \<Longrightarrow> 2 \<le> length (num_str 10 u n)"
  using num_str_nonempty [of 10 u "n div 10"]
  by (subst num_str.simps) (simp add: Suc_le_eq)

lemma two_digits_pieces:
  fixes n defines "t \<equiv> num_str 10 False n"
  assumes "n < 2 ^ 31" "s = spec_init\<lparr>zero_padding := True, min_field_width := 2, precision := 1\<rparr>"
  shows "concat (pieces \<lparr>cspec = s, ctext = t, czeros = num_zeros s t 0, cins = 0\<rparr>) = two_digits n"
proof -
  have len: "length t \<le> 20" "0 < length t" using num_str_fits [of n False] assms by auto
  have z: "num_zeros s t 0 = (if n < 10 then 1 else 0)"
    using len num_str_large [of n False] num_str_small [of n False] assms(3)
    by (auto simp: num_zeros_def spec_init_def t_def)
  have "cint (2 - int (length t)) \<le> 0" if "\<not> n < 10"
    using len num_str_large [of n False] that by (simp add: t_def)
  then show ?thesis using len z assms(3) num_str_small [of n False]
    by (auto simp: pieces_def pad_len_def spec_init_def t_def two_digits_def)
qed

lemma vformat_02d [fmt_simps]:
  assumes "0 \<le> sint w"
  shows "vformat (CHR ''%'' # CHR ''0'' # CHR ''2'' # CHR ''d'' # p) (ArgInt w # ap) =
         map_option (\<lambda>t. two_digits (nat (sint w)) @ t) (vformat p ap)"
proof -
  let ?s = "spec_init\<lparr>zero_padding := True, min_field_width := 2\<rparr>"
  have b: "nat (sint w) < 2 ^ 31" using sint32_bounds [of w] by simp
  have i: "int_str (sint w) = num_str 10 False (nat (sint w))" using assms by (simp add: int_str_def)
  have "length (num_str 10 False (nat (sint w))) \<le> 20" using num_str_fits [of "nat (sint w)"] b by simp
  then obtain k where k: "conv_number ?s CHR ''d'' (ArgInt w # ap) = Some (k, ap)"
    "concat (pieces k) = two_digits (nat (sint w))"
    using two_digits_pieces [OF b refl]
    by (simp add: conv_number_def number_arg_def num_text_def number_prefix_def num_precision_def
        spec_init_def Let_def i insertion_num_str)
  have "directive (CHR ''0'' # CHR ''2'' # CHR ''d'' # p) (ArgInt w # ap) = Some (pieces k, p, ap)"
    using k(1) by (simp add: parse_defs numeral_2_eq_2 [symmetric])
  from vformat_directive [OF this] k(2) show ?thesis by simp
qed

text \<open>There is no conversion for floating point numbers: only the letter is printed.\<close>

lemma vformat_float [fmt_simps]:
  "vformat (CHR ''%'' # CHR ''.'' # CHR ''2'' # CHR ''f'' # p) ap =
   map_option (\<lambda>t. CHR ''f'' # t) (vformat p ap)"
proof -
  have "directive (CHR ''.'' # CHR ''2'' # CHR ''f'' # p) ap = Some ([[], [], [], ''f'', []], p, ap)"
    by (simp add: parse_defs conv_default_def pieces_def pad_len_def Let_def isdigit_def)
  from vformat_directive [OF this] show ?thesis by simp
qed

section \<open>Properties\<close>

text \<open>C28: \<open>portable_vsnprintf\<close> never writes outside the \<open>str_m\<close> bytes it was given: the buffer
  then holds the longest prefix of the formatted text that leaves room for the terminating
  NUL, followed by that NUL; the bytes behind are untouched; the returned value is the length
  of the whole text.\<close>

theorem vsnprintf_truncates:
  assumes "vformat fmt ap = Some out" "cstring out" "str_m \<le> length str" "0 < str_m"
  shows "\<exists>str'. portable_vsnprintf str str_m (Some fmt) ap = Some (str', cint (int (length out))) \<and>
           length str' = length str \<and> drop str_m str' = drop str_m str \<and>
           buffer_string str' = take (str_m - 1) out"
proof -
  obtain str' r where "portable_vsnprintf str str_m (Some fmt) ap = Some (str', cint (int (length out)))"
    "length str' = length str" "drop str_m str' = drop str_m str" "str' = take (str_m - 1) out @ NUL # r"
    using snprintf_buffer [OF assms(1,3,4)] by blast
  moreover have "cstring (take (str_m - 1) out)" using assms(2) by simp
  ultimately show ?thesis by (auto simp: buffer_string_def takeWhile_nul)
qed

theorem vsnprintf_truncates_witness:
  "\<exists>str'. portable_vsnprintf (replicate 12 CHR ''.'') 8 (Some ''NICK %s'') [ArgStr (Some ''scanner'')]
            = Some (str', cint (int (length ''NICK scanner''))) \<and>
          length str' = length (replicate 12 CHR ''.'') \<and>
          drop 8 str' = drop 8 (replicate 12 CHR ''.'') \<and>
          buffer_string str' = take (8 - 1) ''NICK scanner''"
  by (rule vsnprintf_truncates) (simp_all add: fmt_simps)

end
