(* ===== verification/Match.thy ===== *)
theory Match
  imports Prelude
begin

text \<open>
  The wildcard matcher of match.c, which decides whether a host is exempt from scanning:
  \<open>match\<close> (an iterative matcher with one backtracking point and a limit on the number of
  iterations) and \<open>collapse\<close>.  The pointers \<open>m\<close>, \<open>ma\<close> and \<open>n\<close>, \<open>na\<close> are indices into the
  mask and the name; reading outside a string or moving a pointer before its start is
  \<open>None\<close>.  The reference definition is the recursive \<open>glob\<close>.
\<close>

section \<open>The matcher\<close>

definition ToLowerTab :: "nat list" where
  "ToLowerTab = [0..<65] @ [97..<123] @ [91..<256]"

definition ToLower :: "char \<Rightarrow> nat" where
  "ToLower c = ToLowerTab ! of_char c"

definition MATCH_MAX_CALLS :: nat where
  "MATCH_MAX_CALLS = 512"

text \<open>The byte at an index, the terminating NUL included.\<close>

definition byte_at :: "string \<Rightarrow> nat \<Rightarrow> char option" where
  "byte_at s i = (if i < length s then Some (s ! i) else if i = length s then Some NUL else None)"

text \<open>\<open>while (*m == '*') m++\<close>\<close>

function skip_stars :: "string \<Rightarrow> nat \<Rightarrow> nat" where
  "skip_stars msk m = (if byte_at msk m = Some CHR ''*'' then skip_stars msk (Suc m) else m)"
  by pat_completeness auto
termination
  by (relation "measure (\<lambda>(msk, m). length msk - m)") (auto simp: byte_at_def split: if_splits)

declare skip_stars.simps [simp del]

text \<open>\<open>for (m--; (m > mask) && (*m == '?'); m--)\<close>: the index where the loop stops, from
  the index before the first decrement.\<close>

fun scan_back :: "string \<Rightarrow> nat \<Rightarrow> nat option" where
  "scan_back msk 0 = None"
| "scan_back msk (Suc m) =
     (if m > 0 then do {
        c \<leftarrow> byte_at msk m;
        if c = CHR ''?'' then scan_back msk m else Some m }
      else Some m)"

record match_state =
  mp :: nat
  np :: nat
  ma :: nat
  na :: nat
  wild :: bool

text \<open>One iteration of the loop either returns from the function or goes on.\<close>

datatype outcome = Return bool | Continue match_state

text \<open>The last \<open>if\<close> of the body.\<close>

definition match_compare :: "string \<Rightarrow> string \<Rightarrow> match_state \<Rightarrow> outcome option" where
  "match_compare msk name s = do {
     cm \<leftarrow> byte_at msk (mp s);
     cn \<leftarrow> byte_at name (np s);
     Some (if ToLower cm \<noteq> ToLower cn \<and> cm \<noteq> CHR ''?'' then
             if \<not> wild s then Return False
             else Continue (s\<lparr>mp := ma s, np := Suc (na s), na := Suc (na s)\<rparr>)
           else
             Continue (s\<lparr>mp := (if cm \<noteq> NUL then Suc (mp s) else mp s),
                         np := (if cn \<noteq> NUL then Suc (np s) else np s)\<rparr>)) }"

text \<open>The first \<open>if\<close> of the body, at a star.\<close>

definition after_star :: "string \<Rightarrow> match_state \<Rightarrow> match_state" where
  "after_star msk s = s\<lparr>mp := skip_stars msk (mp s), wild := True,
                        ma := skip_stars msk (mp s), na := np s\<rparr>"

text \<open>The end of the mask is reached, the end of the name is not.\<close>

definition match_mask_end :: "string \<Rightarrow> string \<Rightarrow> match_state \<Rightarrow> outcome option" where
  "match_mask_end msk name s = do {
     b \<leftarrow> scan_back msk (mp s);
     cb \<leftarrow> byte_at msk b;
     if cb = CHR ''*'' \<and> b > 0 then Some (Return True)
     else if \<not> wild s then Some (Return False)
     else match_compare msk name (s\<lparr>mp := ma s, np := Suc (na s), na := Suc (na s)\<rparr>) }"

definition match_body :: "string \<Rightarrow> string \<Rightarrow> match_state \<Rightarrow> outcome option" where
  "match_body msk name s = do {
     cm \<leftarrow> byte_at msk (mp s);
     cn \<leftarrow> byte_at name (np s);
     if cm = NUL then
       if cn = NUL then Some (Return True) else match_mask_end msk name s
     else if cn = NUL then do {
       c' \<leftarrow> byte_at msk (skip_stars msk (mp s));
       Some (Return (c' = NUL)) }
     else match_compare msk name s }"

definition match_step :: "string \<Rightarrow> string \<Rightarrow> match_state \<Rightarrow> outcome option" where
  "match_step msk name s = do {
     c \<leftarrow> byte_at msk (mp s);
     match_body msk name (if c = CHR ''*'' then after_star msk s else s) }"

text \<open>The loop, with the number of iterations that are left.\<close>

fun match_loop :: "nat \<Rightarrow> string \<Rightarrow> string \<Rightarrow> match_state \<Rightarrow> bool option" where
  "match_loop 0 msk name s = Some False"
| "match_loop (Suc k) msk name s = do {
     r \<leftarrow> match_step msk name s;
     (case r of Return b \<Rightarrow> Some b | Continue s' \<Rightarrow> match_loop k msk name s') }"

definition match_init :: match_state where
  "match_init = \<lparr>mp = 0, np = 0, ma = 0, na = 0, wild = False\<rparr>"

definition match :: "string \<Rightarrow> string \<Rightarrow> bool option" where
  "match msk name = match_loop MATCH_MAX_CALLS msk name match_init"

section \<open>Collapsing runs of stars\<close>

text \<open>
  \<open>collapse\<close> works in place: at a star, \<open>s1\<close> is the position after it and \<open>t\<close> the first
  later position that is not a star; the tail at \<open>t\<close> is copied down to \<open>s1\<close>.
\<close>

lemma skip_stars_ge: "m \<le> skip_stars msk m"
proof (induction msk m rule: skip_stars.induct)
  case (1 msk m)
  then show ?case by (subst skip_stars.simps) fastforce
qed

function collapse_loop :: "nat \<Rightarrow> string \<Rightarrow> string" where
  "collapse_loop s p =
     (if s < length p then
        if p ! s = CHR ''*''
        then collapse_loop (Suc s) (take (Suc s) p @ drop (skip_stars p (Suc s)) p)
        else collapse_loop (Suc s) p
      else p)"
  by pat_completeness auto
termination
  by (relation "measure (\<lambda>(s, p). length p - s)")
     (auto intro!: diff_less_mono2 less_le_trans [OF _ skip_stars_ge])

declare collapse_loop.simps [simp del]

definition collapse :: "string option \<Rightarrow> string option" where
  "collapse pattern = (case pattern of None \<Rightarrow> None | Some p \<Rightarrow> Some (collapse_loop 0 p))"

section \<open>The reference definition\<close>

text \<open>\<open>*\<close> matches any characters, \<open>?\<close> any single one, everything else itself up to case.\<close>

fun glob :: "string \<Rightarrow> string \<Rightarrow> bool" where
  "glob [] n = (n = [])"
| "glob (c # p) n =
     (if c = CHR ''*'' then glob p n \<or> (case n of [] \<Rightarrow> False | d # n' \<Rightarrow> glob (c # p) n')
      else (case n of [] \<Rightarrow> False
            | d # n' \<Rightarrow> (c = CHR ''?'' \<or> tolower c = tolower d) \<and> glob p n'))"


section \<open>Lemmas\<close>

lemma of_char_less: "(of_char c :: nat) < 256"
  by (metis of_char_mod_256 mod_less_divisor zero_less_numeral)

lemma ToLower_tolower: "ToLower c = of_char (tolower c)"
proof -
  consider "(of_char c :: nat) < 65" | "65 \<le> (of_char c :: nat)" "(of_char c :: nat) < 91"
    | "91 \<le> (of_char c :: nat)" by linarith
  then show ?thesis
    using of_char_less [of c]
    by cases (auto simp: ToLower_def ToLowerTab_def tolower_def nth_append
        simp del: upt_rec_numeral)
qed

lemma ToLower_eq [simp]: "ToLower c = ToLower d \<longleftrightarrow> tolower c = tolower d"
  by (simp add: ToLower_tolower)

lemma tolower_NUL [simp]: "tolower NUL = NUL"
  by (simp add: tolower_def)

lemma tolower_eq_NUL [simp]: "tolower c = NUL \<longleftrightarrow> c = NUL"
proof
  assume "tolower c = NUL"
  then have "(of_char (tolower c) :: nat) = 0" by simp
  then have "(of_char c :: nat) = 0"
    using of_char_less [of c] by (auto simp: tolower_def split: if_splits)
  then have "of_char c = (of_char NUL :: nat)" by simp
  then show "c = NUL" by (simp only: of_char_eq_iff)
qed simp

lemma byte_at_len [simp]: "byte_at s (length s) = Some NUL"
  by (simp add: byte_at_def)

lemma byte_at_le: "i \<le> length s \<Longrightarrow> \<exists>c. byte_at s i = Some c"
  by (simp add: byte_at_def)

lemma byte_at_less [simp]: "i < length s \<Longrightarrow> byte_at s i = Some (s ! i)"
  by (simp add: byte_at_def)

lemma byte_at_NUL: "cstring s \<Longrightarrow> byte_at s i = Some NUL \<longleftrightarrow> i = length s"
  by (auto simp: byte_at_def cstring_def in_set_conv_nth)

lemma drop_skip_stars: "drop (skip_stars s i) s = dropWhile (\<lambda>c. c = CHR ''*'') (drop i s)"
proof (induction s i rule: skip_stars.induct)
  case (1 s i)
  show ?case
  proof (cases "i < length s \<and> s ! i = CHR ''*''")
    case True
    then have d: "drop i s = CHR ''*'' # drop (Suc i) s" by (metis Cons_nth_drop_Suc)
    have "drop (skip_stars s (Suc i)) s = dropWhile (\<lambda>c. c = CHR ''*'') (drop (Suc i) s)"
      using True by (intro 1) simp
    moreover have "skip_stars s i = skip_stars s (Suc i)"
      using True by (subst skip_stars.simps) simp
    ultimately show ?thesis by (simp add: d)
  next
    case False
    then have "skip_stars s i = i" by (subst skip_stars.simps) (auto simp: byte_at_def)
    moreover have "dropWhile (\<lambda>c. c = CHR ''*'') (drop i s) = drop i s"
    proof (cases "i < length s")
      case True
      then have "drop i s = s ! i # drop (Suc i) s" by (metis Cons_nth_drop_Suc)
      then show ?thesis using False True by simp
    qed simp
    ultimately show ?thesis by simp
  qed
qed

lemma skip_stars_le: "i \<le> length s \<Longrightarrow> skip_stars s i \<le> length s"
proof (induction s i rule: skip_stars.induct)
  case (1 s i)
  then show ?case by (subst skip_stars.simps) (auto simp: byte_at_def split: if_splits)
qed

lemma skip_stars_byte: "byte_at s (skip_stars s i) \<noteq> Some CHR ''*''"
proof (induction s i rule: skip_stars.induct)
  case (1 s i)
  then show ?case by (subst skip_stars.simps) simp
qed

lemma skip_stars_fix: "byte_at s i \<noteq> Some CHR ''*'' \<Longrightarrow> skip_stars s i = i"
  by (subst skip_stars.simps) simp

lemma skip_stars_prev:
  "byte_at s i = Some CHR ''*'' \<Longrightarrow> i < skip_stars s i \<and> s ! (skip_stars s i - 1) = CHR ''*''"
proof (induction s i rule: skip_stars.induct)
  case (1 s i)
  have i: "i < length s" "s ! i = CHR ''*''"
    using "1.prems" by (auto simp: byte_at_def split: if_splits)
  show ?case
  proof (cases "byte_at s (Suc i) = Some CHR ''*''")
    case True
    then have "Suc i < skip_stars s (Suc i) \<and> s ! (skip_stars s (Suc i) - 1) = CHR ''*''"
      using 1 by blast
    then show ?thesis using "1.prems" by (subst (1 2) skip_stars.simps) simp
  next
    case False
    then show ?thesis using "1.prems" i
      by (subst (1 2) skip_stars.simps) (simp add: skip_stars_fix)
  qed
qed

subsection \<open>The reference definition\<close>

lemma glob_star: "glob (CHR ''*'' # p) n \<longleftrightarrow> (\<exists>k\<le>length n. glob p (drop k n))"
proof (induction n)
  case (Cons d n)
  have "(\<exists>k\<le>length (d # n). glob p (drop k (d # n))) \<longleftrightarrow>
        glob p (d # n) \<or> (\<exists>k\<le>length n. glob p (drop k n))"
    by (metis Suc_le_mono drop0 drop_Suc_Cons le0 length_Cons not0_implies_Suc)
  then show ?case using Cons by simp
qed simp

lemma glob_star_star: "glob (CHR ''*'' # CHR ''*'' # p) n = glob (CHR ''*'' # p) n"
proof
  assume "glob (CHR ''*'' # CHR ''*'' # p) n"
  then obtain k j where "k \<le> length n" "j \<le> length (drop k n)" "glob p (drop j (drop k n))"
    by (auto simp only: glob_star)
  then show "glob (CHR ''*'' # p) n" unfolding glob_star by (auto intro!: exI [of _ "j + k"])
next
  assume "glob (CHR ''*'' # p) n"
  then show "glob (CHR ''*'' # CHR ''*'' # p) n" by simp
qed

lemma glob_stars: "glob (CHR ''*'' # dropWhile (\<lambda>c. c = CHR ''*'') p) n = glob (CHR ''*'' # p) n"
proof (induction p)
  case (Cons c p)
  then show ?case using glob_star_star [of p n] by (cases "c = CHR ''*''") auto
qed simp

lemma glob_star_mono:
  assumes "glob (CHR ''*'' # p) (drop j n)" "i \<le> j" shows "glob (CHR ''*'' # p) (drop i n)"
proof -
  obtain k where k: "k \<le> length n - j" "glob p (drop (k + j) n)"
    using assms(1) by (auto simp only: glob_star drop_drop length_drop)
  have "glob p (drop (k + j - i) (drop i n))" using k assms(2) by simp
  moreover have "k + j - i \<le> length (drop i n) \<or> drop (k + j - i) (drop i n) = drop (length (drop i n)) (drop i n)"
    by (metis drop_all linorder_linear)
  ultimately show ?thesis unfolding glob_star by auto
qed

text \<open>A part of a mask without stars, matched literally.\<close>

definition lit :: "string \<Rightarrow> string \<Rightarrow> bool" where
  "lit = list_all2 (\<lambda>c d. c \<noteq> CHR ''*'' \<and> (c = CHR ''?'' \<or> tolower c = tolower d))"

lemma lit_length: "lit p q \<Longrightarrow> length p = length q"
  by (simp add: lit_def list_all2_lengthD)

lemma lit_Nil [simp]: "lit [] []"
  by (simp add: lit_def)

lemma lit_snoc:
  "lit p q \<Longrightarrow> c \<noteq> CHR ''*'' \<Longrightarrow> c = CHR ''?'' \<or> tolower c = tolower d \<Longrightarrow>
   lit (p @ [c]) (q @ [d])"
  unfolding lit_def by (rule list_all2_appendI) simp_all

lemma lit_no_star: "lit p q \<Longrightarrow> CHR ''*'' \<notin> set p"
  unfolding lit_def by (induction rule: list_all2_induct) auto

lemma glob_lit: "lit p q \<Longrightarrow> glob (p @ p') (q @ q') = glob p' q'"
  unfolding lit_def by (induction rule: list_all2_induct) auto

lemma glob_no_star:
  "CHR ''*'' \<notin> set p \<Longrightarrow>
   glob (p @ p') n \<longleftrightarrow>
     length p \<le> length n \<and> lit p (take (length p) n) \<and> glob p' (drop (length p) n)"
proof (induction p arbitrary: n)
  case (Cons c p)
  then show ?case by (cases n) (auto simp: lit_def)
qed (simp add: lit_def)


subsection \<open>The invariant of the loop\<close>

text \<open>
  The part of the mask between \<open>ma\<close> and \<open>m\<close> matches the part of the name between \<open>na\<close>
  and \<open>n\<close> literally; after a star, the whole question is whether the mask from that
  star on matches the name from \<open>na\<close> on.
\<close>

definition match_seg :: "string \<Rightarrow> string \<Rightarrow> match_state \<Rightarrow> bool" where
  "match_seg msk name s \<longleftrightarrow>
     mp s \<le> length msk \<and> np s \<le> length name \<and> ma s \<le> mp s \<and> na s \<le> np s \<and>
     mp s - ma s = np s - na s \<and>
     lit (take (mp s - ma s) (drop (ma s) msk)) (take (np s - na s) (drop (na s) name))"

definition match_inv :: "string \<Rightarrow> string \<Rightarrow> match_state \<Rightarrow> bool" where
  "match_inv msk name s \<longleftrightarrow>
     match_seg msk name s \<and>
     (if wild s then 0 < ma s \<and> msk ! (ma s - Suc 0) = CHR ''*'' \<and>
        glob msk name = glob (CHR ''*'' # drop (ma s) msk) (drop (na s) name)
      else ma s = 0 \<and> na s = 0)"

definition match_measure :: "string \<Rightarrow> string \<Rightarrow> match_state \<Rightarrow> nat" where
  "match_measure msk name s =
     (length name - na s) * (length msk + 1) + (length msk - mp s)"

lemma take_drop_split:
  "i \<le> j \<Longrightarrow> drop i s = take (j - i) (drop i s) @ drop j s"
  by (metis append_take_drop_id drop_drop le_add_diff_inverse2)

lemma take_drop_extend:
  assumes "i \<le> j" "j < length s"
  shows "take (Suc j - i) (drop i s) = take (j - i) (drop i s) @ [s ! j]"
  using assms by (simp add: Suc_diff_le take_Suc_conv_app_nth)

lemma seg_glob:
  assumes "match_seg msk name s"
  shows "glob (drop (ma s) msk) (drop (na s) name) = glob (drop (mp s) msk) (drop (np s) name)"
proof -
  have "glob (take (mp s - ma s) (drop (ma s) msk) @ drop (mp s) msk)
             (take (np s - na s) (drop (na s) name) @ drop (np s) name)
        = glob (drop (mp s) msk) (drop (np s) name)"
    using assms unfolding match_seg_def by (intro glob_lit) blast
  then show ?thesis
    using assms take_drop_split [of "ma s" "mp s" msk] take_drop_split [of "na s" "np s" name]
    by (simp add: match_seg_def)
qed

text \<open>Where the rest cannot match at \<open>na\<close>, the star takes one more character.\<close>

lemma glob_star_fail:
  assumes "\<not> glob p (drop i n)" "i < length n"
  shows "glob (CHR ''*'' # p) (drop i n) = glob (CHR ''*'' # p) (drop (Suc i) n)"
proof -
  have "drop i n = n ! i # drop (Suc i) n" using assms(2) by (simp add: Cons_nth_drop_Suc)
  then show ?thesis using assms(1) by simp
qed

lemma match_inv_glob:
  assumes "match_inv msk name s"
  shows "glob msk name =
    (if wild s then glob (CHR ''*'' # drop (ma s) msk) (drop (na s) name)
     else glob (drop (mp s) msk) (drop (np s) name))"
  using assms seg_glob [of msk name s] by (auto simp: match_inv_def)

lemma match_inv_retry:
  assumes inv: "match_inv msk name s" and w: "wild s" and na: "na s < length name"
    and fail: "\<not> glob (drop (mp s) msk) (drop (np s) name)"
  shows "match_inv msk name (s\<lparr>mp := ma s, np := Suc (na s), na := Suc (na s)\<rparr>)"
    and "match_measure msk name (s\<lparr>mp := ma s, np := Suc (na s), na := Suc (na s)\<rparr>)
         < match_measure msk name s"
proof -
  have "\<not> glob (drop (ma s) msk) (drop (na s) name)"
    using fail inv seg_glob [of msk name s] by (simp add: match_inv_def)
  from glob_star_fail [OF this na] inv w na
  show "match_inv msk name (s\<lparr>mp := ma s, np := Suc (na s), na := Suc (na s)\<rparr>)"
    by (simp add: match_inv_def match_seg_def)
  obtain d where d: "length name - na s = Suc d" using na by (metis Suc_diff_Suc)
  have "length msk - ma s < (length msk + 1) + (length msk - mp s)" by simp
  then show "match_measure msk name (s\<lparr>mp := ma s, np := Suc (na s), na := Suc (na s)\<rparr>)
         < match_measure msk name s"
    using d by (simp add: match_measure_def diff_Suc)
qed

lemma seg_advance:
  assumes "match_seg msk name s" "mp s < length msk" "np s < length name"
    and "msk ! mp s \<noteq> CHR ''*''"
    and "msk ! mp s = CHR ''?'' \<or> tolower (msk ! mp s) = tolower (name ! np s)"
  shows "match_seg msk name (s\<lparr>mp := Suc (mp s), np := Suc (np s)\<rparr>)"
proof -
  have le: "ma s \<le> mp s" "na s \<le> np s" using assms(1) by (simp_all add: match_seg_def)
  have "lit (take (mp s - ma s) (drop (ma s) msk)) (take (np s - na s) (drop (na s) name))"
    using assms(1) unfolding match_seg_def by blast
  from lit_snoc [OF this assms(4,5)]
  have "lit (take (Suc (mp s) - ma s) (drop (ma s) msk)) (take (Suc (np s) - na s) (drop (na s) name))"
    using assms(2,3) le by (simp only: take_drop_extend)
  then show ?thesis using assms(1-3) by (simp add: match_seg_def Suc_diff_le)
qed

text \<open>What one run of the loop body does to the invariant and to the measure.\<close>

definition good_outcome ::
  "string \<Rightarrow> string \<Rightarrow> match_state \<Rightarrow> outcome option \<Rightarrow> bool" where
  "good_outcome msk name s r \<longleftrightarrow>
     (case r of None \<Rightarrow> False
      | Some (Return b) \<Rightarrow> b = glob msk name
      | Some (Continue s') \<Rightarrow>
          match_inv msk name s' \<and> match_measure msk name s' < match_measure msk name s)"

lemma glob_first_mismatch:
  "c \<noteq> CHR ''*'' \<Longrightarrow> c \<noteq> CHR ''?'' \<Longrightarrow> tolower c \<noteq> tolower d \<Longrightarrow> \<not> glob (c # p) (d # n)"
  by simp

lemma compare_good:
  assumes inv: "match_inv msk name s"
    and m: "mp s < length msk" "msk ! mp s \<noteq> CHR ''*''" "msk ! mp s \<noteq> NUL"
    and n: "np s < length name" "name ! np s \<noteq> NUL"
  shows "good_outcome msk name s (match_compare msk name s)"
proof (cases "msk ! mp s = CHR ''?'' \<or> tolower (msk ! mp s) = tolower (name ! np s)")
  case True
  have "match_inv msk name (s\<lparr>mp := Suc (mp s), np := Suc (np s)\<rparr>)"
    using inv seg_advance [of msk name s] m n True by (simp add: match_inv_def)
  moreover have "match_measure msk name (s\<lparr>mp := Suc (mp s), np := Suc (np s)\<rparr>)
      < match_measure msk name s"
    using m by (simp add: match_measure_def)
  ultimately show ?thesis
    using True m n by (auto simp: match_compare_def good_outcome_def)
next
  case False
  have fail: "\<not> glob (drop (mp s) msk) (drop (np s) name)"
    using False m n
    by (metis Cons_nth_drop_Suc glob_first_mismatch)
  show ?thesis
  proof (cases "wild s")
    case True
    have "na s < length name" using inv n by (simp add: match_inv_def match_seg_def)
    from match_inv_retry [OF inv True this fail] show ?thesis
      using False m n True by (simp add: match_compare_def good_outcome_def)
  next
    case w: False
    then show ?thesis
      using False m n fail match_inv_glob [OF inv]
      by (simp add: match_compare_def good_outcome_def)
  qed
qed


lemma glob_star_shift:
  assumes "lit p q"
  shows "glob (CHR ''*'' # p @ CHR ''*'' # r) (q @ n) = glob (CHR ''*'' # r) n"
proof
  assume "glob (CHR ''*'' # p @ CHR ''*'' # r) (q @ n)"
  then obtain k where k: "glob (p @ CHR ''*'' # r) (drop k (q @ n))" by (auto simp only: glob_star)
  have "glob (CHR ''*'' # r) (drop (length p) (drop k (q @ n)))"
    using k glob_no_star [OF lit_no_star [OF assms]] by blast
  moreover have "drop (length p) (drop k (q @ n)) = drop k n"
    using lit_length [OF assms] by (metis add.commute append_eq_conv_conj drop_drop)
  ultimately have "glob (CHR ''*'' # r) (drop k n)" by metis
  then show "glob (CHR ''*'' # r) n" using glob_star_mono [of r k n 0] by simp
next
  assume "glob (CHR ''*'' # r) n"
  then have "glob (p @ CHR ''*'' # r) (q @ n)" using glob_lit [OF assms] by blast
  then show "glob (CHR ''*'' # p @ CHR ''*'' # r) (q @ n)" by simp
qed

lemma seg_parts:
  assumes "match_seg msk name s"
  obtains p q where "lit p q" "drop (ma s) msk = p @ drop (mp s) msk"
    "drop (na s) name = q @ drop (np s) name" "length p = mp s - ma s"
    "\<And>i. ma s \<le> i \<Longrightarrow> i < mp s \<Longrightarrow> msk ! i \<noteq> CHR ''*''"
proof -
  let ?p = "take (mp s - ma s) (drop (ma s) msk)" and ?q = "take (np s - na s) (drop (na s) name)"
  have l: "lit ?p ?q" and le: "ma s \<le> mp s" "na s \<le> np s" "mp s \<le> length msk"
    using assms unfolding match_seg_def by blast+
  have "msk ! i \<noteq> CHR ''*''" if "ma s \<le> i" "i < mp s" for i
  proof -
    have "?p ! (i - ma s) = msk ! i" "i - ma s < length ?p" using that le by simp_all
    then show ?thesis using lit_no_star [OF l] by (metis nth_mem)
  qed
  then show thesis
    using that [OF l] le take_drop_split [of "ma s" "mp s" msk]
      take_drop_split [of "na s" "np s" name] by simp
qed

lemma seg_no_star: "match_seg msk name s \<Longrightarrow> ma s \<le> i \<Longrightarrow> i < mp s \<Longrightarrow> msk ! i \<noteq> CHR ''*''"
  by (rule seg_parts [of msk name s]) simp_all

lemma star_inv:
  assumes inv: "match_inv msk name s" and star: "byte_at msk (mp s) = Some CHR ''*''"
  shows "match_inv msk name (after_star msk s)"
    and "match_measure msk name (after_star msk s) \<le> match_measure msk name s"
proof -
  have b: "mp s < length msk" "msk ! mp s = CHR ''*''"
    using star by (auto simp: byte_at_def split: if_splits)
  then have d: "drop (mp s) msk = CHR ''*'' # drop (Suc (mp s)) msk"
    by (metis Cons_nth_drop_Suc)
  have seg: "match_seg msk name s" using inv by (simp add: match_inv_def)
  obtain p q where pq: "lit p q" "drop (ma s) msk = p @ drop (mp s) msk"
    "drop (na s) name = q @ drop (np s) name" by (rule seg_parts [OF seg])
  have "glob msk name = glob (CHR ''*'' # drop (Suc (mp s)) msk) (drop (np s) name)"
  proof (cases "wild s")
    case True
    then have "glob msk name = glob (CHR ''*'' # p @ drop (mp s) msk) (q @ drop (np s) name)"
      using match_inv_glob [OF inv] by (simp only: pq(2,3) if_True)
    then show ?thesis using glob_star_shift [OF pq(1)] by (simp only: d)
  next
    case False
    then show ?thesis using match_inv_glob [OF inv] by (simp only: d if_False)
  qed
  also have "\<dots> = glob (CHR ''*'' # drop (skip_stars msk (mp s)) msk) (drop (np s) name)"
    using glob_stars [of "drop (Suc (mp s)) msk"] by (simp only: drop_skip_stars d dropWhile.simps simp_thms if_True)
  finally show "match_inv msk name (after_star msk s)"
    using seg skip_stars_prev [OF star] skip_stars_le [of "mp s" msk] b
    by (simp add: match_inv_def match_seg_def after_star_def)
  have "(length name - np s) * (length msk + 1) \<le> (length name - na s) * (length msk + 1)"
    using seg by (intro mult_le_mono1) (auto simp: match_seg_def)
  then show "match_measure msk name (after_star msk s) \<le> match_measure msk name s"
    using diff_le_mono2 [OF skip_stars_ge [of "mp s" msk], of "length msk"]
    unfolding match_measure_def by (simp add: after_star_def)
qed

lemma scan_back_spec:
  assumes "0 < m" "m \<le> length msk"
  obtains b where "scan_back msk m = Some b" "b < m"
    "\<And>i. b < i \<Longrightarrow> i < m \<Longrightarrow> msk ! i = CHR ''?''"
proof -
  have "\<exists>b. scan_back msk m = Some b \<and> b < m \<and> (\<forall>i. b < i \<and> i < m \<longrightarrow> msk ! i = CHR ''?'')"
    using assms
  proof (induction m)
    case (Suc m)
    show ?case
    proof (cases "0 < m \<and> msk ! m = CHR ''?''")
      case True
      then obtain b where "scan_back msk m = Some b" "b < m"
        "\<forall>i. b < i \<and> i < m \<longrightarrow> msk ! i = CHR ''?''"
        using Suc by auto
      then show ?thesis using True Suc.prems by (auto simp: less_Suc_eq intro!: exI [of _ b])
    next
      case False
      then show ?thesis using Suc.prems by auto
    qed
  qed simp
  then show thesis using that by blast
qed

lemma glob_all_any:
  "length p = length n \<Longrightarrow> \<forall>c \<in> set p. c = CHR ''?'' \<Longrightarrow> glob p n"
  by (induction p n rule: list_induct2) auto

text \<open>The mask is used up, the name is not, and the scan back found a star.\<close>

lemma scan_back_star:
  assumes inv: "match_inv msk name s" and m: "mp s = length msk" and n: "np s < length name"
    and b: "b < mp s" "msk ! b = CHR ''*''" "\<And>i. b < i \<Longrightarrow> i < mp s \<Longrightarrow> msk ! i = CHR ''?''"
  shows "glob msk name"
proof -
  have seg: "match_seg msk name s" using inv by (simp add: match_inv_def)
  obtain p q where pq: "lit p q" "drop (ma s) msk = p @ drop (mp s) msk"
    "length p = mp s - ma s" "\<And>i. ma s \<le> i \<Longrightarrow> i < mp s \<Longrightarrow> msk ! i \<noteq> CHR ''*''"
    by (rule seg_parts [OF seg]) blast
  have bma: "b < ma s" using pq(4) b(1,2) by (meson not_less)
  then have w: "wild s" using inv by (simp add: match_inv_def split: if_splits)
  have "msk ! (ma s - Suc 0) = CHR ''*''" "ma s \<le> mp s"
    using inv w seg by (auto simp: match_inv_def match_seg_def)
  then have any: "msk ! i = CHR ''?''" if "ma s \<le> i" "i < mp s" for i
    using b(3) [of i] bma that by simp
  have "\<forall>c \<in> set (drop (ma s) msk). c = CHR ''?''"
    using any m by (auto simp: in_set_conv_nth)
  moreover have "length (drop (ma s) msk) = length (drop (length name - (mp s - ma s)) name)"
    using m n seg by (simp add: match_seg_def)
  ultimately have "glob (drop (ma s) msk) (drop (length name - (mp s - ma s)) name)"
    by (intro glob_all_any)
  then have "glob (CHR ''*'' # drop (ma s) msk) (drop (length name - (mp s - ma s)) name)" by simp
  then have "glob (CHR ''*'' # drop (ma s) msk) (drop (na s) name)"
    by (rule glob_star_mono) (use n seg in \<open>simp add: match_seg_def\<close>)
  then show ?thesis using match_inv_glob [OF inv] w by simp
qed


lemma good_outcome_mono:
  "good_outcome msk name s r \<Longrightarrow> match_measure msk name s \<le> match_measure msk name t \<Longrightarrow>
   good_outcome msk name t r"
  by (auto simp: good_outcome_def split: option.splits outcome.splits)

text \<open>The restart after the mask was used up.\<close>

lemma restart_good:
  assumes inv: "match_inv msk name s" and cs: "cstring msk" "cstring name"
    and m: "mp s = length msk" and n: "np s < length name" and w: "wild s"
  shows "good_outcome msk name s
           (match_compare msk name (s\<lparr>mp := ma s, np := Suc (na s), na := Suc (na s)\<rparr>))"
    (is "good_outcome _ _ _ (match_compare _ _ ?t)")
proof -
  have seg: "match_seg msk name s" using inv by (simp add: match_inv_def)
  have na: "na s < length name" using seg n by (simp add: match_seg_def)
  have nul: "msk ! i \<noteq> NUL" if "i < length msk" for i
    using cs(1) that by (metis cstring_def nth_mem)
  have nul': "name ! i \<noteq> NUL" if "i < length name" for i
    using cs(2) that by (metis cstring_def nth_mem)
  have fail: "\<not> glob (drop (mp s) msk) (drop (np s) name)" using m n by simp
  note t = match_inv_retry [OF inv w na fail]
  show ?thesis
  proof (cases "ma s = length msk")
    case False
    then have ma: "ma s < mp s" using seg m by (simp add: match_seg_def)
    have ns: "msk ! ma s \<noteq> CHR ''*''" using seg_no_star [OF seg order_refl ma] .
    have "Suc (na s) \<le> np s" using seg ma unfolding match_seg_def by linarith
    then have n': "Suc (na s) < length name" using n by simp
    have m': "ma s < length msk" using ma m by simp
    have "good_outcome msk name ?t (match_compare msk name ?t)"
      by (rule compare_good [OF t(1)]) (use n' m' ns nul [OF m'] nul' [OF n'] in simp_all)
    then show ?thesis by (rule good_outcome_mono [OF _ less_imp_le [OF t(2)]])
  next
    case ma: True
    show ?thesis
    proof (cases "Suc (na s) = length name")
      case True
      then have "match_compare msk name ?t = Some (Continue ?t)"
        using ma by (cases s) (simp add: match_compare_def byte_at_def)
      then show ?thesis using t by (simp add: good_outcome_def)
    next
      case False
      then have n': "Suc (na s) < length name" using na by simp
      have "\<not> glob (drop (mp ?t) msk) (drop (np ?t) name)" using ma n' by simp
      from match_inv_retry [OF t(1) _ _ this] w n'
      have u: "match_inv msk name (s\<lparr>mp := ma s, np := Suc (Suc (na s)), na := Suc (Suc (na s))\<rparr>)"
        "match_measure msk name (s\<lparr>mp := ma s, np := Suc (Suc (na s)), na := Suc (Suc (na s))\<rparr>)
         < match_measure msk name ?t"
        by simp_all
      have "tolower (name ! Suc (na s)) \<noteq> NUL" using nul' [OF n'] by simp
      then have "NUL \<noteq> tolower (name ! Suc (na s))" by (rule not_sym)
      then show ?thesis using ma n' w u t(2)
        by (simp add: match_compare_def good_outcome_def byte_at_def)
    qed
  qed
qed

text \<open>The name is used up, the mask is not.\<close>

lemma name_end_fails:
  assumes inv: "match_inv msk name s" and n: "np s = length name"
    and m: "mp s < length msk" "msk ! mp s \<noteq> CHR ''*''"
  shows "\<not> glob msk name"
proof -
  have seg: "match_seg msk name s" using inv by (simp add: match_inv_def)
  obtain p q where pq: "lit p q" "drop (ma s) msk = p @ drop (mp s) msk"
    "drop (na s) name = q @ drop (np s) name" by (rule seg_parts [OF seg])
  have d: "drop (mp s) msk = msk ! mp s # drop (Suc (mp s)) msk"
    using m(1) by (simp add: Cons_nth_drop_Suc)
  have q: "drop (na s) name = q" using pq(3) n by simp
  have "\<not> glob (CHR ''*'' # p @ msk ! mp s # drop (Suc (mp s)) msk) q"
    unfolding glob_star glob_no_star [OF lit_no_star [OF pq(1)]]
    using lit_length [OF pq(1)] m(2) by simp
  moreover have "\<not> glob (drop (mp s) msk) (drop (np s) name)"
    using n m(2) by (subst d) simp
  ultimately show ?thesis using match_inv_glob [OF inv] pq(2) q d by (simp split: if_splits)
qed

lemma mask_end_good:
  assumes inv: "match_inv msk name s" and cs: "cstring msk" "cstring name" and ne: "msk \<noteq> []"
    and m: "mp s = length msk" and n: "np s < length name"
  shows "good_outcome msk name s (match_mask_end msk name s)"
proof -
  obtain b where b: "scan_back msk (mp s) = Some b" "b < mp s"
    "\<And>i. b < i \<Longrightarrow> i < mp s \<Longrightarrow> msk ! i = CHR ''?''"
    using scan_back_spec [of "mp s" msk] m ne by auto
  have e: "match_mask_end msk name s =
      (if msk ! b = CHR ''*'' \<and> b > 0 then Some (Return True)
       else if \<not> wild s then Some (Return False)
       else match_compare msk name (s\<lparr>mp := ma s, np := Suc (na s), na := Suc (na s)\<rparr>))"
    using b(1,2) m by (simp add: match_mask_end_def)
  show ?thesis
  proof (cases "msk ! b = CHR ''*'' \<and> b > 0")
    case True
    then show ?thesis
      using scan_back_star [OF inv m n b(2) _ b(3)] e by (simp add: good_outcome_def)
  next
    case False
    moreover have "\<not> glob msk name" if "\<not> wild s"
      using match_inv_glob [OF inv] m n that by simp
    ultimately show ?thesis
      using restart_good [OF inv cs m n] by (cases "wild s") (auto simp: e good_outcome_def)
  qed
qed

lemma both_end:
  assumes inv: "match_inv msk name s" and "mp s = length msk" "np s = length name"
  shows "glob msk name"
proof -
  have "glob (drop (mp s) msk) (drop (np s) name)" using assms by simp
  then show ?thesis
    using match_inv_glob [OF inv] seg_glob [of msk name s] inv
    by (auto simp: match_inv_def split: if_splits)
qed

lemma body_good:
  assumes inv: "match_inv msk name s" and cs: "cstring msk" "cstring name" and ne: "msk \<noteq> []"
    and ns: "byte_at msk (mp s) \<noteq> Some CHR ''*''"
  shows "good_outcome msk name s (match_body msk name s)"
proof -
  have le: "mp s \<le> length msk" "np s \<le> length name"
    using inv by (simp_all add: match_inv_def match_seg_def)
  have nul: "msk ! i \<noteq> NUL" if "i < length msk" for i
    using cs(1) that by (metis cstring_def nth_mem)
  have nul': "name ! i \<noteq> NUL" if "i < length name" for i
    using cs(2) that by (metis cstring_def nth_mem)
  consider "mp s = length msk" "np s = length name" | "mp s = length msk" "np s < length name"
    | "mp s < length msk" "np s = length name" | "mp s < length msk" "np s < length name"
    using le by linarith
  then show ?thesis
  proof cases
    case 1
    then show ?thesis using both_end [OF inv] by (simp add: match_body_def good_outcome_def)
  next
    case 2
    then show ?thesis using mask_end_good [OF inv cs ne] nul' by (simp add: match_body_def)
  next
    case 3
    then have "match_body msk name s = Some (Return False)"
      using nul skip_stars_fix [OF ns] by (simp add: match_body_def)
    then show ?thesis
      using name_end_fails [OF inv] 3 ns by (simp add: good_outcome_def)
  next
    case 4
    then have "match_body msk name s = match_compare msk name s"
      using nul nul' by (simp add: match_body_def)
    then show ?thesis using compare_good [OF inv] 4 ns nul nul' by simp
  qed
qed

lemma step_good:
  assumes inv: "match_inv msk name s" and cs: "cstring msk" "cstring name" and ne: "msk \<noteq> []"
  shows "good_outcome msk name s (match_step msk name s)"
proof (cases "byte_at msk (mp s) = Some CHR ''*''")
  case True
  have "byte_at msk (mp (after_star msk s)) \<noteq> Some CHR ''*''"
    using skip_stars_byte by (simp add: after_star_def)
  then have "good_outcome msk name (after_star msk s) (match_body msk name (after_star msk s))"
    by (rule body_good [OF star_inv(1) [OF inv True] cs ne])
  then show ?thesis using True good_outcome_mono star_inv(2) [OF inv True]
    by (simp add: match_step_def)
next
  case False
  have "mp s \<le> length msk" using inv by (simp add: match_inv_def match_seg_def)
  then obtain c where "byte_at msk (mp s) = Some c" using byte_at_le by blast
  then show ?thesis using body_good [OF inv cs ne False] False by (simp add: match_step_def)
qed

lemma loop_good:
  assumes "match_inv msk name s" "cstring msk" "cstring name" "msk \<noteq> []"
  shows "\<exists>b. match_loop k msk name s = Some b \<and> (b \<longrightarrow> glob msk name) \<and>
             (match_measure msk name s < k \<longrightarrow> b = glob msk name)"
  using assms
proof (induction k arbitrary: s)
  case (Suc k)
  have "good_outcome msk name s (match_step msk name s)" by (rule step_good [OF Suc.prems])
  then consider b where "match_step msk name s = Some (Return b)" "b = glob msk name"
    | s' where "match_step msk name s = Some (Continue s')" "match_inv msk name s'"
        "match_measure msk name s' < match_measure msk name s"
    by (auto simp: good_outcome_def split: option.splits outcome.splits)
  then show ?case
  proof cases
    case 2
    then obtain b where "match_loop k msk name s' = Some b" "b \<longrightarrow> glob msk name"
      "match_measure msk name s' < k \<longrightarrow> b = glob msk name"
      using Suc.IH [of s'] Suc.prems by blast
    then show ?thesis using 2 by auto
  qed simp
qed auto

lemma match_inv_init: "match_inv msk name match_init"
  by (simp add: match_inv_def match_seg_def match_init_def)


section \<open>Collapsing\<close>

fun collapsed :: "string \<Rightarrow> bool" where
  "collapsed (a # b # s) \<longleftrightarrow> \<not> (a = CHR ''*'' \<and> b = CHR ''*'') \<and> collapsed (b # s)"
| "collapsed s \<longleftrightarrow> True"

text \<open>The list form of the in-place loop.\<close>

function squeeze :: "string \<Rightarrow> string" where
  "squeeze [] = []"
| "squeeze (c # p) =
     (if c = CHR ''*'' then c # squeeze (dropWhile (\<lambda>c. c = CHR ''*'') p) else c # squeeze p)"
  by pat_completeness auto
termination
  by (relation "measure length") (auto simp: length_dropWhile_le less_Suc_eq_le)

lemma collapse_loop_squeeze: "s \<le> length p \<Longrightarrow> collapse_loop s p = take s p @ squeeze (drop s p)"
proof (induction s p rule: collapse_loop.induct)
  case (1 s p)
  show ?case
  proof (cases "s < length p")
    case s: True
    then have d: "drop s p = p ! s # drop (Suc s) p" "take (Suc s) p = take s p @ [p ! s]"
      by (simp_all add: Cons_nth_drop_Suc take_Suc_conv_app_nth)
    show ?thesis
    proof (cases "p ! s = CHR ''*''")
      case True
      then show ?thesis using s 1(1) [OF s True] d
        by (subst collapse_loop.simps) (simp add: drop_skip_stars)
    next
      case False
      then show ?thesis using s 1(2) [OF s False] d by (subst collapse_loop.simps) simp
    qed
  next
    case False
    then show ?thesis using 1 by (subst collapse_loop.simps) simp
  qed
qed

lemma collapsed_Cons: "collapsed p \<Longrightarrow> c \<noteq> CHR ''*'' \<or> p = [] \<or> hd p \<noteq> CHR ''*'' \<Longrightarrow> collapsed (c # p)"
  by (cases p) auto

lemma squeeze_no_star: "p = [] \<or> hd p \<noteq> CHR ''*'' \<Longrightarrow> squeeze p = [] \<or> hd (squeeze p) \<noteq> CHR ''*''"
  by (cases p) auto

lemma squeeze_collapsed: "collapsed (squeeze p)"
proof (induction p rule: squeeze.induct)
  case (2 c p)
  let ?t = "dropWhile (\<lambda>c. c = CHR ''*'') p"
  have "?t = [] \<or> hd ?t \<noteq> CHR ''*''" using hd_dropWhile [of "\<lambda>c. c = CHR ''*''" p] by blast
  then have "squeeze ?t = [] \<or> hd (squeeze ?t) \<noteq> CHR ''*''" by (rule squeeze_no_star)
  then show ?case using 2 by (simp add: collapsed_Cons)
qed simp

lemma squeeze_id: "collapsed p \<Longrightarrow> squeeze p = p"
proof (induction p rule: collapsed.induct)
  case (1 a b s)
  then show ?case by (cases "a = CHR ''*''") auto
qed auto

lemma squeeze_glob: "glob (squeeze p) n = glob p n"
proof (induction p arbitrary: n rule: squeeze.induct)
  case (2 c p)
  show ?case
  proof (cases "c = CHR ''*''")
    case True
    then have "glob (squeeze (dropWhile (\<lambda>c. c = CHR ''*'') p)) m = glob (dropWhile (\<lambda>c. c = CHR ''*'') p) m" for m
      using 2 by blast
    moreover have "squeeze (c # p) = CHR ''*'' # squeeze (dropWhile (\<lambda>c. c = CHR ''*'') p)"
      using True by simp
    ultimately have "glob (squeeze (c # p)) n = glob (CHR ''*'' # dropWhile (\<lambda>c. c = CHR ''*'') p) n"
      by (simp only: glob_star)
    then show ?thesis using True glob_stars by simp
  next
    case False
    then show ?thesis using 2 by (cases n) auto
  qed
qed simp

section \<open>The iteration limit\<close>

text \<open>Against the mask \<open>*\<close>, every iteration takes two characters of the name.\<close>



lemma star_mask_start:
  "0 < length name \<Longrightarrow>
   match_loop (Suc k) ''*'' name match_init =
   match_loop (Suc k) ''*'' name \<lparr>mp = 1, np = 0, ma = 1, na = 0, wild = True\<rparr>"
  by (simp add: match_step_def match_init_def after_star_def skip_stars.simps byte_at_def)

lemma star_mask_step:
  assumes "cstring name" "i + 2 < length name"
  shows "match_step ''*'' name \<lparr>mp = 1, np = i, ma = 1, na = i, wild = True\<rparr> =
         Some (Continue \<lparr>mp = 1, np = i + 2, ma = 1, na = i + 2, wild = True\<rparr>)"
proof -
  have "name ! i \<noteq> NUL" "name ! Suc i \<noteq> NUL"
    using assms by (metis cstring_def nth_mem add_2_eq_Suc' Suc_lessD)+
  then have "name ! i \<noteq> NUL" "NUL \<noteq> tolower (name ! Suc i)"
    by (metis, metis tolower_eq_NUL)
  then show ?thesis using assms(2)
    by (simp add: match_step_def match_body_def match_mask_end_def match_compare_def byte_at_def)
qed

lemma star_mask_loop:
  "cstring name \<Longrightarrow> i + 2 * k < length name \<Longrightarrow>
   match_loop k ''*'' name \<lparr>mp = 1, np = i, ma = 1, na = i, wild = True\<rparr> = Some False"
proof (induction k arbitrary: i)
  case (Suc k)
  then have "i + 2 < length name" by simp
  then show ?case using Suc.IH [of "i + 2"] Suc.prems star_mask_step [of name i] by simp
qed simp

section \<open>Properties\<close>

lemma match_total:
  "msk \<noteq> [] \<Longrightarrow> cstring msk \<Longrightarrow> cstring name \<Longrightarrow> \<exists>b. match msk name = Some b"
  using loop_good [OF match_inv_init, of msk name] unfolding match_def by blast



text \<open>C26: As long as the iteration limit is large enough for the lengths of the two
  strings, \<open>match\<close> decides exactly whether the mask matches the name.\<close>

theorem match_exact:
  assumes "msk \<noteq> []" "cstring msk" "cstring name"
    and "length name * (length msk + 1) + length msk < MATCH_MAX_CALLS"
  shows "match msk name = Some (glob msk name)"
proof -
  have "match_measure msk name match_init < MATCH_MAX_CALLS"
    using assms(4) by (simp add: match_measure_def match_init_def)
  then show ?thesis
    using loop_good [OF match_inv_init assms(2,3,1)] unfolding match_def by blast
qed

theorem match_exact_witness: "match ''*.Aol.com'' ''cache-1.aol.com'' = Some True"
  using match_exact [of "''*.Aol.com''" "''cache-1.aol.com''"]
  by (simp add: MATCH_MAX_CALLS_def tolower_def char_of_eq_iff)

text \<open>The iteration limit makes the matcher miss: a name of more than 1024 characters does
  not match the mask \<open>*\<close>, which covers every name.\<close>

lemma match_call_limit:
  assumes "cstring name" "2 * MATCH_MAX_CALLS < length name"
  shows "match ''*'' name = Some False \<and> glob ''*'' name"
proof
  have "match ''*'' name = match_loop (Suc 511) ''*'' name match_init"
    by (simp add: match_def MATCH_MAX_CALLS_def)
  also have "\<dots> = match_loop (Suc 511) ''*'' name \<lparr>mp = 1, np = 0, ma = 1, na = 0, wild = True\<rparr>"
    using assms(2) by (intro star_mask_start) (cases name, simp_all add: MATCH_MAX_CALLS_def)
  also have "\<dots> = Some False"
    using assms by (intro star_mask_loop) (simp_all add: MATCH_MAX_CALLS_def)
  finally show "match ''*'' name = Some False" .
  show "glob ''*'' name" unfolding glob_star by (auto intro!: exI [of _ "length name"])
qed

text \<open>C27: \<open>collapse\<close> leaves no two adjacent stars, does not change which names a mask
  matches, never makes a mask longer, and leaves a collapsed mask as it is.\<close>

theorem collapse_correct:
  "\<exists>q. collapse (Some p) = Some q \<and> collapsed q \<and> (\<forall>n. glob q n = glob p n) \<and>
       collapse (Some q) = Some q"
  using collapse_loop_squeeze [of 0 p] collapse_loop_squeeze [of 0 "squeeze p"]
    squeeze_id [OF squeeze_collapsed] squeeze_collapsed squeeze_glob
  by (simp add: collapse_def)

end
