(* ===== verification/Inet.thy ===== *)
theory Inet
  imports Snprintf Match
begin

text \<open>
  The address parsers of inet.c and compat.c that the program falls back on: \<open>inet_pton4\<close>,
  \<open>inet_pton6\<close>, \<open>bopm_inet_pton\<close> and \<open>bopm_inet_aton\<close>.  The temporary array is a list of
  bytes that is written by index; a write outside it is \<open>None\<close>.  The inner option is the
  result: \<open>None\<close> for the return value 0, \<open>Some bytes\<close> for 1 with \<open>bytes\<close> copied to \<open>dst\<close>.
\<close>

section \<open>Dotted quads\<close>

definition put_byte :: "uchar list \<Rightarrow> nat \<Rightarrow> uchar \<Rightarrow> uchar list option" where
  "put_byte tmp i b = (if i < length tmp then Some (tmp[i := b]) else None)"

fun pton4_loop ::
  "string \<Rightarrow> bool \<Rightarrow> nat \<Rightarrow> uchar list \<Rightarrow> nat \<Rightarrow> uchar list option option" where
  "pton4_loop [] saw_digit octets tmp tp = Some (if octets < 4 then None else Some tmp)"
| "pton4_loop (ch # src) saw_digit octets tmp tp =
     (if isdigit ch then
        if length tmp \<le> tp then None
        else let new = unat (tmp ! tp) * 10 + (of_char ch - 48) in
          if 255 < new then Some None
          else if \<not> saw_digit \<and> 4 < octets + 1 then Some None
          else pton4_loop src True (if saw_digit then octets else octets + 1) (tmp[tp := of_nat new]) tp
      else if ch = CHR ''.'' \<and> saw_digit then
        if octets = 4 then Some None
        else (case put_byte tmp (tp + 1) 0 of
                None \<Rightarrow> None
              | Some tmp \<Rightarrow> pton4_loop src False octets tmp (tp + 1))
      else Some None)"

text \<open>\<open>tmp\<close> is not initialised, \<open>tmp0\<close> is what it happens to hold.\<close>

definition inet_pton4 :: "uchar list \<Rightarrow> string \<Rightarrow> uchar list option option" where
  "inet_pton4 tmp0 src = do { tmp \<leftarrow> put_byte tmp0 0 0; pton4_loop src False 0 tmp 0 }"

subsection \<open>The language it accepts\<close>

fun dot_fields :: "string \<Rightarrow> string \<Rightarrow> string list" where
  "dot_fields cur [] = [cur]"
| "dot_fields cur (c # r) = (if c = CHR ''.'' then cur # dot_fields [] r else dot_fields (cur @ [c]) r)"

definition octet :: "string \<Rightarrow> bool" where
  "octet s \<longleftrightarrow> s \<noteq> [] \<and> (\<forall>c \<in> set s. isdigit c) \<and> digits_val s \<le> 255"

definition quad :: "string list \<Rightarrow> uchar list option" where
  "quad ss = (if length ss = 4 \<and> (\<forall>s \<in> set ss. octet s)
              then Some (map (\<lambda>s. of_nat (digits_val s)) ss) else None)"

lemma fields_cur: "\<exists>t ts. dot_fields cur r = (cur @ t) # ts \<and> (r = [] \<longrightarrow> t = [])"
proof (induction cur r rule: dot_fields.induct)
  case (2 cur c r)
  show ?case
  proof (cases "c = CHR ''.''")
    case False
    then obtain t ts where "dot_fields (cur @ [c]) r = ((cur @ [c]) @ t) # ts" using 2 by blast
    then show ?thesis using False by simp
  qed simp
qed simp

lemma digits_val_snoc: "digits_val (s @ [c]) = 10 * digits_val s + (of_char c - 48)"
  by (simp add: digits_val_def)

lemma digits_val_prefix: "digits_val s \<le> digits_val (s @ t)"
proof (induction t rule: rev_induct)
  case (snoc c t)
  then show ?case using digits_val_snoc [of "s @ t" c] by simp
qed simp

lemma quad_bad_head:
  assumes "\<not> octet (cur @ t)" "dot_fields cur r = (cur @ t) # ts"
  shows "quad (fin @ dot_fields cur r) = None"
  using assms by (simp add: quad_def)

lemma quad_bad_prefix:
  assumes "\<And>t. \<not> octet (cur @ t)"
  shows "quad (fin @ dot_fields cur r) = None"
  using fields_cur [of cur r] assms quad_bad_head by blast

lemma quad_too_long: "4 \<le> length fin \<Longrightarrow> quad (fin @ dot_fields cur r) = None"
  using fields_cur [of cur r] by (auto simp: quad_def)

text \<open>The state of the loop, from the finished fields and the digits of the current one.\<close>

definition pton4_inv :: "string list \<Rightarrow> string \<Rightarrow> bool \<Rightarrow> nat \<Rightarrow> uchar list \<Rightarrow> nat \<Rightarrow> bool" where
  "pton4_inv fin cur saw_digit octets tmp tp \<longleftrightarrow>
     length tmp = 4 \<and> tp = length fin \<and> tp < 4 \<and> saw_digit = (cur \<noteq> []) \<and>
     octets = length fin + (if cur = [] then 0 else 1) \<and>
     (\<forall>s \<in> set fin. octet s) \<and> (\<forall>c \<in> set cur. isdigit c) \<and> digits_val cur \<le> 255 \<and>
     take tp tmp = map (\<lambda>s. of_nat (digits_val s)) fin \<and> tmp ! tp = of_nat (digits_val cur)"

lemma unat_small: "n \<le> 255 \<Longrightarrow> unat (of_nat n :: uchar) = n"
  by (simp add: unat_of_nat)

lemma pton4_digit:
  assumes "pton4_inv fin cur sd oc tmp tp" "isdigit c" "digits_val (cur @ [c]) \<le> 255"
  shows "pton4_inv fin (cur @ [c]) True (if sd then oc else oc + 1)
           (tmp[tp := of_nat (digits_val (cur @ [c]))]) tp"
  using assms by (auto simp: pton4_inv_def)

lemma pton4_dot:
  assumes "pton4_inv fin cur True oc tmp tp" "oc \<noteq> 4"
  shows "pton4_inv (fin @ [cur]) [] False oc (tmp[tp + 1 := 0]) (tp + 1)"
proof -
  have i: "length tmp = 4" "tp = length fin" "tp < 4" "cur \<noteq> []" "oc = tp + 1"
    "take tp tmp = map (\<lambda>s. of_nat (digits_val s)) fin" "tmp ! tp = of_nat (digits_val cur)"
    using assms by (auto simp: pton4_inv_def)
  have "octet cur" using assms by (auto simp: pton4_inv_def octet_def)
  moreover have "take (Suc tp) tmp = map (\<lambda>s. of_nat (digits_val s)) (fin @ [cur])"
    using i by (simp add: take_Suc_conv_app_nth)
  moreover have "Suc tp < 4" using i assms(2) by simp
  ultimately show ?thesis using i assms(1) by (auto simp: pton4_inv_def digits_val_def)
qed

lemma pton4_loop_quad:
  "pton4_inv fin cur sd oc tmp tp \<Longrightarrow> pton4_loop src sd oc tmp tp = Some (quad (fin @ dot_fields cur src))"
proof (induction src arbitrary: fin cur sd oc tmp tp)
  case Nil
  then have i: "length tmp = 4" "tp = length fin" "oc = length fin + (if cur = [] then 0 else 1)" "tp < 4"
    "take tp tmp = map (\<lambda>s. of_nat (digits_val s)) fin" "tmp ! tp = of_nat (digits_val cur)"
    "\<forall>s \<in> set fin. octet s"
    by (auto simp: pton4_inv_def)
  show ?case
  proof (cases "oc < 4")
    case True
    then have "length (fin @ [cur]) \<noteq> 4 \<or> \<not> octet cur" using i by (auto simp: octet_def split: if_splits)
    then show ?thesis using True by (auto simp: quad_def)
  next
    case False
    then have c: "cur \<noteq> []" "tp = 3" using i by (auto split: if_splits)
    then have "octet cur" using Nil by (auto simp: pton4_inv_def octet_def)
    moreover have "tmp = map (\<lambda>s. of_nat (digits_val s)) (fin @ [cur])"
      using i c take_Suc_conv_app_nth [of 3 tmp] by simp
    ultimately show ?thesis using i c False by (simp add: quad_def)
  qed
next
  case (Cons c src)
  let ?v = "digits_val (cur @ [c])"
  have i: "length tmp = 4" "tp < 4" "tp = length fin" "unat (tmp ! tp) = digits_val cur" "sd = (cur \<noteq> [])"
    "oc = length fin + (if cur = [] then 0 else 1)"
    using Cons.prems unat_small by (auto simp: pton4_inv_def)
  consider "isdigit c" "?v \<le> 255" | "isdigit c" "255 < ?v" | "c = CHR ''.''" "sd" "oc \<noteq> 4"
    | "c = CHR ''.''" "sd" "oc = 4" | "c = CHR ''.''" "\<not> sd" | "\<not> isdigit c" "c \<noteq> CHR ''.''"
    by fastforce
  then show ?case
  proof cases
    case 1
    then have d: "c \<noteq> CHR ''.''" by auto
    show ?thesis
      using 1 d i Cons.IH [OF pton4_digit [OF Cons.prems 1]] by (auto simp: digits_val_snoc Let_def mult.commute)
  next
    case 2
    have "\<not> octet ((cur @ [c]) @ t)" for t
      using 2 digits_val_prefix [of "cur @ [c]" t] by (simp add: octet_def)
    then have "quad (fin @ dot_fields (cur @ [c]) src) = None" by (rule quad_bad_prefix)
    moreover have "c \<noteq> CHR ''.''" using 2 by auto
    ultimately show ?thesis using 2 i by (auto simp: digits_val_snoc Let_def mult.commute)
  next
    case 3
    have "tp + 1 < 4" using 3 i by (auto split: if_splits)
    then show ?thesis
      using 3 i Cons.IH [OF pton4_dot [of fin cur oc tmp tp]] Cons.prems by (simp add: put_byte_def)
  next
    case 4
    then have "length (fin @ [cur]) = 4" using i by (auto split: if_splits)
    then have "quad ((fin @ [cur]) @ dot_fields [] src) = None" by (intro quad_too_long) simp
    then show ?thesis using 4 i by simp
  next
    case 5
    then show ?thesis using i by (simp add: quad_def octet_def)
  next
    case 6
    have "\<not> octet ((cur @ [c]) @ t)" for t using 6 by (simp add: octet_def)
    then have "quad (fin @ dot_fields (cur @ [c]) src) = None" by (rule quad_bad_prefix)
    then show ?thesis using 6 by simp
  qed
qed

lemma inet_pton4_quad:
  "length tmp0 = 4 \<Longrightarrow> inet_pton4 tmp0 src = Some (quad (dot_fields [] src))"
  using pton4_loop_quad [of "[]" "[]" False 0 "tmp0[0 := 0]" 0 src]
  by (simp add: inet_pton4_def put_byte_def pton4_inv_def digits_val_def)

text \<open>Writing the fields with dots between them is the inverse of splitting.\<close>

fun dots :: "string list \<Rightarrow> string" where
  "dots [] = []"
| "dots [s] = s"
| "dots (s # t # ss) = s @ CHR ''.'' # dots (t # ss)"

lemma dots_fields: "dots (dot_fields cur r) = cur @ r"
proof (induction cur r rule: dot_fields.induct)
  case (2 cur c r)
  obtain t ts where "dot_fields [] r = t # ts" using fields_cur [of "[]" r] by auto
  then show ?case using 2 by auto
qed simp

lemma fields_append: "CHR ''.'' \<notin> set s \<Longrightarrow> dot_fields cur (s @ r) = dot_fields (cur @ s) r"
  by (induction s arbitrary: cur) auto

lemma fields_dots: "ss \<noteq> [] \<Longrightarrow> \<forall>s \<in> set ss. CHR ''.'' \<notin> set s \<Longrightarrow> dot_fields [] (dots ss) = ss"
proof (induction ss rule: dots.induct)
  case (2 s)
  then show ?case using fields_append [of s "[]" "[]"] by simp
qed (auto simp: fields_append)

lemma octet_no_dot: "octet s \<Longrightarrow> CHR ''.'' \<notin> set s"
  by (auto simp: octet_def)

definition dotted :: "uchar list \<Rightarrow> string" where
  "dotted os = dots (map (\<lambda>b. num_str 10 False (unat b)) os)"

lemma octet_num_str: "octet (num_str 10 False (unat (b :: uchar)))"
  using num_str_digits unsigned_less [of b, where ?'a = nat]
  by (auto simp: octet_def digits_val_num_str)

section \<open>IPv6 addresses\<close>

record p6 =
  tmp6 :: "uchar list"
  tp6 :: nat
  colonp :: "nat option"
  curtok :: string
  saw_xdigit :: bool
  val6 :: nat

text \<open>The position of a character in \<open>xdigits\<close>.\<close>

definition xdigit :: "nat \<Rightarrow> nat option" where
  "xdigit ch = (if 48 \<le> ch \<and> ch \<le> 57 then Some (ch - 48)
                else if 97 \<le> ch \<and> ch \<le> 102 then Some (ch - 87) else None)"

datatype p6_result = Reject | Go_on p6

text \<open>The two bytes of a group.\<close>

definition put_group :: "p6 \<Rightarrow> p6_result option" where
  "put_group s =
     (if 16 < tp6 s + 2 then Some Reject
      else do {
        tmp \<leftarrow> put_byte (tmp6 s) (tp6 s) (of_nat (val6 s div 256));
        tmp \<leftarrow> put_byte tmp (tp6 s + 1) (of_nat (val6 s));
        Some (Go_on (s\<lparr>tmp6 := tmp, tp6 := tp6 s + 2\<rparr>)) })"

text \<open>The loop; \<open>ch\<close> is the lower-cased character, \<open>src\<close> the string behind it.\<close>

fun pton6_loop :: "uchar list \<Rightarrow> string \<Rightarrow> p6 \<Rightarrow> p6_result option" where
  "pton6_loop t4 [] s = Some (Go_on s)"
| "pton6_loop t4 (c # src) s =
     (let ch = ToLower c in
      case xdigit ch of
        Some d \<Rightarrow>
          if 0xffff < val6 s * 16 + d then Some Reject
          else pton6_loop t4 src (s\<lparr>val6 := val6 s * 16 + d, saw_xdigit := True\<rparr>)
      | None \<Rightarrow>
          if ch = 58 then
            let s = s\<lparr>curtok := src\<rparr> in
            if \<not> saw_xdigit s then
              if colonp s \<noteq> None then Some Reject
              else pton6_loop t4 src (s\<lparr>colonp := Some (tp6 s)\<rparr>)
            else if src = [] then Some Reject
            else (case put_group s of
                    Some (Go_on s) \<Rightarrow> pton6_loop t4 src (s\<lparr>saw_xdigit := False, val6 := 0\<rparr>)
                  | r \<Rightarrow> r)
          else if src \<noteq> [] \<and> ch = 46 then
            if tp6 s + 4 \<le> 16 then
              (case inet_pton4 t4 (curtok s) of
                 None \<Rightarrow> None
               | Some None \<Rightarrow> Some Reject
               | Some (Some os) \<Rightarrow>
                   Some (Go_on (s\<lparr>tmp6 := take (tp6 s) (tmp6 s) @ os @ drop (tp6 s + 4) (tmp6 s),
                                  tp6 := tp6 s + 4, saw_xdigit := False\<rparr>)))
            else Some Reject
          else pton6_loop t4 src s)"

text \<open>\<open>for (i = 1; i <= n; i++) { endp[-i] = colonp[n - i]; colonp[n - i] = 0; }\<close> with \<open>k\<close>
  rounds left.\<close>

fun shift_loop :: "nat \<Rightarrow> nat \<Rightarrow> nat \<Rightarrow> uchar list \<Rightarrow> uchar list option" where
  "shift_loop 0 n cp tmp = Some tmp"
| "shift_loop (Suc k) n cp tmp =
     (let i = n - k in
      if cp + n - i < length tmp then do {
        tmp \<leftarrow> put_byte tmp (16 - i) (tmp ! (cp + n - i));
        tmp \<leftarrow> put_byte tmp (cp + n - i) 0;
        shift_loop k n cp tmp }
      else None)"

text \<open>After the loop: a last group, then the expansion of the double colon.\<close>

definition pton6_expand :: "p6 \<Rightarrow> uchar list option option" where
  "pton6_expand s =
     (case colonp s of
        None \<Rightarrow> Some (if tp6 s = 16 then Some (tmp6 s) else None)
      | Some cp \<Rightarrow>
          if tp6 s = 16 then Some None
          else map_option Some (shift_loop (tp6 s - cp) (tp6 s - cp) cp (tmp6 s)))"

definition pton6_finish :: "p6 \<Rightarrow> uchar list option option" where
  "pton6_finish s = do {
     r \<leftarrow> (if saw_xdigit s then put_group s else Some (Go_on s));
     (case r of Reject \<Rightarrow> Some None | Go_on s \<Rightarrow> pton6_expand s) }"

definition inet_pton6 :: "uchar list \<Rightarrow> string \<Rightarrow> uchar list option option" where
  "inet_pton6 t4 src0 =
     (let src = (if deref src0 = CHR '':'' then tl src0 else src0) in
      if deref src0 = CHR '':'' \<and> deref src \<noteq> CHR '':'' then Some None
      else do {
        r \<leftarrow> pton6_loop t4 src \<lparr>tmp6 = replicate 16 0, tp6 = 0, colonp = None, curtok = src,
                               saw_xdigit = False, val6 = 0\<rparr>;
        (case r of Reject \<Rightarrow> Some None | Go_on s \<Rightarrow> pton6_finish s) })"

text \<open>\<open>bopm_inet_pton\<close>: \<open>None\<close> of the address family is any family that is not known, with the
  return value -1.  An IPv4 address is also taken as an IPv6 one.  \<open>HOSTIPLEN\<close> (of a build
  with \<open>IPV6\<close>) is the size of the buffer that \<open>sprintf\<close> fills with the mapped form.\<close>

datatype family = AF_INET | AF_INET6 | AF_OTHER

definition HOSTIPLEN :: nat where
  "HOSTIPLEN = 53"

definition bopm_inet_pton :: "uchar list \<Rightarrow> family \<Rightarrow> string \<Rightarrow> (int \<times> uchar list) option" where
  "bopm_inet_pton t4 af src =
     (case af of
        AF_INET \<Rightarrow> do { r \<leftarrow> inet_pton4 t4 src; Some (case r of None \<Rightarrow> (0, []) | Some b \<Rightarrow> (1, b)) }
      | AF_INET6 \<Rightarrow> do {
          q \<leftarrow> inet_pton4 t4 src;
          r \<leftarrow> (if q \<noteq> None then
                   if length (''::ffff:'' @ src) < HOSTIPLEN then inet_pton6 t4 (''::ffff:'' @ src) else None
                 else inet_pton6 t4 src);
          Some (case r of None \<Rightarrow> (0, []) | Some b \<Rightarrow> (1, b)) }
      | AF_OTHER \<Rightarrow> Some (-1, []))"

subsection \<open>Safety\<close>

definition p6_ok :: "p6 \<Rightarrow> bool" where
  "p6_ok s \<longleftrightarrow> length (tmp6 s) = 16 \<and> tp6 s \<le> 16 \<and> (\<forall>cp. colonp s = Some cp \<longrightarrow> cp \<le> tp6 s)"

definition p6_good :: "p6_result option \<Rightarrow> bool" where
  "p6_good r \<longleftrightarrow> r = Some Reject \<or> (\<exists>s. r = Some (Go_on s) \<and> p6_ok s)"

lemma put_group_eq:
  assumes "p6_ok s"
  shows "put_group s =
    Some (if tp6 s + 2 \<le> 16
          then Go_on (s\<lparr>tmp6 := (tmp6 s)[tp6 s := of_nat (val6 s div 256), tp6 s + 1 := of_nat (val6 s)],
                        tp6 := tp6 s + 2\<rparr>)
          else Reject)"
  using assms by (auto simp: put_group_def put_byte_def p6_ok_def)

lemma put_group_ok:
  "p6_ok s \<Longrightarrow> tp6 s + 2 \<le> 16 \<Longrightarrow>
   p6_ok (s\<lparr>tmp6 := (tmp6 s)[tp6 s := x, tp6 s + 1 := y], tp6 := tp6 s + 2\<rparr>)"
  by (auto simp: p6_ok_def)

lemma quad_length: "quad ss = Some os \<Longrightarrow> length os = 4"
  by (auto simp: quad_def split: if_splits)

lemma pton6_loop_good:
  "p6_ok s \<Longrightarrow> length t4 = 4 \<Longrightarrow> p6_good (pton6_loop t4 src s)"
proof (induction src arbitrary: s)
  case (Cons c src)
  note ok = Cons.prems(1)
  have upd: "p6_ok (s\<lparr>val6 := v, saw_xdigit := b\<rparr>)" "p6_ok (s\<lparr>curtok := k, colonp := Some (tp6 s)\<rparr>)"
    "p6_ok (s\<lparr>curtok := k\<rparr>)" for v b k
    using ok by (auto simp: p6_ok_def)
  show ?case
  proof (cases "xdigit (ToLower c)")
    case (Some d)
    then show ?thesis using Cons.IH upd(1) Cons.prems(2) by (auto simp: p6_good_def)
  next
    case None
    consider "ToLower c = 58" "\<not> saw_xdigit s" | "ToLower c = 58" "saw_xdigit s"
      | "ToLower c = 46" "src \<noteq> []" | "ToLower c \<noteq> 58" "ToLower c \<noteq> 46 \<or> src = []"
      by blast
    then show ?thesis
    proof cases
      case 1
      then show ?thesis using None Cons.IH [OF upd(2)] Cons.prems(2) by (auto simp: p6_good_def Let_def)
    next
      case 2
      let ?s = "s\<lparr>curtok := src\<rparr>"
      show ?thesis
      proof (cases "tp6 s + 2 \<le> 16")
        case True
        let ?t = "?s\<lparr>tmp6 := (tmp6 ?s)[tp6 ?s := of_nat (val6 ?s div 256), tp6 ?s + 1 := of_nat (val6 ?s)],
                    tp6 := tp6 ?s + 2\<rparr>"
        have g: "put_group ?s = Some (Go_on ?t)" using put_group_eq [OF upd(3)] True by simp
        have "p6_ok (?t\<lparr>saw_xdigit := False, val6 := 0\<rparr>)"
          using put_group_ok [OF upd(3)] True by (simp add: p6_ok_def)
        then have "p6_good (pton6_loop t4 src (?t\<lparr>saw_xdigit := False, val6 := 0\<rparr>))"
          using Cons.IH Cons.prems(2) by blast
        then show ?thesis using None 2 g by (simp add: Let_def p6_good_def)
      next
        case False
        then have "put_group ?s = Some Reject" using put_group_eq [OF upd(3)] by simp
        then show ?thesis using None 2 by (simp add: Let_def p6_good_def)
      qed
    next
      case 3
      then show ?thesis using None ok inet_pton4_quad [OF Cons.prems(2)] quad_length
        by (fastforce simp: p6_good_def p6_ok_def split: option.splits)
    next
      case 4
      then show ?thesis using None Cons.IH ok Cons.prems(2) by (auto simp: Let_def)
    qed
  qed
qed (simp add: p6_good_def)

text \<open>The shift moves the bytes behind the double colon to the end and leaves zeros.\<close>

lemma shift_loop_length:
  assumes "length tmp = 16" "k \<le> n" "cp + n < 16"
  shows "\<exists>tmp'. shift_loop k n cp tmp = Some tmp' \<and> length tmp' = 16"
  using assms
proof (induction k arbitrary: tmp)
  case (Suc k)
  have "cp + n - (n - k) < 16" "16 - (n - k) < 16" using Suc.prems by auto
  then show ?case
    using Suc.IH [of "(tmp[16 - (n - k) := tmp ! (cp + n - (n - k))])[cp + n - (n - k) := 0]"] Suc.prems
    by (simp add: put_byte_def Let_def)
qed simp

lemma pton6_expand_good:
  assumes "p6_ok t"
  shows "\<exists>r. pton6_expand t = Some r \<and> (\<forall>b. r = Some b \<longrightarrow> length b = 16)"
proof (cases "colonp t")
  case (Some cp)
  then have "cp \<le> tp6 t" "length (tmp6 t) = 16" "tp6 t \<le> 16" using assms by (auto simp: p6_ok_def)
  then show ?thesis
    using Some shift_loop_length [of "tmp6 t" "tp6 t - cp" "tp6 t - cp" cp]
    by (fastforce simp: pton6_expand_def)
qed (use assms in \<open>simp add: p6_ok_def pton6_expand_def\<close>)

lemma pton6_finish_good:
  assumes "p6_ok s"
  shows "\<exists>r. pton6_finish s = Some r \<and> (\<forall>b. r = Some b \<longrightarrow> length b = 16)"
proof (cases "saw_xdigit s \<and> tp6 s + 2 \<le> 16")
  case True
  then show ?thesis
    using put_group_eq [OF assms] pton6_expand_good [OF put_group_ok [OF assms]]
    by (simp add: pton6_finish_def)
next
  case False
  then show ?thesis using put_group_eq [OF assms] pton6_expand_good [OF assms]
    by (auto simp: pton6_finish_def)
qed

definition p6_init :: "string \<Rightarrow> p6" where
  "p6_init src = \<lparr>tmp6 = replicate 16 0, tp6 = 0, colonp = None, curtok = src,
                  saw_xdigit = False, val6 = 0\<rparr>"

lemma p6_ok_init: "p6_ok (p6_init src)"
  by (simp add: p6_ok_def p6_init_def)

lemma inet_pton6_good:
  assumes "length t4 = 4"
  shows "\<exists>r. inet_pton6 t4 src = Some r \<and> (\<forall>b. r = Some b \<longrightarrow> length b = 16)"
proof (cases "deref src = CHR '':'' \<and> deref (tl src) \<noteq> CHR '':''")
  case False
  define src' where "src' = (if deref src = CHR '':'' then tl src else src)"
  have "p6_good (pton6_loop t4 src' (p6_init src'))" by (rule pton6_loop_good [OF p6_ok_init assms])
  then consider "pton6_loop t4 src' (p6_init src') = Some Reject"
    | s where "pton6_loop t4 src' (p6_init src') = Some (Go_on s)" "p6_ok s"
    by (auto simp: p6_good_def)
  then show ?thesis
    by cases (use False pton6_finish_good in \<open>auto simp: inet_pton6_def src'_def p6_init_def Let_def\<close>)
qed (simp add: inet_pton6_def)

subsection \<open>Reading groups of hexadecimal digits\<close>

lemma xdigit_digit: "d < 16 \<Longrightarrow> xdigit (ToLower (digit_char False d)) = Some d"
  by (auto simp: ToLower_tolower tolower_def digit_char_def xdigit_def)

lemma pton6_hex:
  "n \<le> 0xffff \<Longrightarrow> val6 s = 0 \<Longrightarrow>
   pton6_loop t4 (num_str 16 False n @ rest) s = pton6_loop t4 rest (s\<lparr>val6 := n, saw_xdigit := True\<rparr>)"
proof (induction "16 :: nat" False n arbitrary: rest rule: num_str.induct)
  case (1 n)
  show ?case
  proof (cases "n < 16")
    case True
    then show ?thesis using 1 by (subst num_str.simps) (simp add: xdigit_digit)
  next
    case False
    let ?d = "digit_char False (n mod 16)"
    have x: "xdigit (ToLower ?d) = Some (n mod 16)" by (rule xdigit_digit) simp
    have "pton6_loop t4 (num_str 16 False (n div 16) @ (?d # rest)) s =
        pton6_loop t4 (?d # rest) (s\<lparr>val6 := n div 16, saw_xdigit := True\<rparr>)"
      using 1 False by (intro 1(1)) simp_all
    also have "\<dots> = pton6_loop t4 rest (s\<lparr>val6 := n, saw_xdigit := True\<rparr>)"
      using x 1(2) by simp
    finally show ?thesis using False by (subst num_str.simps) simp
  qed
qed

fun colons :: "string list \<Rightarrow> string" where
  "colons [] = []"
| "colons [s] = s"
| "colons (s # t # ss) = s @ CHR '':'' # colons (t # ss)"

definition group_bytes :: "ushort \<Rightarrow> uchar list" where
  "group_bytes w = [of_nat (unat w div 256), of_nat (unat w)]"

lemma ushort_le: "unat (w :: ushort) \<le> 0xffff"
  using unsigned_less [of w, where ?'a = nat] by simp

lemma take_two:
  assumes "i + 2 \<le> length xs"
  shows "take (i + 2) (xs[i := a, i + 1 := b]) = take i xs @ [a, b]"
proof -
  have "take (Suc (Suc i)) (xs[i := a, Suc i := b]) = take i (xs[i := a, Suc i := b]) @ [a] @ [b]"
    using assms by (simp add: take_Suc_conv_app_nth)
  then show ?thesis by simp
qed

lemma colons_Cons: "ss \<noteq> [] \<Longrightarrow> colons (s # ss) = s @ CHR '':'' # colons ss"
  by (cases ss) auto

lemma colons_nonempty: "ss \<noteq> [] \<Longrightarrow> hd ss \<noteq> [] \<Longrightarrow> colons ss \<noteq> []"
  by (cases ss rule: colons.cases) auto

lemma colon_code: "xdigit 58 = None" "ToLower CHR '':'' = 58"
  by (simp_all add: ToLower_tolower tolower_def xdigit_def)

definition pton6_rest :: "uchar list \<Rightarrow> string \<Rightarrow> p6 \<Rightarrow> uchar list option option" where
  "pton6_rest t4 src s = do {
     r \<leftarrow> pton6_loop t4 src s;
     (case r of Reject \<Rightarrow> Some None | Go_on s \<Rightarrow> pton6_finish s) }"

lemma pton6_groups:
  assumes "ws \<noteq> []" "p6_ok s" "colonp s = None" "\<not> saw_xdigit s" "val6 s = 0" "tp6 s + 2 * length ws = 16"
  shows "pton6_rest t4 (colons (map (\<lambda>w. num_str 16 False (unat w)) ws)) s =
         Some (Some (take (tp6 s) (tmp6 s) @ concat (map group_bytes ws)))"
  using assms
proof (induction ws arbitrary: s)
  case (Cons w ws)
  let ?h = "\<lambda>w :: ushort. num_str 16 False (unat w)"
  have len: "length (tmp6 s) = 16" "tp6 s + 2 \<le> 16" using Cons.prems by (auto simp: p6_ok_def)
  show ?case
  proof (cases "ws = []")
    case True
    have t: "tp6 s + 2 = 16" using Cons.prems True by simp
    have "pton6_loop t4 (?h w @ []) s = Some (Go_on (s\<lparr>val6 := unat w, saw_xdigit := True\<rparr>))"
      using pton6_hex [OF ushort_le Cons.prems(5), of t4 w "[]"] by simp
    moreover have "p6_ok (s\<lparr>val6 := unat w, saw_xdigit := True\<rparr>)" using Cons.prems by (simp add: p6_ok_def)
    moreover have "(tmp6 s)[tp6 s := x, tp6 s + 1 := y] = take (tp6 s) (tmp6 s) @ [x, y]" for x y
      using take_two [OF _, of "tp6 s" "tmp6 s" x y] t len by simp
    ultimately show ?thesis
      using True Cons.prems t put_group_eq
      by (simp add: pton6_rest_def pton6_finish_def pton6_expand_def group_bytes_def)
  next
    case False
    let ?r = "colons (map ?h ws)"
    let ?s1 = "s\<lparr>val6 := unat w, saw_xdigit := True, curtok := ?r\<rparr>"
    let ?t = "?s1\<lparr>tmp6 := (tmp6 s)[tp6 s := of_nat (unat w div 256), tp6 s + 1 := of_nat (unat w)],
                 tp6 := tp6 s + 2, saw_xdigit := False, val6 := 0\<rparr>"
    have ne: "?r \<noteq> []" using False by (intro colons_nonempty) (simp_all add: hd_map)
    have "p6_ok ?s1" using Cons.prems by (simp add: p6_ok_def)
    then have g: "put_group ?s1 = Some (Go_on (?s1\<lparr>tmp6 := (tmp6 s)[tp6 s := of_nat (unat w div 256), tp6 s + 1 := of_nat (unat w)],
        tp6 := tp6 s + 2\<rparr>))"
      using put_group_eq len by simp
    have "pton6_loop t4 (?h w @ CHR '':'' # ?r) s = pton6_loop t4 ?r ?t"
      using pton6_hex [OF ushort_le Cons.prems(5), of t4 w "CHR '':'' # ?r"] ne g
      by (simp add: colon_code Let_def)
    then have "pton6_rest t4 (colons (map ?h (w # ws))) s = pton6_rest t4 ?r ?t"
      using False by (simp add: pton6_rest_def colons_Cons)
    also have "\<dots> = Some (Some (take (tp6 s + 2) (tmp6 ?t) @ concat (map group_bytes ws)))"
      using Cons.IH [of ?t] False Cons.prems by (simp add: p6_ok_def)
    finally show ?thesis using take_two [of "tp6 s" "tmp6 s"] len by (simp add: group_bytes_def [of w])
  qed
qed simp

lemma inet_pton6_rest:
  "inet_pton6 t4 src =
   (if deref src = CHR '':'' \<and> deref (tl src) \<noteq> CHR '':'' then Some None
    else let src' = (if deref src = CHR '':'' then tl src else src) in pton6_rest t4 src' (p6_init src'))"
  by (simp add: inet_pton6_def pton6_rest_def p6_init_def Let_def)

subsection \<open>Characters that are not part of an address\<close>

definition junk :: "char \<Rightarrow> bool" where
  "junk c \<longleftrightarrow> xdigit (ToLower c) = None \<and> ToLower c \<noteq> 58 \<and> ToLower c \<noteq> 46"

lemma ToLower_dot: "ToLower c = 46 \<longleftrightarrow> c = CHR ''.''"
proof
  assume "ToLower c = 46"
  then have "(of_char (tolower c) :: nat) = 46" by (simp add: ToLower_tolower)
  then have "(of_char c :: nat) = 46" by (auto simp: tolower_def split: if_splits)
  then have "of_char c = (of_char CHR ''.'' :: nat)" by simp
  then show "c = CHR ''.''" by (simp only: of_char_eq_iff)
qed (simp add: ToLower_tolower tolower_def)

lemma curtok_last:
  "s\<lparr>curtok := j, val6 := v\<rparr> = s\<lparr>val6 := v, curtok := j\<rparr>"
  "s\<lparr>curtok := j, saw_xdigit := b\<rparr> = s\<lparr>saw_xdigit := b, curtok := j\<rparr>"
  "s\<lparr>curtok := j, colonp := cp\<rparr> = s\<lparr>colonp := cp, curtok := j\<rparr>"
  "s\<lparr>curtok := j, tmp6 := t\<rparr> = s\<lparr>tmp6 := t, curtok := j\<rparr>"
  "s\<lparr>curtok := j, tp6 := i\<rparr> = s\<lparr>tp6 := i, curtok := j\<rparr>"
  by simp_all

lemma pton6_loop_junk:
  assumes "CHR ''.'' \<notin> set src" "junk c" "pton6_loop t4 src s = Some (Go_on s')"
  shows "\<exists>k. pton6_loop t4 (src @ [c]) (s\<lparr>curtok := j\<rparr>) = Some (Go_on (s'\<lparr>curtok := k\<rparr>))"
  using assms
proof (induction src arbitrary: s j)
  case Nil
  then show ?case by (auto simp: junk_def Let_def)
next
  case (Cons a src)
  then have dot: "ToLower a \<noteq> 46" by (auto simp: ToLower_dot)
  show ?case
  proof (cases "xdigit (ToLower a)")
    case (Some d)
    then show ?thesis
      using Cons.IH [of "s\<lparr>val6 := val6 s * 16 + d, saw_xdigit := True\<rparr>" j] Cons.prems
      by (auto simp: curtok_last split: if_splits)
  next
    case None
    show ?thesis
    proof (cases "ToLower a = 58")
      case False
      then show ?thesis using None dot Cons.IH [of s j] Cons.prems by (auto simp: Let_def)
    next
      case True
      show ?thesis
      proof (cases "saw_xdigit s")
        case False
        then show ?thesis
          using None True Cons.IH [of "s\<lparr>curtok := src, colonp := Some (tp6 s)\<rparr>" "src @ [c]"] Cons.prems
          by (auto simp: Let_def curtok_last split: if_splits)
      next
        case saw: True
        let ?s = "s\<lparr>curtok := src\<rparr>"
        from Cons.prems(3) None True saw obtain t where
          t: "put_group ?s = Some (Go_on t)" "src \<noteq> []"
            "pton6_loop t4 src (t\<lparr>saw_xdigit := False, val6 := 0\<rparr>) = Some (Go_on s')"
          by (auto simp: Let_def split: if_splits option.splits p6_result.splits)
        have "put_group (s\<lparr>curtok := src @ [c]\<rparr>) = Some (Go_on (t\<lparr>curtok := src @ [c]\<rparr>))"
          using t(1) by (auto simp: put_group_def bind_Some_iff curtok_last split: if_splits)
        then show ?thesis
          using None True saw t Cons.IH [OF _ _ t(3), of "src @ [c]"] Cons.prems(1,2)
          by (auto simp: Let_def curtok_last)
      qed
    qed
  qed
qed

lemma pton6_finish_curtok: "pton6_finish (s\<lparr>curtok := k\<rparr>) = pton6_finish s"
proof -
  have e: "pton6_expand (t\<lparr>curtok := k\<rparr>) = pton6_expand t" for t
    by (cases "colonp t") (simp_all add: pton6_expand_def)
  have "put_group (s\<lparr>curtok := k\<rparr>) =
      (case put_group s of Some (Go_on t) \<Rightarrow> Some (Go_on (t\<lparr>curtok := k\<rparr>)) | r \<Rightarrow> r)"
    by (auto simp: put_group_def put_byte_def)
  then show ?thesis by (auto simp: pton6_finish_def e split: option.split p6_result.split)
qed

section \<open>The fallback for \<open>inet_aton\<close>\<close>

text \<open>
  \<open>sscanf\<close> with \<open>%u\<close>: white space, an optional sign, digits; a number that does not fit is
  undefined.  The outer option is undefined behaviour, the inner one a failed conversion.
\<close>

definition isspace :: "char \<Rightarrow> bool" where
  "isspace c \<longleftrightarrow> c = CHR '' '' \<or> (9 \<le> (of_char c :: nat) \<and> (of_char c :: nat) \<le> 13)"

definition scan_u :: "string \<Rightarrow> (nat \<times> string) option option" where
  "scan_u s0 =
     (let s1 = dropWhile isspace s0;
          neg = (deref s1 = CHR ''-'');
          s2 = (if neg \<or> deref s1 = CHR ''+'' then tl s1 else s1);
          ds = takeWhile isdigit s2; v = digits_val ds in
      if ds = [] then Some None
      else if 2 ^ 32 \<le> v then None
      else Some (Some (if neg then (2 ^ 32 - v) mod 2 ^ 32 else v, dropWhile isdigit s2)))"

text \<open>The conversions of a format \<open>%u.%u...\<close>: the numbers converted before the first failure.\<close>

fun scan_quad :: "nat \<Rightarrow> string \<Rightarrow> nat list option" where
  "scan_quad 0 s = Some []"
| "scan_quad (Suc k) s =
     (case scan_u s of
        None \<Rightarrow> None
      | Some None \<Rightarrow> Some []
      | Some (Some (v, rest)) \<Rightarrow>
          if k = 0 then Some [v]
          else if deref rest = CHR ''.'' then map_option (\<lambda>vs. v # vs) (scan_quad k (tl rest))
          else Some [v])"

text \<open>The result: the returned value and the bytes of \<open>s_addr\<close> in memory, if it was set.\<close>

definition bopm_inet_aton :: "string \<Rightarrow> (int \<times> uchar list option) option" where
  "bopm_inet_aton cp =
     (if cp = ''255.255.255.255'' then Some (0, Some [255, 255, 255, 255])
      else do {
        vs \<leftarrow> scan_quad 4 cp;
        if length vs \<noteq> 4 \<or> (\<exists>v \<in> set vs. 255 < v) then Some (0, None)
        else let s_addr = map of_nat vs in
          Some (if s_addr = [255, 255, 255, 255] then 0 else 1, Some s_addr) })"

lemma not_isspace_digit: "isdigit c \<Longrightarrow> \<not> isspace c \<and> c \<noteq> CHR ''-'' \<and> c \<noteq> CHR ''+'' \<and> c \<noteq> CHR ''.''"
  by (auto simp: isdigit_def isspace_def)

lemma scan_u_num:
  assumes "n < 2 ^ 32" "rest = [] \<or> hd rest = CHR ''.''"
  shows "scan_u (num_str 10 False n @ rest) = Some (Some (n, rest))"
proof -
  obtain c t where ct: "num_str 10 False n = c # t" using num_str_nonempty by (metis neq_Nil_conv)
  have d: "isdigit c" "\<forall>x \<in> set t. isdigit x" using num_str_digits [of _ False n] ct by auto
  have tw: "takeWhile isdigit (num_str 10 False n @ rest) = num_str 10 False n"
    "dropWhile isdigit (num_str 10 False n @ rest) = rest"
    using d assms(2) by (cases rest; auto simp: ct)+
  show ?thesis
    using not_isspace_digit [OF d(1)] tw assms(1) ct digits_val_num_str [of False n]
    by (simp add: scan_u_def Let_def)
qed

lemma scan_quad_dotted:
  "os \<noteq> [] \<Longrightarrow> scan_quad (length os) (dotted os) = Some (map unat (os :: uchar list))"
proof (induction os)
  case (Cons b os)
  have b: "unat b < 2 ^ 32" using unsigned_less [of b, where ?'a = nat] by simp
  show ?case
  proof (cases os)
    case Nil
    then show ?thesis using scan_u_num [OF b, of "[]"] by (simp add: dotted_def)
  next
    case (Cons c cs)
    then have "dotted (b # os) = num_str 10 False (unat b) @ CHR ''.'' # dotted os"
      by (simp add: dotted_def)
    then show ?thesis
      using scan_u_num [OF b, of "CHR ''.'' # dotted os"] Cons.IH Cons by simp
  qed
qed simp

lemma num_str_hex: "c \<in> set (num_str 16 False n) \<Longrightarrow> xdigit (ToLower c) \<noteq> None"
proof (induction "16 :: nat" False n rule: num_str.induct)
  case (1 n)
  then show ?case by (subst (asm) (2) num_str.simps) (auto simp: xdigit_digit split: if_splits)
qed

section \<open>Properties\<close>

text \<open>C30: \<open>inet_pton4\<close> accepts exactly the strings of four fields of digits, separated by single
  dots, each of a value of at most 255, and returns these values; it never writes outside its
  four bytes, whatever the string.\<close>

theorem inet_pton4_exact:
  assumes "length tmp0 = 4"
  shows "\<exists>r. inet_pton4 tmp0 src = Some r \<and>
    (\<forall>os. r = Some os \<longleftrightarrow>
       (\<exists>ss. src = dots ss \<and> length ss = 4 \<and> (\<forall>s \<in> set ss. octet s) \<and>
             os = map (\<lambda>s. of_nat (digits_val s)) ss))"
proof -
  have "dot_fields [] src = ss" if "src = dots ss" "length ss = 4" "\<forall>s \<in> set ss. octet s" for ss
    using fields_dots [of ss] that octet_no_dot by (cases ss) auto
  then have "quad (dot_fields [] src) = Some os \<longleftrightarrow>
       (\<exists>ss. src = dots ss \<and> length ss = 4 \<and> (\<forall>s \<in> set ss. octet s) \<and>
             os = map (\<lambda>s. of_nat (digits_val s)) ss)" for os
    using dots_fields [of "[]" src, symmetric] unfolding quad_def by auto
  then show ?thesis using inet_pton4_quad [OF assms, of src] by blast
qed

theorem inet_pton4_exact_witness:
  "\<exists>r. inet_pton4 [0, 0, 0, 0] ''1.2.3.256'' = Some r \<and>
    (\<forall>os. r = Some os \<longleftrightarrow>
       (\<exists>ss. ''1.2.3.256'' = dots ss \<and> length ss = 4 \<and> (\<forall>s \<in> set ss. octet s) \<and>
             os = map (\<lambda>s. of_nat (digits_val s)) ss))"
  by (rule inet_pton4_exact) simp

text \<open>The parsers read back what is printed: the dotted form of four bytes gives these
  bytes from \<open>inet_pton4\<close> and from \<open>bopm_inet_aton\<close> (which refuses the broadcast address only).\<close>

lemma dotted_round_trip:
  assumes "length tmp0 = 4" "length os = 4"
  shows "inet_pton4 tmp0 (dotted os) = Some (Some os) \<and>
         bopm_inet_aton (dotted os) = Some (if os = [255, 255, 255, 255] then 0 else 1, Some os)"
proof
  have o: "\<forall>s \<in> set (map (\<lambda>b. num_str 10 False (unat b)) os). octet s" by (auto simp: octet_num_str)
  then have "dot_fields [] (dotted os) = map (\<lambda>b. num_str 10 False (unat b)) os"
    unfolding dotted_def using assms(2) octet_no_dot by (intro fields_dots) auto
  then show r: "inet_pton4 tmp0 (dotted os) = Some (Some os)"
    using o assms inet_pton4_quad [OF assms(1), of "dotted os"]
    by (simp add: quad_def digits_val_num_str comp_def)
  have "scan_quad 4 (dotted os) = Some (map unat os)"
    using scan_quad_dotted [of os] assms(2) by (metis list.size(3) zero_neq_numeral)
  moreover have "\<not> 255 < unat (v :: uchar)" for v using unsigned_less [of v, where ?'a = nat] by simp
  moreover have "os = [255, 255, 255, 255]" if "dotted os = ''255.255.255.255''"
  proof -
    have "inet_pton4 tmp0 ''255.255.255.255'' = Some (Some [255, 255, 255, 255])"
      using assms(1) by (simp add: inet_pton4_quad quad_def octet_def digits_val_def isdigit_def)
    then show ?thesis using r that by simp
  qed
  ultimately show "bopm_inet_aton (dotted os) = Some (if os = [255, 255, 255, 255] then 0 else 1, Some os)"
    using assms(2) by (auto simp: bopm_inet_aton_def comp_def)
qed

text \<open>\<open>inet_pton6\<close> reads the eight hexadecimal groups of an address back into its sixteen
  bytes.\<close>

lemma inet_pton6_round_trip:
  assumes "length ws = 8"
  shows "inet_pton6 t4 (colons (map (\<lambda>w. num_str 16 False (unat w)) ws)) =
         Some (Some (concat (map group_bytes ws)))"
proof -
  let ?src = "colons (map (\<lambda>w :: ushort. num_str 16 False (unat w)) ws)"
  obtain w vs where ws: "ws = w # vs" "vs \<noteq> []" using assms by (cases ws; cases "tl ws") auto
  obtain c r where c: "num_str 16 False (unat w) = c # r" using num_str_nonempty by (metis neq_Nil_conv)
  have "xdigit (ToLower c) \<noteq> None"
    using num_str_hex [of c "unat w"] c by auto
  then have "deref ?src \<noteq> CHR '':''" using ws c by (auto simp: colons_Cons colon_code)
  then show ?thesis
    using pton6_groups [of ws "p6_init ?src" t4] assms ws p6_ok_init
    by (simp add: inet_pton6_rest p6_init_def)
qed

text \<open>C32: On every string \<open>inet_pton6\<close> stays inside its sixteen bytes, the expansion of the
  double colon included, and a result has sixteen bytes.\<close>

theorem inet_pton6_safe:
  assumes "length t4 = 4"
  shows "\<exists>r. inet_pton6 t4 src = Some r \<and> (\<forall>b. r = Some b \<longrightarrow> length b = 16)"
  using assms by (rule inet_pton6_good)

theorem inet_pton6_safe_witness:
  "\<exists>r. inet_pton6 [0, 0, 0, 0] ''fe80::1:2'' = Some r \<and> (\<forall>b. r = Some b \<longrightarrow> length b = 16)"
  by (rule inet_pton6_safe) simp

text \<open>\<open>inet_pton6\<close> is too lenient: a character that cannot be part of an address, put behind
  an accepted address without a dotted part, is ignored.\<close>

lemma inet_pton6_ignores_junk:
  assumes "inet_pton6 t4 src = Some (Some b)" "CHR ''.'' \<notin> set src" "junk c"
  shows "inet_pton6 t4 (src @ [c]) = Some (Some b)"
proof -
  let ?s = "if deref src = CHR '':'' then tl src else src"
  have ne: "src \<noteq> []"
    using assms(1) by (auto simp: inet_pton6_rest pton6_rest_def p6_init_def pton6_finish_def pton6_expand_def)
  have nd: "\<not> (deref src = CHR '':'' \<and> deref (tl src) \<noteq> CHR '':'')"
    and r: "pton6_rest t4 ?s (p6_init ?s) = Some (Some b)"
    using assms(1) by (auto simp: inet_pton6_rest Let_def split: if_splits)
  have ap: "deref (src @ [c]) = deref src" "tl (src @ [c]) = tl src @ [c]" using ne by (cases src; simp)+
  have "deref (tl src @ [c]) = CHR '':''" if "deref src = CHR '':''"
    using nd that by (cases "tl src") auto
  then have e: "inet_pton6 t4 (src @ [c]) = pton6_rest t4 (?s @ [c]) (p6_init (?s @ [c]))"
    using ap by (simp add: inet_pton6_rest Let_def)
  obtain s where s: "pton6_loop t4 ?s (p6_init ?s) = Some (Go_on s)" "pton6_finish s = Some (Some b)"
    using r unfolding pton6_rest_def bind_Some_iff
    by (metis option.inject option.simps(3) p6_result.case(1) p6_result.case(2) p6_result.exhaust)
  have "CHR ''.'' \<notin> set ?s" using assms(2) by (cases src) auto
  from pton6_loop_junk [OF this assms(3) s(1), of "?s @ [c]"]
  obtain k where "pton6_loop t4 (?s @ [c]) (p6_init (?s @ [c])) = Some (Go_on (s\<lparr>curtok := k\<rparr>))"
    by (auto simp: p6_init_def)
  then show ?thesis using e s(2) by (simp add: pton6_rest_def pton6_finish_curtok)
qed

text \<open>The IPv6 branch of \<open>bopm_inet_pton\<close> copies an accepted dotted quad behind \<open>::ffff:\<close>
  into a buffer of 53 bytes with \<open>sprintf\<close>; since \<open>inet_pton4\<close> accepts any number of leading
  zeros, the buffer overflows for a string that is long enough.\<close>

lemma inet_pton_mapped_overflow:
  assumes "length t4 = 4" "42 \<le> n"
  shows "bopm_inet_pton t4 AF_INET6 (replicate n CHR ''0'' @ ''.0.0.0'') = None"
proof -
  let ?z = "replicate n CHR ''0''"
  have z: "digits_val ?z = 0" by (induction n) (simp_all add: digits_val_def)
  have "dot_fields [] (?z @ ''.0.0.0'') = [?z, ''0'', ''0'', ''0'']"
    using fields_append [of ?z "[]" "''.0.0.0''"] by simp
  moreover have "octet ?z" "octet ''0''" using assms(2) z by (auto simp: octet_def digits_val_def)
  ultimately have "inet_pton4 t4 (?z @ ''.0.0.0'') \<noteq> Some None"
    using inet_pton4_quad [OF assms(1), of "?z @ ''.0.0.0''"] by (simp add: quad_def)
  then show ?thesis
    using assms inet_pton4_quad [OF assms(1), of "?z @ ''.0.0.0''"]
    by (auto simp: bopm_inet_pton_def HOSTIPLEN_def)
qed

end
