(* ===== verification/Inet_Ntop.thy ===== *)
theory Inet_Ntop
  imports Inet
begin

text \<open>
  The printing functions of inet.c: \<open>inetntoa\<close>, \<open>inet_ntop4\<close>, \<open>inet_ntop6\<close> and \<open>inetntop\<close>.  The
  preprocessor leaves them out of the program as it is built now (and \<open>inet_ntop6\<close>, which a build with
  \<open>IPV6\<close> asks for, calls \<open>inet_ntop4\<close>, which it does not get); here they are taken as they are written.
  Buffers have their sizes: a store behind one is \<open>None\<close>.  The inner option is the result, \<open>None\<close> for
  a NULL pointer, \<open>Some s\<close> for the string copied to \<open>dst\<close>.
\<close>

section \<open>Dotted quads\<close>

definition IpQuadTab :: "string list" where
  "IpQuadTab =
     [''0'', ''1'', ''2'', ''3'', ''4'', ''5'', ''6'', ''7'', ''8'', ''9'',
      ''10'', ''11'', ''12'', ''13'', ''14'', ''15'', ''16'', ''17'', ''18'', ''19'',
      ''20'', ''21'', ''22'', ''23'', ''24'', ''25'', ''26'', ''27'', ''28'', ''29'',
      ''30'', ''31'', ''32'', ''33'', ''34'', ''35'', ''36'', ''37'', ''38'', ''39'',
      ''40'', ''41'', ''42'', ''43'', ''44'', ''45'', ''46'', ''47'', ''48'', ''49'',
      ''50'', ''51'', ''52'', ''53'', ''54'', ''55'', ''56'', ''57'', ''58'', ''59'',
      ''60'', ''61'', ''62'', ''63'', ''64'', ''65'', ''66'', ''67'', ''68'', ''69'',
      ''70'', ''71'', ''72'', ''73'', ''74'', ''75'', ''76'', ''77'', ''78'', ''79'',
      ''80'', ''81'', ''82'', ''83'', ''84'', ''85'', ''86'', ''87'', ''88'', ''89'',
      ''90'', ''91'', ''92'', ''93'', ''94'', ''95'', ''96'', ''97'', ''98'', ''99'',
      ''100'', ''101'', ''102'', ''103'', ''104'', ''105'', ''106'', ''107'', ''108'', ''109'',
      ''110'', ''111'', ''112'', ''113'', ''114'', ''115'', ''116'', ''117'', ''118'', ''119'',
      ''120'', ''121'', ''122'', ''123'', ''124'', ''125'', ''126'', ''127'', ''128'', ''129'',
      ''130'', ''131'', ''132'', ''133'', ''134'', ''135'', ''136'', ''137'', ''138'', ''139'',
      ''140'', ''141'', ''142'', ''143'', ''144'', ''145'', ''146'', ''147'', ''148'', ''149'',
      ''150'', ''151'', ''152'', ''153'', ''154'', ''155'', ''156'', ''157'', ''158'', ''159'',
      ''160'', ''161'', ''162'', ''163'', ''164'', ''165'', ''166'', ''167'', ''168'', ''169'',
      ''170'', ''171'', ''172'', ''173'', ''174'', ''175'', ''176'', ''177'', ''178'', ''179'',
      ''180'', ''181'', ''182'', ''183'', ''184'', ''185'', ''186'', ''187'', ''188'', ''189'',
      ''190'', ''191'', ''192'', ''193'', ''194'', ''195'', ''196'', ''197'', ''198'', ''199'',
      ''200'', ''201'', ''202'', ''203'', ''204'', ''205'', ''206'', ''207'', ''208'', ''209'',
      ''210'', ''211'', ''212'', ''213'', ''214'', ''215'', ''216'', ''217'', ''218'', ''219'',
      ''220'', ''221'', ''222'', ''223'', ''224'', ''225'', ''226'', ''227'', ''228'', ''229'',
      ''230'', ''231'', ''232'', ''233'', ''234'', ''235'', ''236'', ''237'', ''238'', ''239'',
      ''240'', ''241'', ''242'', ''243'', ''244'', ''245'', ''246'', ''247'', ''248'', ''249'',
      ''250'', ''251'', ''252'', ''253'', ''254'', ''255'']"

text \<open>The loops that copy an entry of the table to \<open>buf\<close>, which has sixteen bytes; \<open>put_text n\<close>
  appends to the text in a buffer of \<open>n\<close> bytes.\<close>

definition put_text :: "nat \<Rightarrow> string \<Rightarrow> string \<Rightarrow> string option" where
  "put_text n buf s = (if length buf + length s \<le> n then Some (buf @ s) else None)"

definition inetntoa :: "uchar list \<Rightarrow> string option" where
  "inetntoa a = do {
     buf \<leftarrow> put_text 16 [] (IpQuadTab ! unat (a ! 0));
     buf \<leftarrow> put_text 16 buf ''.'';
     buf \<leftarrow> put_text 16 buf (IpQuadTab ! unat (a ! 1));
     buf \<leftarrow> put_text 16 buf ''.'';
     buf \<leftarrow> put_text 16 buf (IpQuadTab ! unat (a ! 2));
     buf \<leftarrow> put_text 16 buf ''.'';
     buf \<leftarrow> put_text 16 buf (IpQuadTab ! unat (a ! 3));
     put_text 16 buf [NUL];
     Some buf }"

text \<open>\<open>strcpy\<close> into a destination of \<open>n\<close> bytes.\<close>

definition strcpy_to :: "nat \<Rightarrow> string \<Rightarrow> string option" where
  "strcpy_to n s = (if length s < n then Some s else None)"

definition inet_ntop4 :: "uchar list \<Rightarrow> nat \<Rightarrow> string option option" where
  "inet_ntop4 src n =
     (if n < 15 then Some None
      else do { s \<leftarrow> inetntoa src; s \<leftarrow> strcpy_to n s; Some (Some s) })"

section \<open>IPv6 addresses\<close>

text \<open>A run of zero groups; \<open>base\<close> is -1 when there is none, and then \<open>len\<close> is not read.\<close>

record run =
  base :: int
  len :: int

text \<open>\<open>(src[i] << 8) | src[i + 1]\<close>: the two bytes have no bit in common.\<close>

definition ntop6_words :: "uchar list \<Rightarrow> nat list" where
  "ntop6_words src = map (\<lambda>i. unat (src ! (2 * i)) * 256 + unat (src ! (2 * i + 1))) [0..<8]"

definition better :: "run \<Rightarrow> run \<Rightarrow> run" where
  "better best cur = (if base best = -1 \<or> len cur > len best then cur else best)"

text \<open>The search for the longest run, from group \<open>i\<close> on.\<close>

fun ntop6_runs :: "nat list \<Rightarrow> int \<Rightarrow> run \<Rightarrow> run \<Rightarrow> run \<times> run" where
  "ntop6_runs [] i best cur = (best, cur)"
| "ntop6_runs (w # ws) i best cur =
     (if w = 0 then
        if base cur = -1 then ntop6_runs ws (i + 1) best (cur\<lparr>base := i, len := 1\<rparr>)
        else ntop6_runs ws (i + 1) best (cur\<lparr>len := len cur + 1\<rparr>)
      else
        if base cur \<noteq> -1 then ntop6_runs ws (i + 1) (better best cur) (cur\<lparr>base := -1\<rparr>)
        else ntop6_runs ws (i + 1) best cur)"

definition ntop6_best :: "nat list \<Rightarrow> run" where
  "ntop6_best ws =
     (let (best, cur) = ntop6_runs ws 0 \<lparr>base = -1, len = 0\<rparr> \<lparr>base = -1, len = 0\<rparr>;
          best = (if base cur \<noteq> -1 then better best cur else best)
      in if base best \<noteq> -1 \<and> len best < 2 then best\<lparr>base := -1\<rparr> else best)"

text \<open>The size of \<open>tmp\<close>: \<open>sizeof "ffff:ffff:ffff:ffff:ffff:ffff:255.255.255.255"\<close>.\<close>

definition NTOP6_TMP :: nat where
  "NTOP6_TMP = 46"

text \<open>\<open>sprintf (tp, "%x", w)\<close> stores a NUL behind the digits, which is overwritten later.\<close>

definition put_hex :: "string \<Rightarrow> nat \<Rightarrow> string option" where
  "put_hex buf w = do {
     put_text NTOP6_TMP buf (num_str 16 False w @ [NUL]);
     Some (buf @ num_str 16 False w) }"

text \<open>The loop that writes the groups; \<open>buf\<close> is the text up to \<open>tp\<close>.\<close>

function ntop6_loop :: "uchar list \<Rightarrow> nat list \<Rightarrow> run \<Rightarrow> nat \<Rightarrow> string \<Rightarrow> string option option" where
  "ntop6_loop src ws best i buf =
     (if \<not> i < 8 then Some (Some buf)
      else if base best \<noteq> -1 \<and> base best \<le> int i \<and> int i < base best + len best then do {
        buf \<leftarrow> (if int i = base best then put_text NTOP6_TMP buf '':'' else Some buf);
        ntop6_loop src ws best (i + 1) buf }
      else do {
        buf \<leftarrow> (if i \<noteq> 0 then put_text NTOP6_TMP buf '':'' else Some buf);
        if i = 6 \<and> base best = 0 \<and> (len best = 6 \<or> len best = 5 \<and> ws ! 5 = 0xffff) then do {
          r \<leftarrow> inet_ntop4 (drop 12 src) (NTOP6_TMP - length buf);
          Some (map_option (\<lambda>s. buf @ s) r) }
        else do {
          buf \<leftarrow> put_hex buf (ws ! i);
          ntop6_loop src ws best (i + 1) buf } })"
  by pat_completeness auto
termination
  by (relation "measure (\<lambda>(src, ws, best, i, buf). 8 - i)") auto

declare ntop6_loop.simps [simp del]

definition inet_ntop6 :: "uchar list \<Rightarrow> nat \<Rightarrow> string option option" where
  "inet_ntop6 src n =
     (let ws = ntop6_words src; best = ntop6_best ws in do {
        r \<leftarrow> ntop6_loop src ws best 0 [];
        case r of
          None \<Rightarrow> Some None
        | Some buf \<Rightarrow> do {
            buf \<leftarrow> (if base best \<noteq> -1 \<and> base best + len best = 8 then put_text NTOP6_TMP buf '':'' else Some buf);
            put_text NTOP6_TMP buf [NUL];
            if length buf + 1 > n then Some None
            else do { s \<leftarrow> strcpy_to n buf; Some (Some s) } } })"

text \<open>The macros \<open>IN6_IS_ADDR_V4MAPPED\<close> and \<open>IN6_IS_ADDR_V4COMPAT\<close> of the system.\<close>

definition v4mapped :: "uchar list \<Rightarrow> bool" where
  "v4mapped src \<longleftrightarrow> take 12 src = replicate 10 0 @ [0xff, 0xff]"

definition v4compat :: "uchar list \<Rightarrow> bool" where
  "v4compat src \<longleftrightarrow> take 12 src = replicate 12 0 \<and> drop 12 src \<noteq> [0, 0, 0, 0] \<and> drop 12 src \<noteq> [0, 0, 0, 1]"

definition inetntop :: "family \<Rightarrow> uchar list \<Rightarrow> nat \<Rightarrow> string option option" where
  "inetntop af src n =
     (case af of
        AF_INET \<Rightarrow> inet_ntop4 src n
      | AF_INET6 \<Rightarrow> if v4mapped src \<or> v4compat src then inet_ntop4 (drop 12 src) n else inet_ntop6 src n
      | AF_OTHER \<Rightarrow> Some None)"

section \<open>Dotted quads\<close>

lemma IpQuadTab_nth: "n < 256 \<Longrightarrow> IpQuadTab ! n = num_str 10 False n"
proof -
  have "IpQuadTab = map (num_str 10 False) [0..<256]" by code_simp
  moreover have "map f [0..<k] ! n = f n" if "n < k" for f :: "nat \<Rightarrow> string" and k using that by simp
  ultimately show "n < 256 \<Longrightarrow> IpQuadTab ! n = num_str 10 False n" by metis
qed

lemma dotted_four: "dotted [a, b, c, d] =
    num_str 10 False (unat a) @ ''.'' @ num_str 10 False (unat b) @ ''.'' @ num_str 10 False (unat c) @ ''.'' @ num_str 10 False (unat d)"
  by (simp add: dotted_def)

lemma octet_length: "length (num_str 10 False (unat (b :: uchar))) \<le> 3"
  using num_str_length [of "unat b" 10 2 False] unsigned_less [of b, where ?'a = nat] by simp

lemma dotted_length: "length os = 4 \<Longrightarrow> length (dotted os) \<le> 15"
proof -
  assume "length os = 4"
  then obtain a b c d where "os = [a, b, c, d]" by (auto simp: numeral_eq_Suc length_Suc_conv)
  then show ?thesis using octet_length [of a] octet_length [of b] octet_length [of c] octet_length [of d] by (simp add: dotted_four)
qed

lemma inetntoa_dotted:
  assumes "length os = 4"
  shows "inetntoa os = Some (dotted os)"
proof -
  obtain a b c d where os: "os = [a, b, c, d]" using assms by (auto simp: numeral_eq_Suc length_Suc_conv)
  have "IpQuadTab ! unat (x :: uchar) = num_str 10 False (unat x)" for x
    using unsigned_less [of x, where ?'a = nat] by (intro IpQuadTab_nth) simp
  then show ?thesis
    using octet_length [of a] octet_length [of b] octet_length [of c] octet_length [of d]
    by (simp add: os inetntoa_def put_text_def dotted_four)
qed

lemma inet_ntop4_dotted:
  assumes "length os = 4" "16 \<le> n"
  shows "inet_ntop4 os n = Some (Some (dotted os))"
  using assms inetntoa_dotted [OF assms(1)] dotted_length [OF assms(1)] by (simp add: inet_ntop4_def strcpy_to_def)

section \<open>Reading an address back\<close>

text \<open>The two bytes of a group and its digits.\<close>

definition gb :: "nat \<Rightarrow> uchar list" where
  "gb w = [of_nat (w div 256), of_nat w]"

abbreviation hx :: "nat \<Rightarrow> string" where
  "hx w \<equiv> num_str 16 False w"

text \<open>The state of the loop of \<open>inet_pton6\<close> between groups: the bytes so far.\<close>

definition p6_at :: "uchar list \<Rightarrow> nat option \<Rightarrow> string \<Rightarrow> p6" where
  "p6_at bs cp k = \<lparr>tmp6 = bs @ replicate (16 - length bs) 0, tp6 = length bs, colonp = cp, curtok = k, saw_xdigit = False, val6 = 0\<rparr>"

lemma put_two:
  assumes "length bs + 2 \<le> 16"
  shows "(bs @ replicate (16 - length bs) 0)[length bs := x, length bs + 1 := y] = (bs @ [x, y]) @ replicate (16 - length (bs @ [x, y])) (0 :: uchar)"
proof -
  obtain k where k: "16 - length bs = Suc (Suc k)" using assms by (metis add_2_eq_Suc add_le_imp_le_diff le_add_diff_inverse2 add.commute)
  then have "16 - length (bs @ [x, y]) = k" by simp
  then show ?thesis by (simp add: k list_update_append)
qed

lemma put_group_at:
  assumes "length bs + 2 \<le> 16" "tmp6 s = bs @ replicate (16 - length bs) 0" "tp6 s = length bs"
  shows "put_group s = Some (Go_on (s\<lparr>tmp6 := (bs @ gb (val6 s)) @ replicate (16 - length (bs @ gb (val6 s))) 0, tp6 := length (bs @ gb (val6 s))\<rparr>))"
  using assms put_two [OF assms(1), of "of_nat (val6 s div 256)" "of_nat (val6 s)"]
  by (simp add: put_group_def put_byte_def gb_def)

lemma pton6_group:
  assumes "w \<le> 0xffff" "length bs + 2 \<le> 16" "rest \<noteq> []"
  shows "pton6_loop t4 (hx w @ CHR '':'' # rest) (p6_at bs cp k) = pton6_loop t4 rest (p6_at (bs @ gb w) cp rest)"
proof -
  have "pton6_loop t4 (hx w @ CHR '':'' # rest) (p6_at bs cp k) =
      pton6_loop t4 (CHR '':'' # rest) ((p6_at bs cp k)\<lparr>val6 := w, saw_xdigit := True\<rparr>)"
    by (rule pton6_hex) (use assms in \<open>simp_all add: p6_at_def\<close>)
  also have "\<dots> = pton6_loop t4 rest (p6_at (bs @ gb w) cp rest)"
    using assms put_group_at [of bs "(p6_at bs cp k)\<lparr>val6 := w, saw_xdigit := True, curtok := rest\<rparr>"]
    by (simp add: p6_at_def colon_code Let_def)
  finally show ?thesis .
qed

lemma pton6_prefix:
  assumes "\<forall>w \<in> set ws. w \<le> 0xffff" "length bs + 2 * length ws \<le> 16" "rest \<noteq> []"
  shows "pton6_loop t4 (concat (map (\<lambda>w. hx w @ '':'') ws) @ rest) (p6_at bs cp k) =
         pton6_loop t4 rest (p6_at (bs @ concat (map gb ws)) cp (if ws = [] then k else rest))"
  using assms
proof (induction ws arbitrary: bs k)
  case (Cons w ws)
  let ?r = "concat (map (\<lambda>w. hx w @ '':'') ws) @ rest"
  have "pton6_loop t4 (hx w @ CHR '':'' # ?r) (p6_at bs cp k) = pton6_loop t4 ?r (p6_at (bs @ gb w) cp ?r)"
    by (rule pton6_group) (use Cons.prems in simp_all)
  also have "\<dots> = pton6_loop t4 rest (p6_at ((bs @ gb w) @ concat (map gb ws)) cp (if ws = [] then ?r else rest))"
    by (rule Cons.IH) (use Cons.prems in \<open>simp_all add: gb_def\<close>)
  finally show ?case by simp
qed simp

lemma pton6_colon: "pton6_loop t4 (CHR '':'' # rest) (p6_at bs None k) = pton6_loop t4 rest (p6_at bs (Some (length bs)) rest)"
  by (simp add: p6_at_def colon_code Let_def)

lemma colons_snoc: "colons (ss @ [t]) = concat (map (\<lambda>s. s @ '':'') ss) @ t"
proof (induction ss)
  case (Cons s ss)
  then show ?case using colons_Cons [of "ss @ [t]" s] by simp
qed simp

lemma pton6_expand_cong:
  "tmp6 s = tmp6 s' \<Longrightarrow> tp6 s = tp6 s' \<Longrightarrow> colonp s = colonp s' \<Longrightarrow> pton6_expand s = pton6_expand s'"
  by (cases "colonp s'") (simp_all add: pton6_expand_def)

lemma pton6_last:
  assumes "\<forall>w \<in> set ws. w \<le> 0xffff" "length bs + 2 * length ws \<le> 16"
  shows "pton6_rest t4 (colons (map hx ws)) (p6_at bs cp k) = pton6_expand (p6_at (bs @ concat (map gb ws)) cp [])"
proof (cases ws rule: rev_cases)
  case Nil
  have "pton6_rest t4 [] (p6_at bs cp k) = pton6_expand (p6_at bs cp k)"
    by (simp add: pton6_rest_def pton6_finish_def) (simp add: p6_at_def)
  also have "\<dots> = pton6_expand (p6_at bs cp [])" by (rule pton6_expand_cong) (simp_all add: p6_at_def)
  finally show ?thesis by (simp add: Nil)
next
  case (snoc vs w)
  let ?bs = "bs @ concat (map gb vs)" let ?k = "if vs = [] then k else hx w"
  have len: "length (concat (map gb vs)) = 2 * length vs" by (induction vs) (simp_all add: gb_def)
  have "pton6_loop t4 (colons (map hx ws)) (p6_at bs cp k) = pton6_loop t4 (hx w) (p6_at ?bs cp ?k)"
    using pton6_prefix [of vs bs "hx w" t4 cp k] assms snoc by (simp add: colons_snoc comp_def)
  also have "\<dots> = Some (Go_on ((p6_at ?bs cp ?k)\<lparr>val6 := w, saw_xdigit := True\<rparr>))"
    using pton6_hex [of w "p6_at ?bs cp ?k" t4 "[]"] assms snoc by (simp add: p6_at_def)
  finally have l: "pton6_loop t4 (colons (map hx ws)) (p6_at bs cp k) = Some (Go_on ((p6_at ?bs cp ?k)\<lparr>val6 := w, saw_xdigit := True\<rparr>))" .
  let ?t = "(p6_at ?bs cp ?k)\<lparr>val6 := w, saw_xdigit := True, tmp6 := (?bs @ gb w) @ replicate (16 - length (?bs @ gb w)) 0, tp6 := length (?bs @ gb w)\<rparr>"
  have "put_group ((p6_at ?bs cp ?k)\<lparr>val6 := w, saw_xdigit := True\<rparr>) = Some (Go_on ?t)"
    using put_group_at [of ?bs "(p6_at ?bs cp ?k)\<lparr>val6 := w, saw_xdigit := True\<rparr>"] assms snoc len by (simp add: p6_at_def)
  then have "pton6_rest t4 (colons (map hx ws)) (p6_at bs cp k) = pton6_expand ?t"
    by (simp add: l pton6_rest_def pton6_finish_def)
  also have "\<dots> = pton6_expand (p6_at (bs @ concat (map gb ws)) cp [])"
    by (rule pton6_expand_cong) (simp_all add: p6_at_def snoc)
  finally show ?thesis .
qed

text \<open>The double colon is filled with zeros.\<close>

lemma shift_loop_moves:
  "length bs = k \<Longrightarrow> length cs = n - k \<Longrightarrow> k \<le> n \<Longrightarrow> 1 \<le> z \<Longrightarrow> length as + n + z = 16 \<Longrightarrow>
   shift_loop k n (length as) (as @ bs @ replicate z 0 @ cs) = Some (as @ replicate z 0 @ bs @ cs)"
proof (induction k arbitrary: bs cs)
  case (Suc k)
  obtain ds x where bs: "bs = ds @ [x]" "length ds = k" using Suc.prems(1) by (cases bs rule: rev_cases) auto
  obtain y where z: "z = Suc y" using Suc.prems(4) by (cases z) auto
  let ?l = "as @ bs @ replicate z 0 @ cs"
  have i: "length as + n - (n - k) = length (as @ ds)" "16 - (n - k) = length (as @ ds @ [x] @ replicate y 0)"
    using Suc.prems bs z by auto
  have e: "?l = (as @ ds @ [x] @ replicate y 0) @ 0 # cs" by (simp add: bs z replicate_append_same)
  have "?l[16 - (n - k) := x] = (as @ ds @ [x] @ replicate y 0) @ x # cs"
    unfolding e i(2) by (rule list_update_length)
  also have "\<dots> = (as @ ds) @ x # replicate y 0 @ x # cs" by simp
  finally have "(?l[16 - (n - k) := x])[length as + n - (n - k) := 0] = (as @ ds) @ 0 # replicate y 0 @ x # cs"
    unfolding i(1) by (simp only: list_update_length)
  also have "\<dots> = as @ ds @ replicate z 0 @ (x # cs)" by (simp add: z)
  finally have u: "(?l[16 - (n - k) := x])[length as + n - (n - k) := 0] = as @ ds @ replicate z 0 @ (x # cs)" .
  have nth: "?l ! (length as + n - (n - k)) = x" unfolding i(1) by (simp add: bs nth_append)
  have b: "length as + n - (n - k) < length ?l" "16 - (n - k) < length ?l" using Suc.prems by auto
  have "shift_loop (Suc k) n (length as) ?l = shift_loop k n (length as) (as @ ds @ replicate z 0 @ (x # cs))"
    by (simp only: shift_loop.simps Let_def put_byte_def b nth if_True length_list_update bind.bind_lunit u)
  also have "\<dots> = Some (as @ replicate z 0 @ ds @ (x # cs))"
    by (rule Suc.IH) (use Suc.prems bs in simp_all)
  finally show ?case by (simp add: bs)
qed simp

lemma pton6_expand_gap:
  assumes "length (as @ bs) < 16"
  shows "pton6_expand (p6_at (as @ bs) (Some (length as)) k) = Some (Some (as @ replicate (16 - length (as @ bs)) 0 @ bs))"
proof -
  have "shift_loop (length bs) (length bs) (length as) (as @ bs @ replicate (16 - length (as @ bs)) 0 @ []) =
      Some (as @ replicate (16 - length (as @ bs)) 0 @ bs @ [])"
    by (rule shift_loop_moves) (use assms in auto)
  then show ?thesis using assms by (simp add: pton6_expand_def p6_at_def)
qed

text \<open>An address in dotted form at the end: its first number is read as hexadecimal digits until the dot
  sends \<open>inet_pton4\<close> over the whole of it.\<close>

lemma xdigit_decimal: "isdigit c \<Longrightarrow> \<exists>d < 10. xdigit (ToLower c) = Some d"
proof -
  assume "isdigit c"
  then have c: "48 \<le> (of_char c :: nat)" "(of_char c :: nat) \<le> 57" by (auto simp: isdigit_def)
  then have "ToLower c = of_char c" by (simp add: ToLower_tolower tolower_def)
  then show ?thesis using c by (intro exI [of _ "of_char c - 48"]) (auto simp: xdigit_def)
qed

lemma pton6_decimal:
  assumes "\<forall>c \<in> set ds. isdigit c" "val6 s < 16 ^ j" "j + length ds \<le> 4"
  shows "\<exists>v. pton6_loop t4 (ds @ rest) s = pton6_loop t4 rest (s\<lparr>val6 := v, saw_xdigit := (ds \<noteq> [] \<or> saw_xdigit s)\<rparr>)"
  using assms
proof (induction ds arbitrary: s j)
  case Nil
  then show ?case by (intro exI [of _ "val6 s"]) simp
next
  case (Cons c ds)
  obtain d where d: "d < 10" "xdigit (ToLower c) = Some d" using xdigit_decimal Cons.prems(1) by auto
  let ?s = "s\<lparr>val6 := val6 s * 16 + d, saw_xdigit := True\<rparr>"
  have lt: "val6 ?s < 16 ^ Suc j" using Cons.prems(2) d(1) by simp
  also have "(16 :: nat) ^ Suc j \<le> 16 ^ 4" using Cons.prems(3) by (intro power_increasing) auto
  finally have le: "\<not> 0xffff < val6 s * 16 + d" by simp
  obtain v where "pton6_loop t4 (ds @ rest) ?s = pton6_loop t4 rest (?s\<lparr>val6 := v, saw_xdigit := (ds \<noteq> [] \<or> saw_xdigit ?s)\<rparr>)"
    using Cons.IH [of ?s "Suc j"] Cons.prems lt by auto
  then show ?case using d le by (intro exI [of _ v]) (simp add: Let_def)
qed

lemma dotted_first:
  assumes "length os = 4"
  obtains ds r where "dotted os = ds @ CHR ''.'' # r" "r \<noteq> []" "\<forall>c \<in> set ds. isdigit c" "length ds \<le> 3" "ds \<noteq> []"
proof -
  obtain a b c d where os: "os = [a, b, c, d]" using assms by (auto simp: numeral_eq_Suc length_Suc_conv)
  show ?thesis
  proof (rule that)
    show "dotted os = num_str 10 False (unat a) @ CHR ''.'' # num_str 10 False (unat b) @ ''.'' @ num_str 10 False (unat c) @ ''.'' @ num_str 10 False (unat d)"
      by (simp add: os dotted_four)
  qed (use octet_length num_str_digits in auto)
qed

lemma pton6_dotted:
  assumes "length os = 4" "length t4 = 4" "length bs + 4 \<le> 16"
  shows "pton6_rest t4 (dotted os) (p6_at bs cp (dotted os)) = pton6_expand (p6_at (bs @ os) cp [])"
proof -
  obtain ds r where d: "dotted os = ds @ CHR ''.'' # r" "r \<noteq> []" "\<forall>c \<in> set ds. isdigit c" "length ds \<le> 3" "ds \<noteq> []"
    using dotted_first [OF assms(1)] by metis
  let ?s = "p6_at bs cp (dotted os)"
  obtain v where v: "pton6_loop t4 (dotted os) ?s = pton6_loop t4 (CHR ''.'' # r) (?s\<lparr>val6 := v, saw_xdigit := True\<rparr>)"
    using pton6_decimal [of ds ?s 0 t4 "CHR ''.'' # r"] d by (auto simp: p6_at_def)
  let ?t = "?s\<lparr>val6 := v, saw_xdigit := False, tmp6 := (bs @ os) @ replicate (16 - length (bs @ os)) 0, tp6 := length (bs @ os)\<rparr>"
  have "inet_pton4 t4 (dotted os) = Some (Some os)" using dotted_round_trip [OF assms(2,1)] by blast
  moreover have "ToLower CHR ''.'' = 46" "xdigit 46 = None" by (simp_all add: ToLower_tolower tolower_def xdigit_def)
  ultimately have "pton6_loop t4 (dotted os) ?s = Some (Go_on ?t)"
    using d(2) assms by (simp add: v Let_def) (simp add: p6_at_def)
  then have "pton6_rest t4 (dotted os) ?s = pton6_expand ?t" by (simp add: pton6_rest_def pton6_finish_def)
  also have "\<dots> = pton6_expand (p6_at (bs @ os) cp [])" by (rule pton6_expand_cong) (simp_all add: p6_at_def)
  finally show ?thesis .
qed

section \<open>The longest run\<close>

definition zero_run :: "nat list \<Rightarrow> run \<Rightarrow> bool" where
  "zero_run ws r \<longleftrightarrow> 0 \<le> base r \<and> 1 \<le> len r \<and> base r + len r \<le> int (length ws) \<and>
     (\<forall>j. base r \<le> int j \<and> int j < base r + len r \<longrightarrow> ws ! j = 0)"

definition run_or_none :: "nat list \<Rightarrow> run \<Rightarrow> bool" where
  "run_or_none ws r \<longleftrightarrow> base r = -1 \<or> zero_run ws r"

lemma better_run: "run_or_none ws best \<Longrightarrow> run_or_none ws cur \<Longrightarrow> run_or_none ws (better best cur)"
  by (simp add: better_def)

lemma ntop6_runs_ok:
  assumes "ntop6_runs ws (int (length pre)) best cur = (best', cur')" "run_or_none (pre @ ws) best"
    and "base cur = -1 \<or> zero_run (pre @ ws) cur \<and> base cur + len cur = int (length pre)"
  shows "run_or_none (pre @ ws) best' \<and> run_or_none (pre @ ws) cur'"
  using assms
proof (induction ws arbitrary: pre best cur)
  case Nil
  then show ?case by (auto simp: run_or_none_def)
next
  case (Cons w ws)
  have i: "int (length pre) + 1 = int (length (pre @ [w]))" "pre @ w # ws = (pre @ [w]) @ ws" by simp_all
  have cur: "run_or_none (pre @ w # ws) cur" using Cons.prems(3) by (auto simp: run_or_none_def)
  show ?case
  proof (cases "w = 0")
    case True
    let ?c = "if base cur = -1 then cur\<lparr>base := int (length pre), len := 1\<rparr> else cur\<lparr>len := len cur + 1\<rparr>"
    have "zero_run (pre @ w # ws) ?c \<and> base ?c + len ?c = int (length pre) + 1"
      using Cons.prems(3) True by (auto simp: zero_run_def nth_append)
    then have c: "base ?c = -1 \<or> zero_run ((pre @ [w]) @ ws) ?c \<and> base ?c + len ?c = int (length (pre @ [w]))" by simp
    have r: "ntop6_runs ws (int (length (pre @ [w]))) best ?c = (best', cur')"
      using Cons.prems(1) True unfolding i(1) [symmetric] by (simp split: if_splits)
    show ?thesis using Cons.IH [OF r _ c] Cons.prems(2) by simp
  next
    case False
    let ?b = "if base cur = -1 then best else better best cur"
    let ?c = "if base cur = -1 then cur else cur\<lparr>base := -1\<rparr>"
    have c: "base ?c = -1 \<or> zero_run ((pre @ [w]) @ ws) ?c \<and> base ?c + len ?c = int (length (pre @ [w]))" by simp
    have b: "run_or_none ((pre @ [w]) @ ws) ?b" using Cons.prems(2) better_run cur by simp
    have r: "ntop6_runs ws (int (length (pre @ [w]))) ?b ?c = (best', cur')"
      using Cons.prems(1) False unfolding i(1) [symmetric] by (simp split: if_splits)
    show ?thesis using Cons.IH [OF r b c] by simp
  qed
qed

lemma zero_run_nat:
  assumes "zero_run ws r"
  obtains b l where "base r = int b" "len r = int l" "b + l \<le> length ws" "\<And>j. b \<le> j \<Longrightarrow> j < b + l \<Longrightarrow> ws ! j = 0"
proof -
  have r: "0 \<le> base r" "1 \<le> len r" "base r + len r \<le> int (length ws)"
    and z: "\<And>j. base r \<le> int j \<Longrightarrow> int j < base r + len r \<Longrightarrow> ws ! j = 0" using assms by (auto simp: zero_run_def)
  show ?thesis
  proof (rule that [of "nat (base r)" "nat (len r)"])
    show "ws ! j = 0" if "nat (base r) \<le> j" "j < nat (base r) + nat (len r)" for j using z [of j] that r by linarith
  qed (use r in linarith)+
qed

lemma ntop6_best_run:
  obtains "base (ntop6_best ws) = -1"
  | b l where "base (ntop6_best ws) = int b" "len (ntop6_best ws) = int l" "2 \<le> l" "b + l \<le> length ws" "\<And>j. b \<le> j \<Longrightarrow> j < b + l \<Longrightarrow> ws ! j = 0"
proof -
  obtain best cur where r: "ntop6_runs ws 0 \<lparr>base = -1, len = 0\<rparr> \<lparr>base = -1, len = 0\<rparr> = (best, cur)" by force
  let ?b = "if base cur \<noteq> -1 then better best cur else best"
  have "run_or_none ws best" "run_or_none ws cur" using ntop6_runs_ok [of ws "[]", OF _ _ disjI1] r by (auto simp: run_or_none_def)
  then have b: "run_or_none ws ?b" using better_run by auto
  have e: "ntop6_best ws = (if base ?b \<noteq> -1 \<and> len ?b < 2 then ?b\<lparr>base := -1\<rparr> else ?b)"
    unfolding ntop6_best_def r by (simp add: Let_def)
  show ?thesis
  proof (cases "base ?b = -1 \<or> len ?b < 2")
    case True
    then show ?thesis using that(1) e by (auto split: if_splits)
  next
    case False
    then have "zero_run ws ?b" "ntop6_best ws = ?b" using b e by (auto simp: run_or_none_def)
    moreover obtain b l where "base ?b = int b" "len ?b = int l" "b + l \<le> length ws" "\<And>j. b \<le> j \<Longrightarrow> j < b + l \<Longrightarrow> ws ! j = 0"
      using zero_run_nat [OF calculation(1)] by metis
    ultimately show ?thesis using that(2) [of b l] False by simp
  qed
qed

section \<open>The text of an address\<close>

definition in_run :: "run \<Rightarrow> nat \<Rightarrow> bool" where
  "in_run r i \<longleftrightarrow> base r \<noteq> -1 \<and> base r \<le> int i \<and> int i < base r + len r"

definition v4_tail :: "nat list \<Rightarrow> run \<Rightarrow> bool" where
  "v4_tail ws r \<longleftrightarrow> base r = 0 \<and> (len r = 6 \<or> len r = 5 \<and> ws ! 5 = 0xffff)"

text \<open>What the loop writes for one group.\<close>

definition piece :: "nat list \<Rightarrow> run \<Rightarrow> nat \<Rightarrow> string" where
  "piece ws r i = (if in_run r i then if int i = base r then '':'' else [] else (if i = 0 then [] else '':'') @ hx (ws ! i))"

lemma hx_length: "w \<le> 0xffff \<Longrightarrow> length (hx w) \<le> 4"
  using num_str_length [of w 16 3 False] by simp

lemma piece_length: "ws ! i \<le> 0xffff \<Longrightarrow> length (piece ws r i) \<le> 5"
  using hx_length [of "ws ! i"] by (auto simp: piece_def)

lemma ntop6_step:
  assumes "i < 8" "length buf \<le> 5 * i" "ws ! i \<le> 0xffff" "\<not> (i = 6 \<and> \<not> in_run r i \<and> v4_tail ws r)"
  shows "ntop6_loop src ws r i buf = ntop6_loop src ws r (i + 1) (buf @ piece ws r i)"
proof -
  have "length buf + 5 \<le> 40" using assms(1,2) by linarith
  then show ?thesis
    using assms hx_length [OF assms(3)]
    by (subst ntop6_loop.simps) (auto simp: piece_def in_run_def v4_tail_def put_text_def put_hex_def NTOP6_TMP_def)
qed

lemma ntop6_steps:
  assumes "i \<le> j" "j \<le> 8" "length buf \<le> 5 * i" "\<And>k. k < 8 \<Longrightarrow> ws ! k \<le> 0xffff" "j \<le> 6 \<or> in_run r 6 \<or> \<not> v4_tail ws r"
  shows "ntop6_loop src ws r i buf = ntop6_loop src ws r j (buf @ concat (map (piece ws r) [i..<j]))"
    and "length (buf @ concat (map (piece ws r) [i..<j])) \<le> 5 * j"
proof -
  have "ntop6_loop src ws r i buf = ntop6_loop src ws r j (buf @ concat (map (piece ws r) [i..<j])) \<and>
      length (buf @ concat (map (piece ws r) [i..<j])) \<le> 5 * j"
    using assms(1-3,5)
  proof (induction "j - i" arbitrary: i buf)
    case (Suc n)
    have i: "i < j" "i < 8" using Suc by auto
    have s: "ntop6_loop src ws r i buf = ntop6_loop src ws r (i + 1) (buf @ piece ws r i)"
      by (rule ntop6_step) (use i Suc.prems assms(4) in auto)
    have l: "length (buf @ piece ws r i) \<le> 5 * (i + 1)" using piece_length [OF assms(4) [OF i(2)], of r] Suc.prems(3) by simp
    show ?case using Suc.hyps(1) [of "i + 1" "buf @ piece ws r i"] Suc.prems Suc.hyps(2) i l s by (simp add: upt_conv_Cons)
  qed simp
  then show "ntop6_loop src ws r i buf = ntop6_loop src ws r j (buf @ concat (map (piece ws r) [i..<j]))"
    "length (buf @ concat (map (piece ws r) [i..<j])) \<le> 5 * j" by blast+
qed

text \<open>The pieces of the groups up to \<open>b\<close>, of a run and of the groups from \<open>c\<close> on.\<close>

lemma pieces_head:
  assumes "\<And>i. i < b \<Longrightarrow> \<not> in_run r i" "b \<le> length ws"
  shows "concat (map (piece ws r) [0..<b]) = colons (map hx (take b ws))"
  using assms
proof (induction b)
  case (Suc b)
  have "take (Suc b) ws = take b ws @ [ws ! b]" using Suc.prems by (simp add: take_Suc_conv_app_nth)
  moreover have "colons (ss @ [t]) = (if ss = [] then t else colons ss @ '':'' @ t)" for ss t
    by (induction ss rule: colons.induct) auto
  moreover have "piece ws r b = (if b = 0 then [] else '':'') @ hx (ws ! b)" using Suc.prems by (simp add: piece_def)
  moreover have "take b ws = [] \<longleftrightarrow> b = 0" using Suc.prems by auto
  ultimately show ?case using Suc by simp
qed simp

lemma pieces_run:
  assumes "base r = int b" "len r = int l" "1 \<le> l"
  shows "concat (map (piece ws r) [b..<b + l]) = '':''"
proof -
  have "concat (map (piece ws r) [Suc b..<b + l]) = []"
    using assms by (auto simp: piece_def in_run_def)
  moreover have "piece ws r b = '':''" using assms by (simp add: piece_def in_run_def)
  ultimately show ?thesis using assms(3) by (simp add: upt_conv_Cons)
qed

lemma pieces_tail:
  assumes "\<And>i. c \<le> i \<Longrightarrow> \<not> in_run r i" "0 < c" "c \<le> d" "d \<le> length ws"
  shows "concat (map (piece ws r) [c..<d]) = concat (map (\<lambda>w. '':'' @ hx w) (drop c (take d ws)))"
proof -
  have "map (piece ws r) [c..<d] = map (\<lambda>w. '':'' @ hx w) (map ((!) ws) [c..<d])"
    using assms by (auto simp: piece_def)
  moreover have "map ((!) ws) [c..<d] = drop c (take d ws)" using assms by (intro nth_equalityI) auto
  ultimately show ?thesis by simp
qed

lemma words_bound: "length src = 16 \<Longrightarrow> length (ntop6_words src) = 8 \<and> (\<forall>k < 8. ntop6_words src ! k \<le> 0xffff)"
proof -
  have "unat (x :: uchar) * 256 + unat (y :: uchar) \<le> 0xffff" for x y
    using unsigned_less [of x, where ?'a = nat] unsigned_less [of y, where ?'a = nat] by simp
  then show ?thesis by (simp add: ntop6_words_def)
qed

text \<open>The end of \<open>inet_ntop6\<close>, once the text is complete.\<close>

lemma ntop6_finish:
  assumes "ntop6_loop src (ntop6_words src) (ntop6_best (ntop6_words src)) 0 [] = Some (Some buf)"
    and "t = (if base (ntop6_best (ntop6_words src)) \<noteq> -1 \<and> base (ntop6_best (ntop6_words src)) + len (ntop6_best (ntop6_words src)) = 8 then buf @ '':'' else buf)"
    and "length t < 46"
  shows "inet_ntop6 src n = Some (if length t < n then Some t else None)"
  using assms unfolding inet_ntop6_def Let_def put_text_def NTOP6_TMP_def strcpy_to_def by (auto split: if_splits)

lemma ntop6_plain:
  assumes "length src = 16" "base (ntop6_best (ntop6_words src)) = -1"
  shows "inet_ntop6 src n = Some (if length (colons (map hx (ntop6_words src))) < n then Some (colons (map hx (ntop6_words src))) else None)"
    and "length (colons (map hx (ntop6_words src))) < 46"
proof -
  let ?ws = "ntop6_words src" let ?r = "ntop6_best ?ws"
  have w: "length ?ws = 8" "\<And>k. k < 8 \<Longrightarrow> ?ws ! k \<le> 0xffff" using words_bound [OF assms(1)] by auto
  have v: "\<not> v4_tail ?ws ?r" "\<And>i. \<not> in_run ?r i" using assms(2) by (simp_all add: v4_tail_def in_run_def)
  have h: "concat (map (piece ?ws ?r) [0..<8]) = colons (map hx ?ws)" using pieces_head [of 8 ?r ?ws] v(2) w(1) by simp
  have s: "ntop6_loop src ?ws ?r 0 [] = ntop6_loop src ?ws ?r 8 (colons (map hx ?ws))" "length (colons (map hx ?ws)) \<le> 40"
    using ntop6_steps(1) [of 0 8 "[]" ?ws ?r src] ntop6_steps(2) [of 0 8 "[]" ?ws ?r] w(2) v(1) unfolding h by simp_all
  then show l: "length (colons (map hx ?ws)) < 46" by simp
  have "ntop6_loop src ?ws ?r 0 [] = Some (Some (colons (map hx ?ws)))" unfolding s(1) by (simp add: ntop6_loop.simps)
  then show "inet_ntop6 src n = Some (if length (colons (map hx ?ws)) < n then Some (colons (map hx ?ws)) else None)"
    using ntop6_finish [OF _ _ l] assms(2) by simp
qed

lemma colons_tail: "vs \<noteq> [] \<Longrightarrow> concat (map (\<lambda>w. '':'' @ hx w) vs) = '':'' @ colons (map hx vs)"
proof (induction vs)
  case (Cons v vs)
  then show ?case by (cases "vs = []") (simp_all add: colons_Cons)
qed simp

lemma ntop6_gap:
  assumes "length src = 16" "base (ntop6_best (ntop6_words src)) = int b" "len (ntop6_best (ntop6_words src)) = int l" "2 \<le> l" "b + l \<le> 8"
    and "in_run (ntop6_best (ntop6_words src)) 6 \<or> \<not> v4_tail (ntop6_words src) (ntop6_best (ntop6_words src))"
    and t: "t = colons (map hx (take b (ntop6_words src))) @ ''::'' @ colons (map hx (drop (b + l) (ntop6_words src)))"
  shows "inet_ntop6 src n = Some (if length t < n then Some t else None)" "length t < 46"
proof -
  let ?ws = "ntop6_words src" let ?r = "ntop6_best ?ws" let ?p = "piece ?ws ?r"
  let ?buf = "concat (map ?p [0..<8])"
  have w: "length ?ws = 8" "\<And>k. k < 8 \<Longrightarrow> ?ws ! k \<le> 0xffff" using words_bound [OF assms(1)] by auto
  have "[0..<8] = [0..<b] @ [b..<b + l] @ [b + l..<8]" using assms(5) upt_add_eq_append [of 0 b "8 - b"] upt_add_eq_append [of b "b + l" "8 - (b + l)"] by simp
  then have split: "?buf = concat (map ?p [0..<b]) @ concat (map ?p [b..<b + l]) @ concat (map ?p [b + l..<8])" by simp
  have "concat (map ?p [0..<b]) = colons (map hx (take b ?ws))"
    by (rule pieces_head) (use assms(2,5) w(1) in \<open>auto simp: in_run_def\<close>)
  moreover have "concat (map ?p [b..<b + l]) = '':''" by (rule pieces_run) (use assms in simp_all)
  moreover have "concat (map ?p [b + l..<8]) = concat (map (\<lambda>w. '':'' @ hx w) (drop (b + l) (take 8 ?ws)))"
    by (rule pieces_tail) (use assms w in \<open>auto simp: in_run_def\<close>)
  ultimately have buf: "?buf = colons (map hx (take b ?ws)) @ '':'' @ concat (map (\<lambda>w. '':'' @ hx w) (drop (b + l) ?ws))"
    using split w(1) by simp
  have s: "ntop6_loop src ?ws ?r 0 [] = ntop6_loop src ?ws ?r 8 ?buf" "length ?buf \<le> 40"
    using ntop6_steps(1) [of 0 8 "[]" ?ws ?r src] ntop6_steps(2) [of 0 8 "[]" ?ws ?r] w(2) assms(6) by simp_all
  have loop: "ntop6_loop src ?ws ?r 0 [] = Some (Some ?buf)" unfolding s(1) by (simp add: ntop6_loop.simps)
  have te: "t = (if base ?r \<noteq> -1 \<and> base ?r + len ?r = 8 then ?buf @ '':'' else ?buf)"
  proof (cases "b + l = 8")
    case True
    then show ?thesis using buf t assms(2,3) w(1) by simp
  next
    case False
    then have "drop (b + l) ?ws \<noteq> []" using assms(5) w(1) by simp
    then show ?thesis using buf t assms(2,3) False colons_tail by simp
  qed
  then show l: "length t < 46" using s(2) by (auto split: if_splits)
  show "inet_ntop6 src n = Some (if length t < n then Some t else None)" by (rule ntop6_finish [OF loop te l])
qed

lemma ntop6_v4:
  assumes "length src = 16" "v4_tail (ntop6_words src) (ntop6_best (ntop6_words src))" "l = nat (len (ntop6_best (ntop6_words src)))"
    and t: "t = ''::'' @ concat (map (\<lambda>w. hx w @ '':'') (drop l (take 6 (ntop6_words src)))) @ dotted (drop 12 src)"
  shows "inet_ntop6 src n = Some (if length t < n then Some t else None)" "length t < 46"
proof -
  let ?ws = "ntop6_words src" let ?r = "ntop6_best ?ws" let ?p = "piece ?ws ?r" let ?vs = "drop l (take 6 ?ws)"
  let ?buf = "concat (map ?p [0..<6])"
  have w: "length ?ws = 8" "\<And>k. k < 8 \<Longrightarrow> ?ws ! k \<le> 0xffff" using words_bound [OF assms(1)] by auto
  have b: "base ?r = int 0" "len ?r = int l" "l = 6 \<or> l = 5" using assms(2,3) by (auto simp: v4_tail_def)
  have "[0..<6] = [0..<0 + l] @ [l..<6]" using b(3) upt_add_eq_append [of 0 l "6 - l"] by auto
  then have split: "?buf = concat (map ?p [0..<0 + l]) @ concat (map ?p [l..<6])" by simp
  have "concat (map ?p [0..<0 + l]) = '':''" by (rule pieces_run) (use b in auto)
  moreover have "concat (map ?p [l..<6]) = concat (map (\<lambda>w. '':'' @ hx w) ?vs)"
    by (rule pieces_tail) (use b w in \<open>auto simp: in_run_def\<close>)
  ultimately have buf: "?buf = '':'' @ concat (map (\<lambda>w. '':'' @ hx w) ?vs)" using split by simp
  have "\<exists>x \<le> 0xffff. ?vs = [x] \<or> ?vs = []"
  proof (cases "l = 5")
    case True
    have "take 6 ?ws = take 5 ?ws @ [?ws ! 5]" using take_Suc_conv_app_nth [of 5 ?ws] w(1) by simp
    then show ?thesis using True w by (intro exI [of _ "?ws ! 5"]) simp
  qed (use b(3) in auto)
  then obtain x where x: "x \<le> 0xffff" "?vs = [x] \<or> ?vs = []" by blast
  have te: "t = ?buf @ '':'' @ dotted (drop 12 src)" using x(2) buf t by auto
  have d: "length (drop 12 src) = 4" using assms(1) by simp
  have lb: "length ?buf \<le> 6" using x buf hx_length [OF x(1)] by auto
  have lt: "length t < 46" using te lb dotted_length [OF d] by simp
  then show "length t < 46" .
  have s: "ntop6_loop src ?ws ?r 0 [] = ntop6_loop src ?ws ?r 6 ?buf"
    using ntop6_steps(1) [of 0 6 "[]" ?ws ?r src] ntop6_steps(2) [of 0 6 "[]" ?ws ?r] w(2) by simp
  have "\<not> in_run ?r 6" using b by (auto simp: in_run_def)
  then have "ntop6_loop src ?ws ?r 6 ?buf = Some (Some t)"
    using assms(2) lb inet_ntop4_dotted [OF d, of "46 - length (?buf @ '':'')"] te
    by (subst ntop6_loop.simps) (auto simp: in_run_def v4_tail_def put_text_def NTOP6_TMP_def)
  then have "ntop6_loop src ?ws ?r 0 [] = Some (Some t)" using s by simp
  then show "inet_ntop6 src n = Some (if length t < n then Some t else None)"
    by (rule ntop6_finish) (use b lt in auto)
qed

section \<open>Printing and reading\<close>

abbreviation gbs :: "nat list \<Rightarrow> uchar list" where
  "gbs ws \<equiv> concat (map gb ws)"

lemma gbs_length [simp]: "length (gbs ws) = 2 * length ws"
  by (induction ws) (simp_all add: gb_def)

lemma gbs_zero: "gbs (replicate k 0) = replicate (2 * k) 0"
  by (induction k) (simp_all add: gb_def)

lemma gb_pair: "gb (unat (a :: uchar) * 256 + unat (b :: uchar)) = [a, b]"
proof -
  have "unat b < 256" using unsigned_less [of b, where ?'a = nat] by simp
  then have "(unat a * 256 + unat b) div 256 = unat a" by simp
  moreover have "(of_nat (unat a * 256 + unat b) :: uchar) = b"
  proof -
    have "(of_nat 256 :: uchar) = 0" by simp
    then show ?thesis by (simp only: of_nat_add of_nat_mult of_nat_unat ucast_id mult_zero_right add_0)
  qed
  ultimately show ?thesis by (simp add: gb_def del: of_nat_add of_nat_mult)
qed

lemma gbs_words: "length src = 16 \<Longrightarrow> gbs (ntop6_words src) = src"
proof -
  assume l: "length src = 16"
  have "gbs (ntop6_words src) = concat (map (\<lambda>i. [src ! (2 * i), src ! (2 * i + 1)]) [0..<8])"
    by (simp only: ntop6_words_def map_map comp_def gb_pair)
  also have "\<dots> = map ((!) src) [0..<16]" by (simp add: numeral_eq_Suc)
  finally show ?thesis using l map_nth [of src] by simp
qed

lemma hx_first: "\<exists>c r. hx w = c # r \<and> c \<noteq> CHR '':''"
proof -
  obtain c r where "hx w = c # r" using num_str_nonempty by (metis neq_Nil_conv)
  moreover have "c \<noteq> CHR '':''" using num_str_hex [of c w] calculation colon_code by auto
  ultimately show ?thesis by blast
qed

lemma colons_colon: "ss \<noteq> [] \<Longrightarrow> colons ss @ '':'' = concat (map (\<lambda>s. s @ '':'') ss)"
  by (cases ss rule: rev_cases) (simp_all add: colons_snoc)

lemma p6_init_at: "p6_init k = p6_at [] None k"
  by (simp add: p6_init_def p6_at_def)

lemma pton6_double_colon:
  assumes "\<forall>w \<in> set as. w \<le> 0xffff" "2 * length as \<le> 16"
  shows "inet_pton6 t4 (colons (map hx as) @ ''::'' @ R) = pton6_rest t4 R (p6_at (gbs as) (Some (length (gbs as))) R)"
proof -
  let ?s = "concat (map (\<lambda>w. hx w @ '':'') as) @ CHR '':'' # R"
  have "inet_pton6 t4 (colons (map hx as) @ ''::'' @ R) = pton6_rest t4 ?s (p6_init ?s)"
  proof (cases as)
    case (Cons w ws)
    have "colons (map hx as) @ ''::'' @ R = (colons (map hx as) @ '':'') @ CHR '':'' # R" by simp
    also have "\<dots> = ?s" using Cons colons_colon [of "map hx as"] by (simp add: comp_def)
    finally have e: "colons (map hx as) @ ''::'' @ R = ?s" .
    have "deref ?s \<noteq> CHR '':''" using hx_first [of w] Cons by auto
    then show ?thesis unfolding e by (simp add: inet_pton6_rest Let_def)
  qed (simp add: inet_pton6_rest Let_def)
  also have "\<dots> = pton6_rest t4 R (p6_at (gbs as) (Some (length (gbs as))) R)"
    using pton6_prefix [of as "[]" "CHR '':'' # R" t4 None ?s] assms pton6_colon
    by (simp add: p6_init_at pton6_rest_def del: gbs_length)
  finally show ?thesis .
qed

lemma pton6_gap:
  assumes "\<forall>w \<in> set ws. w \<le> 0xffff" "length ws = 8" "b + l \<le> 8" "1 \<le> l" "\<And>j. b \<le> j \<Longrightarrow> j < b + l \<Longrightarrow> ws ! j = 0"
  shows "inet_pton6 t4 (colons (map hx (take b ws)) @ ''::'' @ colons (map hx (drop (b + l) ws))) = Some (Some (gbs ws))"
proof -
  let ?as = "take b ws" let ?bs = "drop (b + l) ws"
  have len: "length ?as = b" "length ?bs = 8 - (b + l)" using assms(2,3) by auto
  have "ws = ?as @ take l (drop b ws) @ ?bs" by (metis append_take_drop_id drop_drop add.commute)
  moreover have "take l (drop b ws) = replicate l 0" using assms(2,3,5) by (intro nth_equalityI) auto
  ultimately have ws: "gbs ws = gbs ?as @ replicate (2 * l) 0 @ gbs ?bs" using gbs_zero by (metis concat_append map_append)
  have "inet_pton6 t4 (colons (map hx ?as) @ ''::'' @ colons (map hx ?bs)) =
      pton6_rest t4 (colons (map hx ?bs)) (p6_at (gbs ?as) (Some (length (gbs ?as))) (colons (map hx ?bs)))"
    by (rule pton6_double_colon) (use assms in \<open>auto dest: in_set_takeD\<close>)
  also have "\<dots> = pton6_expand (p6_at (gbs ?as @ gbs ?bs) (Some (length (gbs ?as))) [])"
    by (rule pton6_last) (use assms in \<open>auto dest: in_set_dropD\<close>)
  also have "\<dots> = Some (Some (gbs ?as @ replicate (16 - length (gbs ?as @ gbs ?bs)) 0 @ gbs ?bs))"
    by (rule pton6_expand_gap) (use assms(3,4) len in simp)
  also have "16 - length (gbs ?as @ gbs ?bs) = 2 * l" using assms(3) len by simp
  finally show ?thesis by (simp only: ws)
qed

lemma pton6_plain:
  assumes "\<forall>w \<in> set ws. w \<le> 0xffff" "length ws = 8"
  shows "inet_pton6 t4 (colons (map hx ws)) = Some (Some (gbs ws))"
proof -
  obtain w vs where w: "ws = w # vs" "vs \<noteq> []" using assms(2) by (cases ws; cases "tl ws") auto
  have "deref (colons (map hx ws)) \<noteq> CHR '':''" using hx_first [of w] w by (auto simp: colons_Cons)
  then have "inet_pton6 t4 (colons (map hx ws)) = pton6_rest t4 (colons (map hx ws)) (p6_at [] None (colons (map hx ws)))"
    by (simp add: inet_pton6_rest p6_init_at Let_def)
  also have "\<dots> = pton6_expand (p6_at ([] @ gbs ws) None [])" by (rule pton6_last) (use assms in auto)
  also have "\<dots> = Some (Some (gbs ws))" using assms(2) by (simp add: pton6_expand_def p6_at_def)
  finally show ?thesis .
qed

lemma pton6_v4:
  assumes "\<forall>w \<in> set vs. w \<le> 0xffff" "length vs \<le> 1" "length os = 4" "length t4 = 4"
  shows "inet_pton6 t4 (''::'' @ concat (map (\<lambda>w. hx w @ '':'') vs) @ dotted os) =
         Some (Some (replicate (12 - 2 * length vs) 0 @ gbs vs @ os))"
proof -
  let ?R = "concat (map (\<lambda>w. hx w @ '':'') vs) @ dotted os"
  have ne: "dotted os \<noteq> []" using dotted_first [OF assms(3)] by (metis append_is_Nil_conv list.discI)
  have "inet_pton6 t4 (''::'' @ ?R) = pton6_rest t4 ?R (p6_at [] (Some 0) ?R)"
    using pton6_double_colon [of "[]" t4 ?R] by simp
  also have "\<dots> = pton6_rest t4 (dotted os) (p6_at (gbs vs) (Some 0) (dotted os))"
  proof -
    have "(if vs = [] then ?R else dotted os) = dotted os" by simp
    then show ?thesis using pton6_prefix [of vs "[]" "dotted os" t4 "Some 0" ?R] assms(1,2) ne by (simp add: pton6_rest_def)
  qed
  also have "\<dots> = pton6_expand (p6_at (gbs vs @ os) (Some 0) [])" by (rule pton6_dotted) (use assms in simp_all)
  also have "\<dots> = Some (Some (replicate (16 - length (gbs vs @ os)) 0 @ (gbs vs @ os)))"
    using pton6_expand_gap [of "[]" "gbs vs @ os" "[]"] assms(2,3) by simp
  finally show ?thesis using assms(3) by simp
qed

lemma words_v4:
  assumes "length src = 16" "l = 6 \<or> l = 5" "\<And>j. j < l \<Longrightarrow> ntop6_words src ! j = 0"
  shows "src = replicate (12 - 2 * length (drop l (take 6 (ntop6_words src)))) 0 @ gbs (drop l (take 6 (ntop6_words src))) @ drop 12 src"
proof -
  let ?ws = "ntop6_words src" let ?vs = "drop l (take 6 ?ws)"
  have w: "length ?ws = 8" using words_bound [OF assms(1)] by auto
  have "take l (take 6 ?ws) = replicate l 0" using assms(2,3) w by (intro nth_equalityI) auto
  then have "take 6 ?ws = replicate l 0 @ ?vs" using append_take_drop_id [of l "take 6 ?ws"] by simp
  then have "?ws = replicate l 0 @ ?vs @ drop 6 ?ws" by (metis append_assoc append_take_drop_id)
  then have g: "src = replicate (2 * l) 0 @ gbs ?vs @ gbs (drop 6 ?ws)"
    using gbs_words [OF assms(1)] gbs_zero [of l] by (metis concat_append map_append)
  have v: "length ?vs = 6 - l" using w by simp
  then have n: "12 - 2 * length ?vs = 2 * l" "length (replicate (2 * l) (0 :: uchar) @ gbs ?vs) = 12" using assms(2) by auto
  have d: "drop 12 (xs @ ys) = ys" if "length xs = 12" for xs ys :: "uchar list" using that by simp
  have "drop 12 src = gbs (drop 6 ?ws)"
    by (subst g, subst append_assoc [symmetric]) (rule d [OF n(2)])
  then show ?thesis using g n(1) by simp
qed

text \<open>C31: An IPv6 address that is printed can be read back: \<open>inet_ntop6\<close> writes a text that fits its
  buffer of 46 bytes, copies it when the destination is large enough and returns NULL otherwise, and
  \<open>inet_pton6\<close> makes the same sixteen bytes of this text, whether a run of zeros was compressed, where it
  was, or the last four bytes were written in dotted form.\<close>

theorem inet_ntop6_round_trip:
  assumes "length src = 16" "length t4 = 4"
  shows "\<exists>t. length t < 46 \<and> inet_ntop6 src n = Some (if length t < n then Some t else None) \<and> inet_pton6 t4 t = Some (Some src)"
proof -
  let ?ws = "ntop6_words src" let ?r = "ntop6_best ?ws"
  have w: "\<forall>w \<in> set ?ws. w \<le> 0xffff" "length ?ws = 8" using words_bound [OF assms(1)] by (auto simp: in_set_conv_nth)
  note src = gbs_words [OF assms(1)]
  show ?thesis
  proof (cases rule: ntop6_best_run [of ?ws])
    case 1
    show ?thesis using ntop6_plain [OF assms(1) 1] pton6_plain [OF w, of t4] unfolding src by blast
  next
    case (2 b l)
    show ?thesis
    proof (cases "in_run ?r 6 \<or> \<not> v4_tail ?ws ?r")
      case True
      have bl: "b + l \<le> 8" "1 \<le> l" using 2 w(2) by auto
      show ?thesis
        using ntop6_gap [OF assms(1) 2(1,2,3) bl(1) True refl] pton6_gap [OF w bl 2(5), of t4] unfolding src by blast
    next
      case False
      let ?vs = "drop l (take 6 ?ws)"
      have bl: "b = 0" "l = 6 \<or> l = 5" "l = nat (len ?r)" using False 2(1,2) by (auto simp: v4_tail_def)
      have vs: "\<forall>w \<in> set ?vs. w \<le> 0xffff" "length ?vs = 6 - l" using w by (auto dest!: in_set_dropD in_set_takeD)
      have src': "src = replicate (12 - 2 * length ?vs) 0 @ gbs ?vs @ drop 12 src"
        by (rule words_v4 [OF assms(1) bl(2)]) (use 2(5) bl(1) in simp)
      have "inet_pton6 t4 (''::'' @ concat (map (\<lambda>w. hx w @ '':'') ?vs) @ dotted (drop 12 src)) = Some (Some src)"
        using pton6_v4 [OF vs(1), of "drop 12 src" t4] vs(2) bl(2) assms src' by auto
      then show ?thesis using ntop6_v4 [OF assms(1) _ bl(3) refl] False by blast
    qed
  qed
qed


text \<open>The first of two longest runs is compressed, and a single zero group is not.\<close>

lemma inet_ntop6_examples:
  "inet_ntop6 [0, 1, 0, 0, 0, 0, 0, 2, 0, 0, 0, 0, 0, 3, 0, 4] 46 = Some (Some ''1::2:0:0:3:4'')"
  "inet_ntop6 [0, 1, 0, 0, 0, 1, 0, 1, 0, 1, 0, 1, 0, 1, 0, 1] 46 = Some (Some ''1:0:1:1:1:1:1:1'')"
  by code_simp+

theorem inet_ntop6_round_trip_witness:
  "\<exists>t. length t < 46 \<and> inet_ntop6 (replicate 10 0 @ [0xff, 0xff, 127, 0, 0, 1]) 46 = Some (if length t < 46 then Some t else None) \<and>
     inet_pton6 [0, 0, 0, 0] t = Some (Some (replicate 10 0 @ [0xff, 0xff, 127, 0, 0, 1]))"
  by (rule inet_ntop6_round_trip) simp_all

text \<open>\<open>inet_ntop4\<close> accepts a destination of fifteen bytes and then copies up to sixteen.\<close>

lemma inet_ntop4_overflow: "inet_ntop4 [192, 168, 100, 200] 15 = None"
  by code_simp

text \<open>\<open>inetntop\<close> prints an IPv4-compatible IPv6 address without its prefix, and \<open>bopm_inet_pton\<close> makes
  another address of the text, the IPv4-mapped one.\<close>

lemma inetntop_compat_differs:
  assumes "length os = 4" "v4compat (replicate 12 0 @ os)"
  shows "\<exists>t. inetntop AF_INET6 (replicate 12 0 @ os) 46 = Some (Some t) \<and>
    bopm_inet_pton [0, 0, 0, 0] AF_INET6 t = Some (1, replicate 10 0 @ [0xff, 0xff] @ os)"
proof (intro exI conjI)
  show "inetntop AF_INET6 (replicate 12 0 @ os) 46 = Some (Some (dotted os))"
    using inet_ntop4_dotted [OF assms(1), of 46] assms(2) by (simp add: inetntop_def)
  have p: "inet_pton4 [0, 0, 0, 0] (dotted os) = Some (Some os)" using dotted_round_trip [of "[0, 0, 0, 0]" os] assms(1) by simp
  have "inet_pton6 [0, 0, 0, 0] (''::'' @ concat (map (\<lambda>w. hx w @ '':'') [0xffff]) @ dotted os) =
      Some (Some (replicate (12 - 2 * length [0xffff :: nat]) 0 @ gbs [0xffff] @ os))"
    by (rule pton6_v4) (use assms(1) in simp_all)
  moreover have "digit_char False 15 = CHR ''f''" by code_simp
  moreover from this have "hx 0xffff = ''ffff''" by (simp add: num_str.simps [of 16])
  moreover have "gb 0xffff = [0xff, 0xff]" by (simp add: gb_def)
  ultimately have "inet_pton6 [0, 0, 0, 0] (''::ffff:'' @ dotted os) = Some (Some (replicate 10 0 @ [0xff, 0xff] @ os))" by simp
  then show "bopm_inet_pton [0, 0, 0, 0] AF_INET6 (dotted os) = Some (1, replicate 10 0 @ [0xff, 0xff] @ os)"
    using p dotted_length [OF assms(1)] by (simp add: bopm_inet_pton_def HOSTIPLEN_def)
qed

end
