(* ===== verification/Config.thy ===== *)
theory Config
  imports Snprintf
begin

text \<open>
  The configuration structures of config.h with the defaults of config.c, and the compile-time
  limits of options.h and irc.h.  The parser fills these structures
  (\<open>Conf_Parse\<close>).  A list of the program is an Isabelle list here: \<open>CList\<close> shows that the linked
  list behaves like one.
\<close>

section \<open>Limits\<close>

definition MSGLENMAX :: nat where "MSGLENMAX = 513"
definition COMMANDMAX :: nat where "COMMANDMAX = 64"
definition COMMANDINTERVAL :: nat where "COMMANDINTERVAL = 10"
definition COMMANDTIMEOUT :: int where "COMMANDTIMEOUT = 180"
definition RECONNECTINTERVAL :: int where "RECONNECTINTERVAL = 30"
definition NEG_CACHE_REBUILD :: int where "NEG_CACHE_REBUILD = 60 * 60 * 12"
definition NODATA_TIMEOUT :: int where "NODATA_TIMEOUT = 900"

section \<open>Structures\<close>

record channel_conf =
  chan_name :: string
  chan_key :: string
  chan_invite :: string

record irc_conf =
  irc_nick :: string
  irc_username :: string
  irc_realname :: string
  irc_server :: string
  irc_port :: int
  irc_password :: string
  irc_vhost :: string
  irc_nickserv :: string
  irc_oper :: string
  irc_mode :: string
  irc_away :: string
  irc_connregex :: string
  irc_kline :: string
  irc_conf_channels :: "channel_conf list"
  irc_performs :: "string list"

record options_conf =
  opt_negcache :: int
  opt_dns_fdlimit :: nat
  opt_pidfile :: string
  opt_scanlog :: "string option"

record user_conf =
  user_masks :: "string list"
  user_scanners :: "string list"

text \<open>The protocols of libopm; only their equality matters.\<close>

datatype opm_type =
    OPM_TYPE_HTTP | OPM_TYPE_HTTPPOST | OPM_TYPE_SOCKS4 | OPM_TYPE_SOCKS5 | OPM_TYPE_WINGATE
  | OPM_TYPE_ROUTER | OPM_TYPE_OTHER int

record protocol_conf =
  proto_type :: opm_type
  proto_port :: nat

record scanner_conf =
  sc_name :: string
  sc_protocols :: "protocol_conf list"
  sc_vhost :: string
  sc_fd :: int
  sc_target_ip :: string
  sc_target_port :: int
  sc_timeout :: int
  sc_max_read :: int
  sc_target_string :: "string list"

datatype blacklist_type = A_BITMASK | A_REPLY

text \<open>\<open>number\<close> is a plain \<open>char\<close>, signed on the platforms the program runs on.\<close>

record blacklist_reply =
  reply_number :: "8 word"
  reply_type :: string

record blacklist_conf =
  bl_name :: string
  bl_kline :: string
  bl_type :: blacklist_type
  bl_ban_unknown :: bool
  bl_reply :: "blacklist_reply list"
  bl_stats_recv :: uint

record opm_conf =
  opm_blacklists :: "blacklist_conf list"
  opm_dnsbl_from :: string
  opm_dnsbl_to :: string
  opm_sendmail :: string

record conf =
  IRCItem :: irc_conf
  OptionsItem :: options_conf
  OpmItem :: opm_conf
  UserItemList :: "user_conf list"
  ScannerItemList :: "scanner_conf list"
  ExemptMasks :: "string list"

section \<open>Defaults\<close>

text \<open>A backslash of a regular expression.\<close>

definition bsl :: string where
  "bsl = [CHR 0x5C]"

definition default_connregex :: string where
  "default_connregex =
     bsl @ ''*'' @ bsl @ ''*'' @ bsl @ ''* Notice -- Client connecting: ([^ ]+) '' @ bsl @
     ''(([^@]+)@([^'' @ bsl @ '')]+)'' @ bsl @ '') '' @ bsl @ ''[([0-9'' @ bsl @ ''.]+)'' @ bsl @ ''].*''"

text \<open>What \<open>config_init\<close> and \<open>config_setup\<close> leave before the parser runs: the structures with
  empty lists, and the default values.\<close>

definition config_init_setup :: conf where
  "config_init_setup =
     \<lparr>IRCItem = \<lparr>irc_nick = ''bopm'', irc_username = ''bopm'',
        irc_realname = ''Blitzed Open Proxy Monitor'', irc_server = ''myserver.blitzed.org'',
        irc_port = 6667, irc_password = [], irc_vhost = [], irc_nickserv = [],
        irc_oper = ''undefined'', irc_mode = ''+cs'',
        irc_away = ''I'' @ [CHR 0x27] @ ''m a bot, don'' @ [CHR 0x27] @ ''t message me'',
        irc_connregex = default_connregex,
        irc_kline = ''KLINE %u@%h :Open Proxy found on your host. Please visit '' @
                    ''www.blitzed.org/proxy?ip=%i for more information.'',
        irc_conf_channels = [], irc_performs = []\<rparr>,
      OptionsItem = \<lparr>opt_negcache = 0, opt_dns_fdlimit = 50, opt_pidfile = ''bopm.pid'',
        opt_scanlog = None\<rparr>,
      OpmItem = \<lparr>opm_blacklists = [], opm_dnsbl_from = [], opm_dnsbl_to = [],
        opm_sendmail = ''/usr/sbin/sendmail''\<rparr>,
      UserItemList = [], ScannerItemList = [], ExemptMasks = []\<rparr>"

end
