(* ===== verification/Net.thy ===== *)
theory Net
  imports Config
begin

text \<open>
  The state every component shares and the sending side of irc.c.  What the program does to
  its surroundings is recorded as a trace of events; what the surroundings answer (whether a
  \<open>send\<close> succeeds, what libopm and the resolver return) is a function of the trace so far, so
  every sequence of answers is covered.  The clock is a field: \<open>time(NULL)\<close> does not advance
  within one handler.
\<close>

section \<open>State\<close>

datatype event =
    Sent int string              \<comment> \<open>\<open>send\<close>: descriptor and bytes\<close>
  | Closed int                   \<comment> \<open>\<open>close\<close>\<close>
  | Slept                        \<comment> \<open>\<open>sleep(1)\<close>\<close>
  | Mail string string           \<comment> \<open>the pipe to sendmail: command and text\<close>
  | Opm_scan nat ptr             \<comment> \<open>\<open>opm_scan\<close>: scanner and scan\<close>
  | Opm_end nat ptr              \<comment> \<open>\<open>opm_end\<close>: scanner and scan\<close>
  | Scanlog string int string "string option"  \<comment> \<open>a line of the scan log\<close>
  | Drew                         \<comment> \<open>\<open>rand\<close>\<close>
  | Dns_socket int               \<comment> \<open>\<open>socket\<close> and the setup of a datagram socket\<close>
  | Dns_sent int "uchar list" string  \<comment> \<open>\<open>sendto\<close>: descriptor, server and datagram\<close>
  | Dns_closed int               \<comment> \<open>\<open>close\<close> of a datagram socket\<close>
  | Dns_recv int                 \<comment> \<open>\<open>recv\<close> of a datagram\<close>
  | Polled "int list"            \<comment> \<open>\<open>poll\<close> on descriptors\<close>

text \<open>
  The answers: whether \<open>send\<close> and \<open>popen\<close> succeed; whether \<open>opm_scan\<close> returns \<open>OPM_SUCCESS\<close>
  and, if not, which error; the numbers \<open>rand\<close> gives; the descriptor \<open>socket\<close> returns and
  whether \<open>fcntl\<close>, \<open>bind\<close> and \<open>sendto\<close> succeed; the datagram \<open>recv\<close> returns, if any; the
  descriptors \<open>poll\<close> finds readable, if any; what the system's \<open>inet_pton\<close> and
  \<open>inet_aton\<close> make of a string; the text of the last system error; what the machine makes of
  the shift the negative cache performs; whether the scan log could be opened; and the bytes an uninitialised buffer holds.  The
  version number is set when the program is built.
\<close>

datatype opm_result = OPM_SUCCESS | OPM_ERR_NOPROTOCOLS | OPM_ERR_BADADDR | OPM_ERR_OTHER

record env =
  send_ok :: "event list \<Rightarrow> bool"
  pipe_ok :: "event list \<Rightarrow> bool"
  opm_scan_ret :: "event list \<Rightarrow> opm_result"
  rnd :: "event list \<Rightarrow> nat"
  dns_socket :: "event list \<Rightarrow> int"
  dns_fcntl :: "event list \<Rightarrow> bool"
  dns_bind :: "event list \<Rightarrow> bool"
  dns_sendto :: "event list \<Rightarrow> bool"
  dns_recv :: "event list \<Rightarrow> string option"
  dns_poll :: "event list \<Rightarrow> int list"
  sys_pton :: "string \<Rightarrow> uchar list option"
  sys_aton :: "string \<Rightarrow> uchar list option"
  sys_error :: "event list \<Rightarrow> string"
  shift64 :: "ulong \<Rightarrow> bool"
  scanlogfile :: "event list \<Rightarrow> bool"
  stack_bytes :: "event list \<Rightarrow> string"
  VERSION :: string

record net =
  clock :: int
  envir :: env
  cfg :: conf
  out :: "event list"
  IRC_FD :: int
  IRC_LAST :: int
  IRC_LASTRECONNECT :: int
  IRC_CHANNELS :: string

text \<open>The initial values of the globals.\<close>

definition net_init :: "int \<Rightarrow> env \<Rightarrow> conf \<Rightarrow> net" where
  "net_init now e c = \<lparr>clock = now, envir = e, cfg = c, out = [], IRC_FD = 0, IRC_LAST = 0,
     IRC_LASTRECONNECT = 0, IRC_CHANNELS = []\<rparr>"

text \<open>Surroundings in which everything succeeds.\<close>

definition env_fine :: env where
  "env_fine = \<lparr>send_ok = (\<lambda>_. True), pipe_ok = (\<lambda>_. True), opm_scan_ret = (\<lambda>_. OPM_SUCCESS),
     rnd = (\<lambda>_. 7), dns_socket = (\<lambda>t. int (length t) + 3), dns_fcntl = (\<lambda>_. True), dns_bind = (\<lambda>_. True),
     dns_sendto = (\<lambda>_. True), dns_recv = (\<lambda>_. None), dns_poll = (\<lambda>_. []),
     sys_pton = (\<lambda>_. Some [127, 0, 0, 1]), sys_aton = (\<lambda>_. Some [127, 0, 0, 1]),
     sys_error = (\<lambda>_. []), shift64 = (\<lambda>_. False), scanlogfile = (\<lambda>_. True),
     stack_bytes = (\<lambda>_. []), VERSION = ''3''\<rparr>"

definition record_event :: "event \<Rightarrow> 'a net_scheme \<Rightarrow> 'a net_scheme" where
  "record_event e w = w\<lparr>out := out w @ [e]\<rparr>"

section \<open>Sending\<close>

definition irc_reconnect :: "'a net_scheme \<Rightarrow> 'a net_scheme" where
  "irc_reconnect w =
     (if clock w - IRC_LASTRECONNECT w < RECONNECTINTERVAL then record_event Slept w
      else let w = w\<lparr>IRC_LASTRECONNECT := clock w\<rparr>;
               w = (if IRC_FD w > 0 then record_event (Closed (IRC_FD w)) w else w)
           in w\<lparr>IRC_FD := 0\<rparr>)"

text \<open>\<open>send\<close> and what happens when it fails.\<close>

definition irc_transmit :: "string \<Rightarrow> 'a net_scheme \<Rightarrow> 'a net_scheme" where
  "irc_transmit tosend w =
     (let ok = send_ok (envir w) (out w);
          w = record_event (Sent (IRC_FD w) tosend) w
      in if ok then w else irc_reconnect w)"

text \<open>The automatic buffers are filled by the formatter before they are read.\<close>

definition format_buffer :: "nat \<Rightarrow> string \<Rightarrow> arg list \<Rightarrow> string option" where
  "format_buffer sz fmt ap = do {
     (buf, r) \<leftarrow> portable_vsnprintf (replicate sz NUL) sz (Some fmt) ap;
     Some (buffer_string buf) }"

definition irc_send :: "string \<Rightarrow> arg list \<Rightarrow> 'a net_scheme \<Rightarrow> 'a net_scheme option" where
  "irc_send data ap w = do {
     data2 \<leftarrow> format_buffer MSGLENMAX data ap;
     tosend \<leftarrow> format_buffer MSGLENMAX (''%s'' @ [CHR 0x0A]) [ArgStr (Some data2)];
     Some (irc_transmit tosend w) }"

definition irc_send_channels :: "string \<Rightarrow> arg list \<Rightarrow> 'a net_scheme \<Rightarrow> 'a net_scheme option" where
  "irc_send_channels data ap w = do {
     data2 \<leftarrow> format_buffer MSGLENMAX data ap;
     tosend \<leftarrow> format_buffer MSGLENMAX ''PRIVMSG %s :%s'' [ArgStr (Some (IRC_CHANNELS w)), ArgStr (Some data2)];
     irc_send ''%s'' [ArgStr (Some tosend)] w }"

abbreviation Str :: "string \<Rightarrow> arg" where
  "Str s \<equiv> ArgStr (Some s)"

section \<open>Connecting\<close>

datatype connect_result = Connected | Eisconn | Ealready | Connect_failed

definition irc_connect :: "connect_result \<Rightarrow> 'a net_scheme \<Rightarrow> 'a net_scheme option" where
  "irc_connect r w =
     (case r of
        Eisconn \<Rightarrow> Some w
      | Ealready \<Rightarrow> Some w
      | Connect_failed \<Rightarrow> Some (irc_reconnect w)
      | Connected \<Rightarrow> do {
          let c = IRCItem (cfg w);
          w \<leftarrow> irc_send ''NICK %s'' [Str (irc_nick c)] w;
          w \<leftarrow> (if irc_password c \<noteq> [] then irc_send ''PASS %s'' [Str (irc_password c)] w else Some w);
          w \<leftarrow> irc_send ''USER %s %s %s :%s''
                 [Str (irc_username c), Str (irc_username c), Str (irc_username c), Str (irc_realname c)] w;
          Some (w\<lparr>IRC_LAST := clock w\<rparr>) })"

definition irc_timer :: "'a net_scheme \<Rightarrow> 'a net_scheme option" where
  "irc_timer w =
     (let delta = clock w - IRC_LAST w in
      if delta \<ge> NODATA_TIMEOUT then Some ((irc_reconnect w)\<lparr>IRC_LAST := clock w\<rparr>)
      else if delta \<ge> NODATA_TIMEOUT div 2 then irc_send ''PING :BOPM'' [] w
      else Some w)"

text \<open>
  The part of \<open>irc_init\<close> that builds the target list: \<open>strncat\<close> with \<open>MSGLENMAX\<close> as its limit
  appends up to that many bytes to what is already there; the last statement stores into
  \<open>IRC_CHANNELS[MSGLENMAX]\<close>.
\<close>

definition buf_strncat :: "nat \<Rightarrow> string \<Rightarrow> string \<Rightarrow> nat \<Rightarrow> string option" where
  "buf_strncat sz dst src n =
     (let r = dst @ take n src in if length r < sz then Some r else None)"

fun build_channels :: "string \<Rightarrow> channel_conf list \<Rightarrow> string option" where
  "build_channels buf [] = Some buf"
| "build_channels buf (c # cs) =
     (case buf_strncat MSGLENMAX buf (chan_name c) MSGLENMAX of
        None \<Rightarrow> None
      | Some buf \<Rightarrow>
          if cs = [] then Some buf
          else (case buf_strncat MSGLENMAX buf '','' MSGLENMAX of
                  None \<Rightarrow> None
                | Some buf \<Rightarrow> build_channels buf cs))"

definition irc_init_channels :: "channel_conf list \<Rightarrow> string option" where
  "irc_init_channels cs = do {
     buf \<leftarrow> build_channels [] cs;
     poke (buf @ replicate (MSGLENMAX - length buf) NUL) MSGLENMAX [NUL] }"

text \<open>
  The whole of \<open>irc_init\<close>.  Its surroundings answer: the address of the server (in network
  order, or a failure), the descriptor \<open>socket\<close> returns and the result of \<open>bind\<close>.  Every
  failure ends the program with \<open>exit\<close>.
\<close>

record init_answers =
  ans_resolve :: "uint option"
  ans_socket :: int
  ans_bind :: int

datatype 'w init_result = Exited 'w | Returned 'w

definition INADDR_NONE :: uint where
  "INADDR_NONE = 0xFFFFFFFF"

definition irc_init :: "init_answers \<Rightarrow> 'a net_scheme \<Rightarrow> 'a net_scheme init_result option" where
  "irc_init ans w =
     (let c = IRCItem (cfg w);
          w = (if IRC_FD w \<noteq> 0 then record_event (Closed (IRC_FD w)) w else w)
      in case ans_resolve ans of
           None \<Rightarrow> Some (Exited w)
         | Some irc_host \<Rightarrow>
             if irc_host = INADDR_NONE then Some (Exited w)
             else
               let w = w\<lparr>IRC_FD := ans_socket ans\<rparr> in
               if IRC_FD w = -1 then Some (Exited w)
               else if irc_vhost c \<noteq> [] \<and> sys_pton (envir w) (irc_vhost c) = None then Some (Exited w)
               else if irc_vhost c \<noteq> [] \<and> ans_bind ans \<noteq> 0 then Some (Exited w)
               else (case irc_init_channels (irc_conf_channels c) of
                       None \<Rightarrow> None
                     | Some buf \<Rightarrow> Some (Returned (w\<lparr>IRC_CHANNELS := buffer_string buf\<rparr>))))"

section \<open>Lemmas\<close>

text \<open>What reaches the server for a formatted text.\<close>

definition irc_line :: "string \<Rightarrow> string" where
  "irc_line t = (if length t < 512 then t @ [CHR 0x0A] else take 512 t)"

lemma format_buffer_eq:
  assumes "vformat fmt ap = Some t" "cstring t" "0 < sz"
  shows "format_buffer sz fmt ap = Some (take (sz - 1) t)"
proof -
  obtain str' r where "portable_vsnprintf (replicate sz NUL) sz (Some fmt) ap = Some (str', cint (int (length t)))"
    "str' = take (sz - 1) t @ NUL # r"
    using snprintf_buffer [OF assms(1), of sz "replicate sz NUL"] assms(3) by auto
  moreover have "cstring (take (sz - 1) t)" using assms(2) by simp
  ultimately show ?thesis by (simp add: format_buffer_def buffer_string_def takeWhile_nul)
qed

lemma irc_send_eq:
  assumes "vformat data ap = Some t" "cstring t"
  shows "irc_send data ap w = Some (irc_transmit (irc_line t) w)"
proof -
  have 1: "format_buffer MSGLENMAX data ap = Some (take 512 t)"
    using format_buffer_eq [OF assms] by (simp add: MSGLENMAX_def)
  have "vformat (''%s'' @ [CHR 0x0A]) [Str (take 512 t)] = Some (take 512 t @ [CHR 0x0A])"
    by (simp add: fmt_simps)
  then have "format_buffer MSGLENMAX (''%s'' @ [CHR 0x0A]) [Str (take 512 t)]
      = Some (take 512 (take 512 t @ [CHR 0x0A]))"
    using format_buffer_eq [of "''%s'' @ [CHR 0x0A]" "[Str (take 512 t)]" "take 512 t @ [CHR 0x0A]" MSGLENMAX] assms(2)
    by (simp add: MSGLENMAX_def)
  moreover have "take 512 (take 512 t @ [CHR 0x0A]) = irc_line t" by (auto simp: irc_line_def)
  ultimately show ?thesis using 1 by (simp add: irc_send_def)
qed

lemma irc_transmit_out:
  "\<exists>es. out (irc_transmit s w) = out w @ Sent (IRC_FD w) s # es \<and> set es \<subseteq> {Slept, Closed (IRC_FD w)}"
  by (auto simp: irc_transmit_def irc_reconnect_def record_event_def Let_def)

text \<open>Fields no sending changes.\<close>

lemma irc_reconnect_frame [simp]:
  "clock (irc_reconnect w) = clock w" "envir (irc_reconnect w) = envir w" "cfg (irc_reconnect w) = cfg w"
  "IRC_CHANNELS (irc_reconnect w) = IRC_CHANNELS w" "IRC_LAST (irc_reconnect w) = IRC_LAST w"
  "net.more (irc_reconnect w) = net.more w"
  by (simp_all add: irc_reconnect_def record_event_def Let_def)

lemma irc_transmit_frame [simp]:
  "clock (irc_transmit s w) = clock w" "envir (irc_transmit s w) = envir w" "cfg (irc_transmit s w) = cfg w"
  "IRC_CHANNELS (irc_transmit s w) = IRC_CHANNELS w" "IRC_LAST (irc_transmit s w) = IRC_LAST w"
  "net.more (irc_transmit s w) = net.more w"
  by (simp_all add: irc_transmit_def record_event_def Let_def)

lemma irc_send_frame:
  assumes "irc_send data ap w = Some w'"
  shows "clock w' = clock w" "envir w' = envir w" "cfg w' = cfg w" "IRC_CHANNELS w' = IRC_CHANNELS w"
    "IRC_LAST w' = IRC_LAST w" "net.more w' = net.more w"
  using assms by (auto simp: irc_send_def bind_Some_iff)

text \<open>Sends that all succeed.\<close>

definition sends_fine :: "'a net_scheme \<Rightarrow> bool" where
  "sends_fine w \<longleftrightarrow> (\<forall>t. send_ok (envir w) t)"

definition say :: "string list \<Rightarrow> 'a net_scheme \<Rightarrow> 'a net_scheme" where
  "say ts w = w\<lparr>out := out w @ map (\<lambda>t. Sent (IRC_FD w) (irc_line t)) ts\<rparr>"

lemma irc_send_say:
  "vformat data ap = Some t \<Longrightarrow> cstring t \<Longrightarrow> sends_fine w \<Longrightarrow> irc_send data ap w = Some (say [t] w)"
  by (simp add: irc_send_eq irc_transmit_def record_event_def sends_fine_def say_def)

lemma say_say [simp]: "say us (say ts w) = say (ts @ us) w"
  by (simp add: say_def)

lemma say_Nil [simp]: "say [] w = w"
  by (simp add: say_def)

lemma sends_fine_say [simp]: "sends_fine (say ts w) = sends_fine w"
  by (simp add: sends_fine_def say_def)

lemma say_frame [simp]:
  "clock (say ts w) = clock w" "envir (say ts w) = envir w" "cfg (say ts w) = cfg w" "IRC_FD (say ts w) = IRC_FD w"
  "IRC_CHANNELS (say ts w) = IRC_CHANNELS w" "IRC_LAST (say ts w) = IRC_LAST w"
  "net.more (say ts w) = net.more w"
  by (simp_all add: say_def)

text \<open>Whether a format has its arguments, for strings of any length.\<close>

lemma vformat_None_string [simp]:
  "vformat (CHR ''%'' # CHR ''s'' # p) (ArgStr q # ap) = None \<longleftrightarrow> vformat p ap = None"
proof -
  have "\<exists>ps. directive (CHR ''s'' # p) (ArgStr q # ap) = Some (ps, p, ap)"
    by (cases q) (simp_all add: parse_defs conv_string_def str_arg_len_def)
  then show ?thesis using vformat_directive by fastforce
qed

lemma vformat_None [simp]:
  "vformat [] ap \<noteq> None"
  "c \<noteq> CHR ''%'' \<Longrightarrow> vformat (c # p) ap = None \<longleftrightarrow> vformat p ap = None"
  "vformat (CHR ''%'' # CHR ''d'' # p) (ArgInt n # ap) = None \<longleftrightarrow> vformat p ap = None"
  "vformat (CHR ''%'' # CHR ''u'' # p) (ArgInt n # ap) = None \<longleftrightarrow> vformat p ap = None"
  "vformat (CHR ''%'' # CHR ''.'' # CHR ''2'' # CHR ''f'' # p) ap = None \<longleftrightarrow> vformat p ap = None"
  by (simp_all add: fmt_simps)

lemma format_buffer_total:
  assumes "vformat fmt ap \<noteq> None" "0 < sz"
  shows "\<exists>t. format_buffer sz fmt ap = Some t"
  using assms snprintf_buffer [of fmt ap _ sz "replicate sz NUL"] by (auto simp: format_buffer_def)

lemma irc_send_total:
  assumes "vformat data ap \<noteq> None"
  shows "\<exists>s. irc_send data ap w = Some (irc_transmit s w)"
proof -
  obtain d where d: "format_buffer MSGLENMAX data ap = Some d"
    using format_buffer_total [OF assms, of MSGLENMAX] by (auto simp: MSGLENMAX_def)
  obtain s where "format_buffer MSGLENMAX (''%s'' @ [CHR 0x0A]) [Str d] = Some s"
    using format_buffer_total [of "''%s'' @ [CHR 0x0A]" "[Str d]" MSGLENMAX] by (auto simp: MSGLENMAX_def)
  then show ?thesis using d by (auto simp: irc_send_def)
qed

lemma irc_send_channels_total:
  assumes "vformat data ap \<noteq> None"
  shows "\<exists>s. irc_send_channels data ap w = Some (irc_transmit s w)"
proof -
  obtain d where d: "format_buffer MSGLENMAX data ap = Some d"
    using format_buffer_total [OF assms, of MSGLENMAX] by (auto simp: MSGLENMAX_def)
  obtain t where "format_buffer MSGLENMAX ''PRIVMSG %s :%s'' [Str (IRC_CHANNELS w), Str d] = Some t"
    using format_buffer_total [of "''PRIVMSG %s :%s''" "[Str (IRC_CHANNELS w), Str d]" MSGLENMAX]
    by (auto simp: MSGLENMAX_def)
  then show ?thesis using d irc_send_total [of "''%s''" "[Str t]" w] by (simp add: irc_send_channels_def)
qed

section \<open>Properties\<close>

text \<open>C33: \<open>irc_send\<close> formats in 513 bytes and sends one line: a text of less than 512 characters
  reaches the server unchanged and ended by a newline, a longer one as its first 512 characters
  without a newline; in no case are more than 512 bytes sent.\<close>

theorem irc_send_line:
  assumes "vformat data ap = Some t" "cstring t"
  shows "\<exists>w' es. irc_send data ap w = Some w' \<and> out w' = out w @ Sent (IRC_FD w) (irc_line t) # es \<and>
           set es \<subseteq> {Slept, Closed (IRC_FD w)} \<and> length (irc_line t) \<le> 512 \<and>
           (length t < 512 \<longrightarrow> irc_line t = t @ [CHR 0x0A]) \<and> (512 \<le> length t \<longrightarrow> irc_line t = take 512 t)"
  using irc_send_eq [OF assms, of w] irc_transmit_out [of "irc_line t" w]
  by (auto simp: irc_line_def)

theorem irc_send_line_witness:
  "\<exists>w' es. irc_send ''PONG %s'' [Str ''irc.example.net''] (net_init 0 env_fine config_init_setup) = Some w' \<and>
     out w' = Sent 0 (''PONG irc.example.net'' @ [CHR 0x0A]) # es"
  using irc_send_line [of "''PONG %s''" "[Str ''irc.example.net'']" "''PONG irc.example.net''"
      "net_init 0 env_fine config_init_setup"]
  by (auto simp: fmt_simps net_init_def irc_line_def)

lemma build_channels_fits:
  "build_channels b cs = Some buf \<Longrightarrow> length b < MSGLENMAX \<Longrightarrow> length buf < MSGLENMAX"
  by (induction b cs rule: build_channels.induct)
    (auto simp: buf_strncat_def Let_def split: if_splits option.splits)

lemma irc_init_channels_overflow: "irc_init_channels cs = None"
proof (cases "build_channels [] cs")
  case (Some buf)
  then have "length buf < MSGLENMAX" by (rule build_channels_fits) (simp add: MSGLENMAX_def)
  then show ?thesis using Some by (simp add: irc_init_channels_def poke_def)
qed (simp add: irc_init_channels_def)

text \<open>Whatever the configuration and the answers of the system, \<open>irc_init\<close> never returns
  normally: it ends the program, or it stores one byte behind the end of \<open>IRC_CHANNELS\<close>.  It
  ends the program exactly when the server cannot be resolved, no socket is available or the
  configured local address cannot be used.\<close>

lemma irc_init_overflow:
  "irc_init ans w \<noteq> Some (Returned w') \<and>
   (irc_init ans w = None \<longleftrightarrow>
     (\<exists>a. ans_resolve ans = Some a \<and> a \<noteq> INADDR_NONE) \<and> ans_socket ans \<noteq> -1 \<and>
     (irc_vhost (IRCItem (cfg w)) = [] \<or>
      (\<exists>l. sys_pton (envir w) (irc_vhost (IRCItem (cfg w))) = Some l) \<and> ans_bind ans = 0))"
  by (auto simp: irc_init_def irc_init_channels_overflow record_event_def Let_def split: option.splits)

end
