(* ===== verification/Misc.thy ===== *)
theory Misc
  imports Snprintf
begin

text \<open>
  misc.c: \<open>dissect_time\<close>, which words a duration for the statistics, and \<open>clean\<close>, which
  strips spaces from a string in place.
\<close>

section \<open>Durations\<close>

text \<open>\<open>while (time >= unit) { time -= unit; n++; }\<close> with an \<open>unsigned int\<close> counter.\<close>

function peel :: "int \<Rightarrow> int \<Rightarrow> uint \<Rightarrow> int \<times> uint" where
  "peel unit time n =
     (if 0 < unit \<and> unit \<le> time then peel unit (time - unit) (n + 1) else (time, n))"
  by pat_completeness auto
termination
  by (relation "measure (\<lambda>(unit, time, n). nat time)") auto

declare peel.simps [simp del]

record duration =
  years :: uint
  weeks :: uint
  days :: uint
  hours :: uint
  minutes :: uint
  seconds :: uint

definition split_time :: "int \<Rightarrow> duration" where
  "split_time time =
     (let (time, y) = peel (60 * 60 * 24 * 365) time 0;
          (time, w) = peel (60 * 60 * 24 * 7) time 0;
          (time, d) = peel (60 * 60 * 24) time 0;
          (time, h) = peel (60 * 60) time 0;
          (time, m) = peel 60 time 0
      in \<lparr>years = y, weeks = w, days = d, hours = h, minutes = m, seconds = word_of_int time\<rparr>)"

text \<open>\<open>n == 1 ? "" : "s"\<close>\<close>

definition plural :: "uint \<Rightarrow> arg" where
  "plural n = ArgStr (Some (if n = 1 then [] else ''s''))"

text \<open>The format and the arguments of the \<open>snprintf\<close> call that is made.\<close>

definition duration_call :: "duration \<Rightarrow> string \<times> arg list" where
  "duration_call t =
     (if years t \<noteq> 0 then
        (''%d year%s, %d week%s, %d day%s, %02d:%02d:%02d'',
         [ArgInt (years t), plural (years t), ArgInt (weeks t), plural (weeks t),
          ArgInt (days t), plural (days t), ArgInt (hours t), ArgInt (minutes t), ArgInt (seconds t)])
      else if weeks t \<noteq> 0 then
        (''%d week%s, %d day%s, %02d:%02d:%02d'',
         [ArgInt (weeks t), plural (weeks t), ArgInt (days t), plural (days t),
          ArgInt (hours t), ArgInt (minutes t), ArgInt (seconds t)])
      else if days t \<noteq> 0 then
        (''%d day%s, %02d:%02d:%02d'',
         [ArgInt (days t), plural (days t), ArgInt (hours t), ArgInt (minutes t), ArgInt (seconds t)])
      else if hours t \<noteq> 0 then
        if minutes t \<noteq> 0 \<or> seconds t \<noteq> 0 then
          (''%d hour%s, %d minute%s, %d second%s'',
           [ArgInt (hours t), plural (hours t), ArgInt (minutes t), plural (minutes t),
            ArgInt (seconds t), plural (seconds t)])
        else (''%d hour%s'', [ArgInt (hours t), plural (hours t)])
      else if minutes t \<noteq> 0 then
        (''%d minute%s, %d second%s'',
         [ArgInt (minutes t), plural (minutes t), ArgInt (seconds t), plural (seconds t)])
      else (''%d second%s'', [ArgInt (seconds t), plural (seconds t)]))"

definition dissect_time :: "string \<Rightarrow> int \<Rightarrow> string option" where
  "dissect_time buf time = do {
     let (fmt, ap) = duration_call (split_time time);
     (buf, r) \<leftarrow> portable_snprintf buf 64 (Some fmt) ap;
     Some (buffer_string buf) }"

section \<open>Stripping spaces\<close>

text \<open>One iteration: position, then \<open>fn\<close>, \<open>ln\<close> and \<open>gf\<close>.\<close>

fun clean_loop :: "nat \<Rightarrow> string \<Rightarrow> nat \<times> nat \<times> bool \<Rightarrow> nat \<times> nat \<times> bool" where
  "clean_loop i [] st = st"
| "clean_loop i (c # s) (fn, ln, gf) =
     (let (fn, gf) = (if fn = 0 \<and> c \<noteq> CHR '' '' \<and> \<not> gf then (i, True) else (fn, gf));
          ln = (if c \<noteq> CHR '' '' then i else ln)
      in clean_loop (Suc i) s (fn, ln, gf))"

definition clean :: "string \<Rightarrow> string" where
  "clean str =
     (if length str \<le> 1 then str
      else let (fn, ln, gf) = clean_loop 0 str (0, 0, False) in drop fn (take (ln + 1) str))"

section \<open>Lemmas\<close>

lemma peel_eq:
  assumes "0 < unit" "0 \<le> time"
  shows "peel unit time n = (time mod unit, n + word_of_int (time div unit))"
  using assms
proof (induction unit time n rule: peel.induct)
  case (1 unit time n)
  show ?case
  proof (cases "unit \<le> time")
    case True
    have d: "time div unit = (time - unit) div unit + 1" and m: "time mod unit = (time - unit) mod unit"
      using True 1(2) by (rule div_pos_geq [rotated], rule mod_pos_geq [rotated])
    have "peel unit time n = peel unit (time - unit) (n + 1)"
      using True 1(2) by (subst peel.simps) simp
    also have "\<dots> = ((time - unit) mod unit, n + 1 + word_of_int ((time - unit) div unit))"
      using True 1(2) by (intro 1(1)) simp_all
    finally show ?thesis unfolding d m by (simp add: add_ac)
  next
    case False
    then show ?thesis using 1 by (subst peel.simps) simp
  qed
qed

lemma split_time_eq:
  assumes "0 \<le> time"
  shows "split_time time =
    (let r = time mod 31536000; q = r mod 604800; d = q mod 86400; h = d mod 3600 in
     \<lparr>years = word_of_int (time div 31536000), weeks = word_of_int (r div 604800),
      days = word_of_int (q div 86400), hours = word_of_int (d div 3600),
      minutes = word_of_int (h div 60), seconds = word_of_int (h mod 60)\<rparr>)"
proof -
  have c: "60 * 60 = (3600 :: int)" "3600 * 24 = (86400 :: int)"
    "86400 * 7 = (604800 :: int)" "86400 * 365 = (31536000 :: int)" by simp_all
  show ?thesis
    unfolding split_time_def c Let_def
    by (simp only: peel_eq [OF zero_less_numeral] assms pos_mod_sign [OF zero_less_numeral]
        prod.case add_0_left)
qed

text \<open>What \<open>dissect_time\<close> is meant to say, on natural numbers.\<close>

definition suffix_s :: "nat \<Rightarrow> string" where
  "suffix_s n = (if n = 1 then [] else ''s'')"

definition counted :: "nat \<Rightarrow> string \<Rightarrow> string" where
  "counted n what = num_str 10 False n @ what @ suffix_s n"

definition hhmmss :: "nat \<Rightarrow> nat \<Rightarrow> nat \<Rightarrow> string" where
  "hhmmss h m s = two_digits h @ '':'' @ two_digits m @ '':'' @ two_digits s"

definition duration_text :: "nat \<Rightarrow> nat \<Rightarrow> nat \<Rightarrow> nat \<Rightarrow> nat \<Rightarrow> nat \<Rightarrow> string" where
  "duration_text y w d h m s =
     (if y \<noteq> 0 then counted y '' year'' @ '', '' @ counted w '' week'' @ '', '' @
                     counted d '' day'' @ '', '' @ hhmmss h m s
      else if w \<noteq> 0 then counted w '' week'' @ '', '' @ counted d '' day'' @ '', '' @ hhmmss h m s
      else if d \<noteq> 0 then counted d '' day'' @ '', '' @ hhmmss h m s
      else if h \<noteq> 0 then
        if m \<noteq> 0 \<or> s \<noteq> 0
        then counted h '' hour'' @ '', '' @ counted m '' minute'' @ '', '' @ counted s '' second''
        else counted h '' hour''
      else if m \<noteq> 0 then counted m '' minute'' @ '', '' @ counted s '' second''
      else counted s '' second'')"

definition words :: "nat \<Rightarrow> nat \<Rightarrow> nat \<Rightarrow> nat \<Rightarrow> nat \<Rightarrow> nat \<Rightarrow> duration" where
  "words y w d h m s = \<lparr>years = of_nat y, weeks = of_nat w, days = of_nat d, hours = of_nat h,
                        minutes = of_nat m, seconds = of_nat s\<rparr>"

lemma sint_small: "n < 2 ^ 31 \<Longrightarrow> sint (of_nat n :: uint) = int n"
  by (simp add: sint_word_ariths signed_of_nat signed_take_bit_int_eq_self)

lemma of_nat_eq_small:
  "n < 2 ^ 31 \<Longrightarrow> (of_nat n :: uint) = 0 \<longleftrightarrow> n = 0"
  "n < 2 ^ 31 \<Longrightarrow> (of_nat n :: uint) = 1 \<longleftrightarrow> n = 1"
  using sint_small [of n] sint_small [of 0] sint_small [of 1] by auto

lemma length_num2: "n < 100 \<Longrightarrow> length (num_str 10 u n) \<le> 2"
  using num_str_length [of n 10 1 u] by simp

lemma length_num10: "n < 2 ^ 31 \<Longrightarrow> length (num_str 10 u n) \<le> 10"
  using num_str_length [of n 10 9 u] by simp

lemma length_two_digits: "n < 100 \<Longrightarrow> length (two_digits n) \<le> 2"
  using length_num2 [of n False] num_str_small [of n False] by (simp add: two_digits_def)

lemma num_str_cstring: "cstring (num_str 10 u n)"
  using num_str_digits [of NUL u n] by (auto simp: cstring_def)

lemma length_counted: "length (counted n what) \<le> length (num_str 10 False n) + length what + 1"
  by (simp add: counted_def suffix_s_def)

lemma length_hhmmss: "h < 100 \<Longrightarrow> m < 100 \<Longrightarrow> s < 100 \<Longrightarrow> length (hhmmss h m s) \<le> 8"
  using length_two_digits [of h] length_two_digits [of m] length_two_digits [of s]
  by (simp add: hhmmss_def)

lemma duration_text_length:
  assumes "y < 2 ^ 31" "w < 100" "d < 100" "h < 100" "m < 100" "s < 100"
  shows "length (duration_text y w d h m s) < 64"
proof -
  have "length (counted y '' year'') \<le> 16" "length (counted w '' week'') \<le> 8"
    "length (counted d '' day'') \<le> 7" "length (counted h '' hour'') \<le> 8"
    "length (counted m '' minute'') \<le> 10" "length (counted s '' second'') \<le> 10"
    using length_counted [of y "'' year''"] length_counted [of w "'' week''"]
      length_counted [of d "'' day''"] length_counted [of h "'' hour''"]
      length_counted [of m "'' minute''"] length_counted [of s "'' second''"]
      length_num10 [OF assms(1), of False] length_num2 [OF assms(2), of False]
      length_num2 [OF assms(3), of False] length_num2 [OF assms(4), of False]
      length_num2 [OF assms(5), of False] length_num2 [OF assms(6), of False]
    by simp_all
  then show ?thesis using length_hhmmss [OF assms(4-6)] by (auto simp: duration_text_def)
qed

lemma duration_text_cstring: "cstring (duration_text y w d h m s)"
  by (simp add: duration_text_def counted_def hhmmss_def two_digits_def suffix_s_def num_str_cstring)

lemma vformat_duration:
  assumes "y < 2 ^ 31" "w < 100" "d < 100" "h < 100" "m < 100" "s < 100"
    and "duration_call (words y w d h m s) = (fmt, ap)"
  shows "vformat fmt ap = Some (duration_text y w d h m s)"
proof -
  have i: "int_str (int n) = num_str 10 False n" for n by (simp add: int_str_def)
  have b: "w < 2 ^ 31" "d < 2 ^ 31" "h < 2 ^ 31" "m < 2 ^ 31" "s < 2 ^ 31" using assms by simp_all
  have p: "plural (of_nat n) = ArgStr (Some (suffix_s n))" if "n < 2 ^ 31" for n
    using of_nat_eq_small(2) [OF that] by (simp add: plural_def suffix_s_def)
  have l: "length (suffix_s n) < 2147483648" for n by (simp add: suffix_s_def)
  note sm = sint_small [OF assms(1)] of_nat_eq_small(1) [OF assms(1)] p [OF assms(1)]
    b [THEN sint_small] b [THEN of_nat_eq_small(1)] b [THEN p]
  note eval = duration_call_def words_def duration_text_def counted_def hhmmss_def fmt_simps sm i l
  consider "y \<noteq> 0" | "y = 0" "w \<noteq> 0" | "y = 0" "w = 0" "d \<noteq> 0"
    | "y = 0" "w = 0" "d = 0" "h \<noteq> 0" "m \<noteq> 0 \<or> s \<noteq> 0"
    | "y = 0" "w = 0" "d = 0" "h \<noteq> 0" "m = 0" "s = 0"
    | "y = 0" "w = 0" "d = 0" "h = 0" "m \<noteq> 0" | "y = 0" "w = 0" "d = 0" "h = 0" "m = 0"
    by blast
  then show ?thesis using assms(7)
    by cases (auto simp: eval)
qed

lemma split_time_words:
  assumes "0 \<le> time"
  shows "split_time time =
    (let r = time mod 31536000; q = r mod 604800; d = q mod 86400; h = d mod 3600 in
     words (nat (time div 31536000)) (nat (r div 604800)) (nat (q div 86400)) (nat (d div 3600))
       (nat (h div 60)) (nat (h mod 60)))"
  using assms by (simp add: split_time_eq words_def Let_def)

lemma dissect_time_text:
  assumes "y < 2 ^ 31" "w < 100" "d < 100" "h < 100" "m < 100" "s < 100" "length buf = 64"
    and "split_time time = words y w d h m s"
  shows "dissect_time buf time = Some (duration_text y w d h m s)"
proof -
  obtain fmt ap where c: "duration_call (words y w d h m s) = (fmt, ap)"
    by (cases "duration_call (words y w d h m s)")
  have "vformat fmt ap = Some (duration_text y w d h m s)"
    by (rule vformat_duration [OF assms(1-6) c])
  from snprintf_buffer [OF this, of 64 buf] assms(7) obtain buf' r n where
    "portable_vsnprintf buf 64 (Some fmt) ap = Some (buf', n)"
    "buf' = take 63 (duration_text y w d h m s) @ NUL # r"
    by auto
  then show ?thesis
    using c assms(8) duration_text_length [OF assms(1-6)] duration_text_cstring [of y w d h m s]
    by (simp add: dissect_time_def portable_snprintf_def buffer_string_def takeWhile_nul)
qed

subsection \<open>Stripping\<close>

definition strip :: "string \<Rightarrow> string" where
  "strip s = rev (dropWhile (\<lambda>c. c = CHR '' '') (rev (dropWhile (\<lambda>c. c = CHR '' '') s)))"

lemma clean_loop_append:
  "clean_loop i (s @ t) st = clean_loop (i + length s) t (clean_loop i s st)"
  by (induction s arbitrary: i st) (simp, case_tac st, simp add: Let_def)

lemma clean_loop_spaces:
  "\<forall>c \<in> set s. c = CHR '' '' \<Longrightarrow> clean_loop i s (0, 0, False) = (0, 0, False)"
  by (induction s arbitrary: i) auto

lemma clean_loop_strip:
  assumes "\<exists>c \<in> set s. c \<noteq> CHR '' ''"
  shows "\<exists>fn ln. clean_loop 0 s (0, 0, False) = (fn, ln, True) \<and> ln < length s \<and> fn \<le> ln \<and>
           drop fn (take (ln + 1) s) = strip s \<and> fn = length (takeWhile (\<lambda>c. c = CHR '' '') s)"
  using assms
proof (induction s rule: rev_induct)
  case (snoc c s)
  let ?sp = "\<lambda>c. c = CHR '' ''"
  show ?case
  proof (cases "\<exists>c \<in> set s. c \<noteq> CHR '' ''")
    case True
    then obtain fn ln where IH: "clean_loop 0 s (0, 0, False) = (fn, ln, True)" "ln < length s"
      "fn \<le> ln" "drop fn (take (ln + 1) s) = strip s" "fn = length (takeWhile ?sp s)"
      using snoc.IH by blast
    obtain x where x: "x \<in> set s" "\<not> ?sp x" using True by blast
    have w: "takeWhile ?sp (s @ [c]) = takeWhile ?sp s" "dropWhile ?sp (s @ [c]) = dropWhile ?sp s @ [c]"
      using takeWhile_append1 [of x s ?sp] dropWhile_append1 [of x s ?sp] x by blast+
    have d: "drop fn s = dropWhile ?sp s" unfolding IH(5) by (simp add: dropWhile_eq_drop)
    show ?thesis
    proof (cases "?sp c")
      case True
      then have "strip (s @ [c]) = strip s" unfolding strip_def w by simp
      then show ?thesis using IH True w by (simp add: clean_loop_append)
    next
      case False
      then have "strip (s @ [c]) = dropWhile ?sp s @ [c]" unfolding strip_def w by simp
      then show ?thesis using IH False w d by (simp add: clean_loop_append)
    qed
  next
    case False
    then have c: "c \<noteq> CHR '' ''" and a: "\<forall>c \<in> set s. c = CHR '' ''" using snoc.prems by auto
    have "takeWhile ?sp (s @ [c]) = s" "dropWhile ?sp (s @ [c]) = [c]"
      using a c by auto
    then show ?thesis using c clean_loop_spaces [OF a, of 0]
      by (simp add: clean_loop_append strip_def)
  qed
qed simp

lemma div_less_bound: "(a :: int) < b * k \<Longrightarrow> 0 < b \<Longrightarrow> a div b < k"
proof (rule ccontr)
  assume a: "a < b * k" "0 < b" "\<not> a div b < k"
  then have "b * k \<le> b * (a div b)" by simp
  also have "\<dots> \<le> a" using a(2) by (metis le_add_same_cancel1 mult_div_mod_eq pos_mod_sign)
  finally show False using a(1) by simp
qed

lemma sum_parts:
  "(t :: int) = A + a \<Longrightarrow> a = B + b \<Longrightarrow> b = C + c \<Longrightarrow> c = D + d \<Longrightarrow> d = E + e \<Longrightarrow>
   t = A + B + C + D + E + e"
  by simp

lemma time_parts:
  assumes "0 \<le> time" "time < 31536000 * 2 ^ 31"
  obtains y w d h m s :: int where
    "time = 31536000 * y + 604800 * w + 86400 * d + 3600 * h + 60 * m + s"
    "0 \<le> y" "0 \<le> w" "0 \<le> d" "0 \<le> h" "0 \<le> m" "y < 2 ^ 31" "w < 53" "d < 7" "h < 24" "m < 60"
    "0 \<le> s" "s < 60" "split_time time = words (nat y) (nat w) (nat d) (nat h) (nat m) (nat s)"
proof -
  define a where "a = time mod 31536000"
  define b where "b = a mod 604800"
  define c where "c = b mod 86400"
  define e where "e = c mod 3600"
  have r: "0 \<le> a" "a < 31536000" "0 \<le> b" "b < 604800" "0 \<le> c" "c < 86400" "0 \<le> e" "e < 3600"
    "0 \<le> e mod 60" "e mod 60 < 60"
    unfolding a_def b_def c_def e_def by (rule pos_mod_sign pos_mod_bound, simp)+
  have eq: "time = 31536000 * (time div 31536000) + a" "a = 604800 * (a div 604800) + b"
    "b = 86400 * (b div 86400) + c" "c = 3600 * (c div 3600) + e" "e = 60 * (e div 60) + e mod 60"
    unfolding a_def b_def c_def e_def by (rule mult_div_mod_eq [symmetric])+
  have sp: "split_time time = words (nat (time div 31536000)) (nat (a div 604800))
      (nat (b div 86400)) (nat (c div 3600)) (nat (e div 60)) (nat (e mod 60))"
    using split_time_words [OF assms(1)] by (simp only: Let_def a_def b_def c_def e_def)
  have lt: "time div 31536000 < 2 ^ 31" "a div 604800 < 53" "b div 86400 < 7" "c div 3600 < 24"
    "e div 60 < 60"
    by (rule div_less_bound; use r assms(2) in simp)+
  have ge: "0 \<le> time div 31536000" "0 \<le> a div 604800" "0 \<le> b div 86400" "0 \<le> c div 3600" "0 \<le> e div 60"
    using r assms(1) by (simp_all only: pos_imp_zdiv_nonneg_iff zero_less_numeral)
  have "time = 31536000 * (time div 31536000) + 604800 * (a div 604800) + 86400 * (b div 86400) +
      3600 * (c div 3600) + 60 * (e div 60) + e mod 60"
    by (rule sum_parts [OF eq])
  then show thesis using ge lt r(9,10) sp by (rule that)
qed

section \<open>Properties\<close>

text \<open>C29: \<open>dissect_time\<close> splits a duration of less than \<open>2 ^ 31\<close> years exactly: the parts add up to
  the duration, every part but the years stays below its unit, and the text names them without
  being cut off by the 64-byte buffer.\<close>

theorem dissect_time_correct:
  assumes "0 \<le> time" "time < 31536000 * 2 ^ 31" "length buf = 64"
  shows "\<exists>y w d h m s. time = 31536000 * int y + 604800 * int w + 86400 * int d + 3600 * int h + 60 * int m + int s \<and>
           w \<le> 52 \<and> d < 7 \<and> h < 24 \<and> m < 60 \<and> s < 60 \<and>
           dissect_time buf time = Some (duration_text y w d h m s)"
proof -
  obtain y w d h m s :: int where p:
    "time = 31536000 * y + 604800 * w + 86400 * d + 3600 * h + 60 * m + s"
    "0 \<le> y" "0 \<le> w" "0 \<le> d" "0 \<le> h" "0 \<le> m" "y < 2 ^ 31" "w < 53" "d < 7" "h < 24" "m < 60"
    "0 \<le> s" "s < 60" "split_time time = words (nat y) (nat w) (nat d) (nat h) (nat m) (nat s)"
    by (rule time_parts [OF assms(1,2)])
  have n: "nat y < 2 ^ 31" "nat w < 100" "nat d < 100" "nat h < 100" "nat m < 100" "nat s < 100"
    using p(2-13) by simp_all
  have "dissect_time buf time = Some (duration_text (nat y) (nat w) (nat d) (nat h) (nat m) (nat s))"
    by (rule dissect_time_text [OF n assms(3) p(14)])
  moreover have "time = 31536000 * int (nat y) + 604800 * int (nat w) + 86400 * int (nat d) +
      3600 * int (nat h) + 60 * int (nat m) + int (nat s)"
    using p(1) by (simp only: nat_0_le p(2-6,12))
  moreover have "nat w \<le> 52" "nat d < 7" "nat h < 24" "nat m < 60" "nat s < 60"
    using p(8-11,13) by simp_all
  ultimately show ?thesis by blast
qed

theorem dissect_time_correct_witness:
  "\<exists>y w d h m s. 90061 = 31536000 * int y + 604800 * int w + 86400 * int d + 3600 * int h + 60 * int m + int s \<and>
     w \<le> 52 \<and> d < 7 \<and> h < 24 \<and> m < 60 \<and> s < 60 \<and>
     dissect_time (replicate 64 NUL) 90061 = Some (duration_text y w d h m s)"
  by (rule dissect_time_correct) simp_all

text \<open>\<open>clean\<close> of a string of at least two characters that is not all spaces is the string
  without its leading and trailing spaces; a string of two or more spaces becomes one space.\<close>

lemma clean_correct:
  assumes "2 \<le> length s"
  shows "clean s = (if \<exists>c \<in> set s. c \<noteq> CHR '' '' then strip s else '' '')"
proof (cases "\<exists>c \<in> set s. c \<noteq> CHR '' ''")
  case True
  then show ?thesis using clean_loop_strip [OF True] assms by (auto simp: clean_def)
next
  case False
  then have "take (Suc 0) s = '' ''" using assms by (cases s) auto
  then show ?thesis using False assms clean_loop_spaces [of s 0] by (auto simp: clean_def)
qed

end
