(* ===== verification/Stats.thy ===== *)
theory Stats
  imports Net Misc
begin

text \<open>
  stats.c: the counters and their report.  A blacklist is named by its position in the
  configuration, since its structure carries its own counter.
\<close>

record stats = net +
  STATS_UPTIME :: int
  STATS_CONNECTIONS :: uint
  STATS_DNSBLSENT :: uint
  STATS_PROXIES :: "(opm_type \<times> uint \<times> string) list"

definition proxies_table :: "(opm_type \<times> uint \<times> string) list" where
  "proxies_table =
     [(OPM_TYPE_HTTP, 0, ''HTTP''), (OPM_TYPE_HTTPPOST, 0, ''HTTPPOST''), (OPM_TYPE_SOCKS4, 0, ''SOCKS4''),
      (OPM_TYPE_SOCKS5, 0, ''SOCKS5''), (OPM_TYPE_ROUTER, 0, ''ROUTER''), (OPM_TYPE_WINGATE, 0, ''WINGATE'')]"

text \<open>The initial values of the globals.\<close>

definition stats_globals :: "int \<Rightarrow> env \<Rightarrow> conf \<Rightarrow> stats" where
  "stats_globals now e c = net.extend (net_init now e c) (stats.fields 0 0 0 proxies_table)"

definition stats_init :: "'a stats_scheme \<Rightarrow> 'a stats_scheme" where
  "stats_init w = w\<lparr>STATS_UPTIME := clock w\<rparr>"

definition stats_openproxy :: "opm_type \<Rightarrow> 'a stats_scheme \<Rightarrow> 'a stats_scheme" where
  "stats_openproxy type w =
     w\<lparr>STATS_PROXIES := map (\<lambda>(t, n, name). if t = type then (t, n + 1, name) else (t, n, name)) (STATS_PROXIES w)\<rparr>"

definition stats_connect :: "'a stats_scheme \<Rightarrow> 'a stats_scheme" where
  "stats_connect w = w\<lparr>STATS_CONNECTIONS := STATS_CONNECTIONS w + 1\<rparr>"

definition stats_dnsblsend :: "'a stats_scheme \<Rightarrow> 'a stats_scheme" where
  "stats_dnsblsend w = w\<lparr>STATS_DNSBLSENT := STATS_DNSBLSENT w + 1\<rparr>"

definition blacklists :: "'a net_scheme \<Rightarrow> blacklist_conf list" where
  "blacklists w = opm_blacklists (OpmItem (cfg w))"

definition stats_dnsblrecv :: "nat \<Rightarrow> 'a stats_scheme \<Rightarrow> 'a stats_scheme" where
  "stats_dnsblrecv i w =
     (let bls = blacklists w; bl = bls ! i in
      w\<lparr>cfg := (cfg w)\<lparr>OpmItem := (OpmItem (cfg w))\<lparr>opm_blacklists := bls[i := bl\<lparr>bl_stats_recv := bl_stats_recv bl + 1\<rparr>]\<rparr>\<rparr>\<rparr>)"

section \<open>The report\<close>

fun stats_bl_lines :: "string \<Rightarrow> blacklist_conf list \<Rightarrow> 'a stats_scheme \<Rightarrow> 'a stats_scheme option" where
  "stats_bl_lines target [] w = Some w"
| "stats_bl_lines target (bl # bls) w = do {
     w \<leftarrow> (if bl_stats_recv bl > 0 then
             irc_send ''PRIVMSG %s :DNSBL: %u successful lookups from %s''
               [Str target, ArgInt (bl_stats_recv bl), Str (bl_name bl)] w
           else Some w);
     stats_bl_lines target bls w }"

fun stats_proxy_lines ::
  "string \<Rightarrow> (opm_type \<times> uint \<times> string) list \<Rightarrow> 'a stats_scheme \<Rightarrow> 'a stats_scheme option" where
  "stats_proxy_lines target [] w = Some w"
| "stats_proxy_lines target ((t, n, name) # ps) w = do {
     w \<leftarrow> (if n > 0 then irc_send ''PRIVMSG %s :Found %u (%s) open.'' [Str target, ArgInt n, Str name] w
           else Some w);
     stats_proxy_lines target ps w }"

definition stats_output :: "string \<Rightarrow> 'a stats_scheme \<Rightarrow> 'a stats_scheme option" where
  "stats_output target w = do {
     let uptime = clock w - STATS_UPTIME w;
     text \<leftarrow> dissect_time (replicate 64 NUL) uptime;
     w \<leftarrow> irc_send ''PRIVMSG %s :Uptime: %s'' [Str target, Str text] w;
     w \<leftarrow> stats_bl_lines target (blacklists w) w;
     w \<leftarrow> (if STATS_DNSBLSENT w > 0 then
             irc_send ''PRIVMSG %s :DNSBL: %u reports sent'' [Str target, ArgInt (STATS_DNSBLSENT w)] w
           else Some w);
     w \<leftarrow> stats_proxy_lines target (STATS_PROXIES w) w;
     irc_send ''PRIVMSG %s :Number of connects: %u (%.2f/minute)''
       [Str target, ArgInt (STATS_CONNECTIONS w), ArgDouble] w }"

section \<open>Descriptors\<close>

text \<open>What \<open>dup\<close> answers: a positive descriptor (which is closed again), or an error.  When
  it returns the descriptor 0, the code looks at an \<open>errno\<close> that was not set by the call; that
  answer is one of the errors here.  \<open>dup_ret k i\<close> is the answer to the \<open>k\<close>-th call, made for
  the descriptor \<open>i\<close>.\<close>

datatype dup_result = Dup | Emfile | Ebadf | Eintr | Dup_error

text \<open>The loop; \<open>fuel\<close> bounds the number of calls, since an interrupted call is repeated.\<close>

fun fdstats_loop :: "nat \<Rightarrow> (nat \<Rightarrow> nat \<Rightarrow> dup_result) \<Rightarrow> nat \<Rightarrow> nat \<Rightarrow> nat \<Rightarrow> nat \<Rightarrow> nat option" where
  "fdstats_loop 0 dup_ret lim k i tot = None"
| "fdstats_loop (Suc fuel) dup_ret lim k i tot =
     (if \<not> i < lim then Some tot
      else (case dup_ret k i of
              Dup \<Rightarrow> fdstats_loop fuel dup_ret lim (k + 1) (i + 1) (tot + 1)
            | Emfile \<Rightarrow> fdstats_loop fuel dup_ret lim (k + 1) (lim + 1) lim
            | Ebadf \<Rightarrow> fdstats_loop fuel dup_ret lim (k + 1) (i + 1) tot
            | Eintr \<Rightarrow> fdstats_loop fuel dup_ret lim (k + 1) i tot
            | Dup_error \<Rightarrow> fdstats_loop fuel dup_ret lim (k + 1) (i + 1) tot))"

text \<open>\<open>rlim\<close> is the limit, or \<open>None\<close> with the error text when \<open>getrlimit\<close> fails.\<close>

definition fdstats_output ::
  "nat \<Rightarrow> (nat \<Rightarrow> nat \<Rightarrow> dup_result) \<Rightarrow> string + uint \<Rightarrow> string \<Rightarrow> 'a stats_scheme \<Rightarrow> 'a stats_scheme option" where
  "fdstats_output fuel dup_ret rlim target w =
     (case rlim of
        Inl err \<Rightarrow> irc_send ''PRIVMSG %s :FDSTAT -> getrlimit() error retrieving RLIMIT_NOFILE (%s)'' [Str target, Str err] w
      | Inr lim \<Rightarrow> do {
          tot \<leftarrow> fdstats_loop fuel dup_ret (unat lim) 0 0 0;
          irc_send ''PRIVMSG %s :Total open FD: %u/%d'' [Str target, ArgInt (of_nat tot), ArgInt lim] w })"

section \<open>Lemmas\<close>

text \<open>The texts of the report.\<close>

definition bl_texts :: "string \<Rightarrow> blacklist_conf list \<Rightarrow> string list" where
  "bl_texts target bls =
     map (\<lambda>bl. ''PRIVMSG '' @ target @ '' :DNSBL: '' @ num_str 10 False (unat (bl_stats_recv bl)) @
               '' successful lookups from '' @ bl_name bl)
       (filter (\<lambda>bl. bl_stats_recv bl > 0) bls)"

definition proxy_texts :: "string \<Rightarrow> (opm_type \<times> uint \<times> string) list \<Rightarrow> string list" where
  "proxy_texts target ps =
     map (\<lambda>(t, n, name). ''PRIVMSG '' @ target @ '' :Found '' @ num_str 10 False (unat n) @ '' ('' @ name @ '') open.'')
       (filter (\<lambda>(t, n, name). n > 0) ps)"

definition short :: "string \<Rightarrow> bool" where
  "short s \<longleftrightarrow> cstring s \<and> length s < 2 ^ 31"

lemma shortD: "short s \<Longrightarrow> cstring s" "short s \<Longrightarrow> length s < 2147483648"
  by (simp_all add: short_def)

lemmas send_simps = fmt_simps shortD num_str_cstring

lemma say_more [simp]:
  "STATS_UPTIME (say ts w) = STATS_UPTIME w" "STATS_CONNECTIONS (say ts w) = STATS_CONNECTIONS w"
  "STATS_DNSBLSENT (say ts w) = STATS_DNSBLSENT w" "STATS_PROXIES (say ts w) = STATS_PROXIES w"
  "blacklists (say ts w) = blacklists w"
  by (simp_all add: say_def blacklists_def)

lemma stats_bl_lines_say:
  assumes "short target" "sends_fine w" "\<forall>bl \<in> set bls. short (bl_name bl)"
  shows "stats_bl_lines target bls w = Some (say (bl_texts target bls) w)"
  using assms
proof (induction bls arbitrary: w)
  case (Cons bl bls)
  then have "irc_send ''PRIVMSG %s :DNSBL: %u successful lookups from %s''
      [Str target, ArgInt (bl_stats_recv bl), Str (bl_name bl)] w =
      Some (say [''PRIVMSG '' @ target @ '' :DNSBL: '' @ num_str 10 False (unat (bl_stats_recv bl)) @
               '' successful lookups from '' @ bl_name bl] w)"
    by (intro irc_send_say) (simp_all add: send_simps)
  then show ?case using Cons by (simp add: bl_texts_def)
qed (simp add: bl_texts_def)

lemma stats_proxy_lines_say:
  assumes "short target" "sends_fine w" "\<forall>(t, n, name) \<in> set ps. short name"
  shows "stats_proxy_lines target ps w = Some (say (proxy_texts target ps) w)"
  using assms
proof (induction ps arbitrary: w)
  case (Cons p ps)
  obtain t n name where p: "p = (t, n, name)" by (cases p)
  have "irc_send ''PRIVMSG %s :Found %u (%s) open.'' [Str target, ArgInt n, Str name] w =
      Some (say [''PRIVMSG '' @ target @ '' :Found '' @ num_str 10 False (unat n) @ '' ('' @ name @ '') open.''] w)"
    using Cons.prems by (intro irc_send_say) (simp_all add: send_simps p)
  then show ?case using Cons p by (simp add: proxy_texts_def)
qed (simp add: proxy_texts_def)

lemma fdstats_loop_count:
  assumes "\<forall>j. i \<le> j \<and> j < lim \<longrightarrow> dup_ret j j \<in> {Dup, Ebadf, Dup_error}" "i \<le> lim" "lim - i < fuel"
  shows "fdstats_loop fuel dup_ret lim i i tot = Some (tot + card {j. i \<le> j \<and> j < lim \<and> dup_ret j j = Dup})"
  using assms
proof (induction fuel arbitrary: i tot)
  case (Suc fuel)
  show ?case
  proof (cases "i < lim")
    case True
    let ?S = "\<lambda>i. {j. i \<le> j \<and> j < lim \<and> dup_ret j j = Dup}"
    have S: "?S i = (if dup_ret i i = Dup then insert i (?S (i + 1)) else ?S (i + 1))"
      using True by (auto simp: Suc_le_eq dest: le_neq_implies_less)
    have f: "finite (?S (i + 1))" "i \<notin> ?S (i + 1)" by (simp_all)
    have IH: "fdstats_loop fuel dup_ret lim (i + 1) (i + 1) t = Some (t + card (?S (i + 1)))" for t
      using Suc.prems True by (intro Suc.IH) auto
    have "dup_ret i i \<in> {Dup, Ebadf, Dup_error}" using Suc.prems True by blast
    then show ?thesis using True IH S f by auto
  next
    case False
    then have "{j. i \<le> j \<and> j < lim \<and> dup_ret j j = Dup} = {}" by auto
    then show ?thesis using False by simp
  qed
qed simp

section \<open>Properties\<close>



text \<open>When no call is interrupted and the descriptor table is not full, \<open>fdstats_output\<close>
  counts exactly the descriptors that can be duplicated.\<close>

lemma fdstats_counts_open:
  assumes "\<forall>j < lim. dup_ret j j \<in> {Dup, Ebadf, Dup_error}"
  shows "fdstats_loop (lim + 1) dup_ret lim 0 0 0 = Some (card {j. j < lim \<and> dup_ret j j = Dup})"
  using fdstats_loop_count [of 0 lim dup_ret "lim + 1" 0] assms by simp

end
