(* ===== verification/Firedns.thy ===== *)
theory Firedns
  imports Stats Inet
begin

text \<open>
  firedns.c: the resolver.  A datagram is the list of its bytes, as characters.  The list of
  open queries holds the structures themselves; \<open>c_key\<close> is the address of a structure and
  stands for its identity.  The code that is compiled only for IPv6 is left out.
\<close>

unbundle bit_operations_syntax

section \<open>Constants and state\<close>

definition FDNS_MAX :: nat where "FDNS_MAX = 8"
definition FDNS_TIMEOUT :: int where "FDNS_TIMEOUT = 5"
definition FDNS_QRY_A :: nat where "FDNS_QRY_A = 1"
definition FDNS_ERR_NONE :: nat where "FDNS_ERR_NONE = 0"
definition FDNS_ERR_FORMAT :: nat where "FDNS_ERR_FORMAT = 1"
definition FDNS_ERR_NXDOMAIN :: nat where "FDNS_ERR_NXDOMAIN = 3"
definition FDNS_ERR_TIMEOUT :: nat where "FDNS_ERR_TIMEOUT = 6"
definition FDNS_ERR_NETWORK :: nat where "FDNS_ERR_NETWORK = 7"
definition FDNS_ERR_FDLIMIT :: nat where "FDNS_ERR_FDLIMIT = 8"
definition FDNS_ERR_OTHER :: nat where "FDNS_ERR_OTHER = 9"
definition FIREDNS_TRIES :: nat where "FIREDNS_TRIES = 3"

lemmas fdns_consts = FDNS_ERR_NONE_def FDNS_ERR_FORMAT_def FDNS_ERR_NXDOMAIN_def FDNS_ERR_TIMEOUT_def
  FDNS_ERR_NETWORK_def FDNS_ERR_FDLIMIT_def FDNS_ERR_OTHER_def

record s_connection =
  c_key :: nat
  c_id :: string
  c_class :: nat
  c_type :: nat
  c_fd :: int
  c_info :: ptr
  c_start :: int
  c_lookup :: string

record fdns = stats +
  servers4 :: "uchar list list"
  CONNECTIONS :: "s_connection list"
  conn_brk :: nat
  fdns_errno :: nat
  fdns_fdinuse :: uint

record firedns_result =
  r_text :: string
  r_lookup :: string
  r_info :: ptr

definition fdns_globals :: "int \<Rightarrow> env \<Rightarrow> conf \<Rightarrow> fdns" where
  "fdns_globals now e c = stats.extend (stats_globals now e c) (fdns.fields [] [] 1 FDNS_ERR_NONE 0)"

text \<open>\<open>strncpy\<close> into a buffer of \<open>n\<close> bytes, and the string a buffer holds, if it is
  terminated.\<close>

definition strncpy_buf :: "nat \<Rightarrow> string \<Rightarrow> string" where
  "strncpy_buf n s = take n (s @ replicate n NUL)"

definition read_cstr :: "string \<Rightarrow> string option" where
  "read_cstr buf = (if NUL \<in> set buf then Some (buffer_string buf) else None)"

text \<open>Two bytes in network order.\<close>

definition htons_bytes :: "nat \<Rightarrow> string" where
  "htons_bytes n = [char_of (n div 256), char_of n]"

definition ntohs_at :: "string \<Rightarrow> nat \<Rightarrow> nat" where
  "ntohs_at b i = 256 * of_char (b ! i) + of_char (b ! (i + 1))"

text \<open>\<open>firedns_strerror\<close>; the table has ten entries.\<close>

definition errors :: "string list" where
  "errors = [''Success'', ''Format error'', ''Server failure'', ''Name error'', ''Not implemented'',
     ''Refused'', ''Timeout'', ''Network error'', ''FD Limit reached'', ''Unknown error'']"

definition firedns_strerror :: "nat \<Rightarrow> 'a net_scheme \<Rightarrow> string option" where
  "firedns_strerror err w =
     (if err = FDNS_ERR_NETWORK then Some (sys_error (envir w) (out w))
      else if err < length errors then Some (errors ! err) else None)"

section \<open>Initialisation\<close>

text \<open>The lines of the configuration file, cut to what \<open>fgets\<close> returns.\<close>

definition add_server :: "uchar list option \<Rightarrow> uchar list list \<Rightarrow> uchar list list" where
  "add_server a srv =
     (if length srv < FDNS_MAX then (case a of None \<Rightarrow> srv | Some x \<Rightarrow> srv @ [x]) else srv)"

fun resolv_lines :: "env \<Rightarrow> string list \<Rightarrow> uchar list list \<Rightarrow> uchar list list" where
  "resolv_lines e [] srv = srv"
| "resolv_lines e (buf # bufs) srv =
     resolv_lines e bufs
       (if take 10 buf = ''nameserver''
        then add_server (sys_aton e (dropWhile (\<lambda>c. c = CHR '' '' \<or> c = CHR 0x09) (drop 10 buf))) srv
        else srv)"

fun pref_lines :: "env \<Rightarrow> string list \<Rightarrow> uchar list list \<Rightarrow> uchar list list" where
  "pref_lines e [] srv = srv"
| "pref_lines e (buf # bufs) srv =
     pref_lines e bufs (add_server (sys_pton e (takeWhile (\<lambda>c. c \<in> set ''0123456789.'') buf)) srv)"

text \<open>\<open>pref\<close> and \<open>fbck\<close> are the contents of the two files, if they can be opened.  The program
  ends when a file was read and no server was found.\<close>

definition firedns_init ::
  "string list option \<Rightarrow> string list option \<Rightarrow> 'a fdns_scheme \<Rightarrow> 'a fdns_scheme init_result" where
  "firedns_init pref fbck w =
     (let w = w\<lparr>servers4 := [], CONNECTIONS := []\<rparr> in
      case pref of
        Some ls \<Rightarrow>
          let w = w\<lparr>servers4 := pref_lines (envir w) ls []\<rparr> in
          if servers4 w = [] then Exited w else Returned w
      | None \<Rightarrow>
          (case fbck of
             None \<Rightarrow> Returned w
           | Some ls \<Rightarrow>
               let w = w\<lparr>servers4 := resolv_lines (envir w) ls []\<rparr> in
               if servers4 w = [] then Exited w else Returned w))"

section \<open>Sending a query\<close>

text \<open>
  \<open>firedns_build_query_payload\<close> splits the name at its dots.  The result is \<open>None\<close> when a
  store leaves the 512 bytes of the payload, \<open>Some None\<close> for the result -1.
\<close>

lemma strchr_shorter: "strchr s c = Some t \<Longrightarrow> length (tl t) < length s"
  using strchr_Some [of s c t] by (cases t) auto

function build_labels :: "string \<Rightarrow> nat \<Rightarrow> string \<Rightarrow> (nat \<times> string \<times> string) option option" where
  "build_labels name pos payload =
     (case strchr name (CHR ''.'') of
        None \<Rightarrow> Some (Some (pos, name, payload))
      | Some t \<Rightarrow>
          let l = (length name - length t) mod 2 ^ 16 in
          if pos + l + 1 > 507 then Some None
          else (case poke payload pos [char_of l] of
                  None \<Rightarrow> None
                | Some payload \<Rightarrow>
                    (case poke payload (pos + 1) (take l name) of
                       None \<Rightarrow> None
                     | Some payload \<Rightarrow> build_labels (tl t) (pos + 1 + l) payload)))"
  by pat_completeness auto
termination
  by (relation "measure (\<lambda>(name, _). length name)") (auto dest: strchr_shorter)

declare build_labels.simps [simp del]

definition firedns_build_query_payload ::
  "string \<Rightarrow> nat \<Rightarrow> nat \<Rightarrow> string \<Rightarrow> (nat \<times> string) option option" where
  "firedns_build_query_payload name rr class payload =
     (case build_labels name 0 payload of
        None \<Rightarrow> None
      | Some None \<Rightarrow> Some None
      | Some (Some (pos, name, payload)) \<Rightarrow>
          let l = length name mod 2 ^ 16 in
          if l \<noteq> 0 \<and> pos + l + 2 > 507 then Some None
          else (case (if l \<noteq> 0 then do {
                        payload \<leftarrow> poke payload pos [char_of l];
                        payload \<leftarrow> poke payload (pos + 1) (take l name);
                        payload \<leftarrow> poke payload (pos + 1 + l) [NUL];
                        Some (pos + l + 2, payload) }
                      else Some (pos, payload)) of
                  None \<Rightarrow> None
                | Some (pos, payload) \<Rightarrow>
                    if pos > 508 then Some None
                    else do {
                      payload \<leftarrow> poke payload pos (htons_bytes rr);
                      payload \<leftarrow> poke payload (pos + 2) (htons_bytes class);
                      Some (Some (pos + 4, payload)) }))"

text \<open>One datagram for each server.\<close>

fun send_servers :: "int \<Rightarrow> string \<Rightarrow> uchar list list \<Rightarrow> 'a net_scheme \<Rightarrow> bool \<times> 'a net_scheme" where
  "send_servers fd packet [] w = (False, w)"
| "send_servers fd packet (a # srv) w =
     (let ok = dns_sendto (envir w) (out w);
          (sent_ok, w) = send_servers fd packet srv (record_event (Dns_sent fd a packet) w)
      in (ok \<or> sent_ok, w))"

definition firedns_send_requests ::
  "string \<Rightarrow> s_connection \<Rightarrow> nat \<Rightarrow> 'a fdns_scheme \<Rightarrow> (int \<times> s_connection) \<times> 'a fdns_scheme" where
  "firedns_send_requests payload s l w =
     (let packet = c_id s @ [CHR 0x01, NUL] @ htons_bytes 1 @ htons_bytes 0 @ htons_bytes 0 @ htons_bytes 0 @
                   take l payload;
          fd = dns_socket (envir w) (out w);
          usable = fd \<noteq> -1 \<and> dns_fcntl (envir w) (out w) \<and> dns_bind (envir w) (out w);
          w = record_event (Dns_socket fd) w;
          w = (if fd \<noteq> -1 \<and> \<not> usable then record_event (Dns_closed fd) w else w)
      in if \<not> usable then ((-1, s\<lparr>c_fd := -1\<rparr>), w\<lparr>fdns_errno := FDNS_ERR_NETWORK\<rparr>)
         else
           let (sent_ok, w) = send_servers fd packet (servers4 w) w in
           if \<not> sent_ok then
             ((-1, s\<lparr>c_fd := -1\<rparr>), (record_event (Dns_closed fd) w)\<lparr>fdns_errno := FDNS_ERR_NETWORK\<rparr>)
           else
             ((fd, s\<lparr>c_fd := fd, c_start := clock w\<rparr>),
              w\<lparr>fdns_fdinuse := fdns_fdinuse w + 1, fdns_errno := FDNS_ERR_NONE\<rparr>))"

definition firedns_doquery ::
  "s_connection \<Rightarrow> 'a fdns_scheme \<Rightarrow> ((int \<times> s_connection) \<times> 'a fdns_scheme) option" where
  "firedns_doquery s w = do {
     name \<leftarrow> read_cstr (c_lookup s);
     r \<leftarrow> firedns_build_query_payload name (c_type s) 1 (replicate 512 NUL);
     case r of
       None \<Rightarrow> Some ((-1, s), w\<lparr>fdns_errno := FDNS_ERR_FORMAT\<rparr>)
     | Some (l, payload) \<Rightarrow> Some (firedns_send_requests payload s l w) }"

definition firedns_add_query :: "'a fdns_scheme \<Rightarrow> s_connection \<times> 'a fdns_scheme" where
  "firedns_add_query w =
     (let a = rnd (envir w) (out w); w = record_event Drew w;
          b = rnd (envir w) (out w); w = record_event Drew w
      in (\<lparr>c_key = conn_brk w, c_id = [char_of (a mod 255), char_of (b mod 255)], c_class = 0, c_type = 0,
           c_fd = -1, c_info = NULL, c_start = 0, c_lookup = replicate 256 NUL\<rparr>,
          w\<lparr>conn_brk := conn_brk w + 1\<rparr>))"

definition firedns_getip :: "nat \<Rightarrow> string \<Rightarrow> ptr \<Rightarrow> 'a fdns_scheme \<Rightarrow> (int \<times> 'a fdns_scheme) option" where
  "firedns_getip type name info w =
     (let (s, w) = firedns_add_query w;
          s = s\<lparr>c_class := 1, c_type := type, c_lookup := strncpy_buf 256 name, c_info := info\<rparr>
      in if unat (fdns_fdinuse w) \<ge> opt_dns_fdlimit (OptionsItem (cfg w)) then
           let w = w\<lparr>fdns_errno := FDNS_ERR_FDLIMIT\<rparr> in
           Some (-1, if info = NULL then w else w\<lparr>CONNECTIONS := CONNECTIONS w @ [s]\<rparr>)
         else do {
           ((fd, s), w) \<leftarrow> firedns_doquery s w;
           if fd = -1 then Some (-1, w)
           else Some (fd, w\<lparr>CONNECTIONS := CONNECTIONS w @ [s]\<rparr>) })"

section \<open>Reading an answer\<close>

text \<open>The byte of a received payload; only bytes that were received are looked at.\<close>

function skip_queries :: "string \<Rightarrow> nat \<Rightarrow> nat \<Rightarrow> nat \<Rightarrow> nat" where
  "skip_queries payload qdcount q i =
     (if q < qdcount \<and> i < length payload then
        if of_char (payload ! i) > (63 :: nat) then skip_queries payload qdcount (q + 1) (i + 6)
        else if payload ! i = NUL then skip_queries payload qdcount (q + 1) (i + 5)
        else skip_queries payload qdcount q (i + of_char (payload ! i) + 1)
      else i)"
  by pat_completeness auto
termination
  by (relation "measure (\<lambda>(payload, qdcount, q, i). length payload - i)") auto

function skip_name :: "string \<Rightarrow> nat \<Rightarrow> nat" where
  "skip_name payload i =
     (if i < length payload then
        if of_char (payload ! i) > (63 :: nat) then i + 2
        else if payload ! i = NUL then i + 1
        else skip_name payload (i + of_char (payload ! i) + 1)
      else i)"
  by pat_completeness auto
termination
  by (relation "measure (\<lambda>(payload, i). length payload - i)") auto

declare skip_queries.simps [simp del] skip_name.simps [simp del]

text \<open>
  The loop over the answers; \<open>n\<close> answers are left.  The record is copied with the size of the
  structure, which is 12 and not 10: \<open>None\<close> when that leaves the 512 bytes of the buffer.
  \<open>Some None\<close> is the jump to \<open>cleanup\<close>.
\<close>

fun find_answer :: "string \<Rightarrow> nat \<Rightarrow> nat \<Rightarrow> nat \<Rightarrow> nat \<Rightarrow> (nat \<times> nat) option option" where
  "find_answer payload type class 0 i = Some None"
| "find_answer payload type class (Suc n) i =
     (let i = skip_name payload i in
      if int (length payload) - int i < 10 then Some None
      else if i + 12 > 512 then None
      else
        let rdlength = ntohs_at payload (i + 8); rtype = ntohs_at payload i; rclass = ntohs_at payload (i + 2) in
        if rtype \<noteq> type \<or> rclass \<noteq> class then find_answer payload type class n (i + 10 + rdlength)
        else Some (Some (i + 10, rdlength)))"

datatype answer = Keep | Finish nat string

text \<open>What \<open>firedns_getresult\<close> makes of the received bytes: it keeps the query when the
  identification does not match, otherwise it finishes it with an error number and a text.\<close>

definition parse_answer :: "s_connection \<Rightarrow> string \<Rightarrow> answer option" where
  "parse_answer c h =
     (if length h < 12 then Some (Finish FDNS_ERR_OTHER [])
      else if take 2 h \<noteq> c_id c then Some Keep
      else if of_char (h ! 2) AND 0x80 = (0 :: nat) then Some (Finish FDNS_ERR_OTHER [])
      else if of_char (h ! 2) AND 0x78 \<noteq> (0 :: nat) then Some (Finish FDNS_ERR_OTHER [])
      else if of_char (h ! 3) AND 0x0F \<noteq> (0 :: nat) then Some (Finish (of_char (h ! 3) AND 0x0F) [])
      else if ntohs_at h 6 < 1 then Some (Finish FDNS_ERR_NXDOMAIN [])
      else
        let payload = drop 12 h; i = skip_queries payload (ntohs_at h 4) 0 0 in
        (case find_answer payload (c_type c) (c_class c) (ntohs_at h 6) i of
           None \<Rightarrow> None
         | Some None \<Rightarrow> Some (Finish FDNS_ERR_OTHER [])
         | Some (Some (i, rdlength)) \<Rightarrow>
             if i + rdlength > length payload then Some (Finish FDNS_ERR_OTHER [])
             else if rdlength > 1023 then Some (Finish FDNS_ERR_OTHER [])
             else Some (Finish FDNS_ERR_NONE (take rdlength (drop i payload)))))"

definition conn_remove :: "nat \<Rightarrow> s_connection list \<Rightarrow> s_connection list" where
  "conn_remove k cs = filter (\<lambda>c. c_key c \<noteq> k) cs"

text \<open>
  \<open>firedns_getresult\<close>.  The variable \<open>c\<close> is not initialised when the list is empty.  The
  result \<open>None\<close> inside stands for the NULL the function returns when it keeps the query.
\<close>

definition firedns_getresult :: "int \<Rightarrow> 'a fdns_scheme \<Rightarrow> (firedns_result option \<times> 'a fdns_scheme) option" where
  "firedns_getresult fd w =
     (if CONNECTIONS w = [] then None
      else let w = w\<lparr>fdns_errno := FDNS_ERR_OTHER\<rparr> in
      case find (\<lambda>c. c_fd c = fd) (CONNECTIONS w) of
        None \<Rightarrow> Some (Some \<lparr>r_text = replicate 1024 NUL, r_lookup = replicate 256 NUL, r_info = NULL\<rparr>, w)
      | Some c \<Rightarrow>
          let h = dns_recv (envir w) (out w); w = record_event (Dns_recv fd) w in
          do {
            a \<leftarrow> (case h of None \<Rightarrow> Some (Finish FDNS_ERR_NETWORK []) | Some h \<Rightarrow> parse_answer c h);
            case a of
              Keep \<Rightarrow> Some (None, w)
            | Finish err text \<Rightarrow>
                let w = w\<lparr>fdns_errno := err, CONNECTIONS := conn_remove (c_key c) (CONNECTIONS w)\<rparr>;
                    w = (record_event (Dns_closed (c_fd c)) w)\<lparr>fdns_fdinuse := fdns_fdinuse w - 1\<rparr>
                in Some (Some \<lparr>r_text = text @ replicate (1024 - length text) NUL, r_lookup = c_lookup c,
                               r_info = c_info c\<rparr>, w) })"

section \<open>Blocking queries\<close>

fun resolve_tries :: "nat \<Rightarrow> nat \<Rightarrow> string \<Rightarrow> 'a fdns_scheme \<Rightarrow> (string option \<times> 'a fdns_scheme) option" where
  "resolve_tries 0 type name w =
     Some (None, if fdns_errno w = FDNS_ERR_NONE then w\<lparr>fdns_errno := FDNS_ERR_TIMEOUT\<rparr> else w)"
| "resolve_tries (Suc t) type name w = do {
     (fd, w) \<leftarrow> firedns_getip type name NULL w;
     if fd = -1 then Some (None, w)
     else do {
       (result, w) \<leftarrow> firedns_getresult fd w;
       if fdns_errno w = FDNS_ERR_NONE then do { r \<leftarrow> result; Some (Some (r_text r), w) }
       else if fdns_errno w = FDNS_ERR_NXDOMAIN then Some (None, w)
       else resolve_tries t type name w } }"

definition firedns_resolveip :: "nat \<Rightarrow> string \<Rightarrow> 'a fdns_scheme \<Rightarrow> (string option \<times> 'a fdns_scheme) option" where
  "firedns_resolveip type name w = resolve_tries FIREDNS_TRIES type name w"

text \<open>The address is read from the first four bytes of the text.\<close>

definition firedns_resolveip4 :: "string \<Rightarrow> 'a fdns_scheme \<Rightarrow> (uchar list option \<times> 'a fdns_scheme) option" where
  "firedns_resolveip4 name w =
     (case sys_aton (envir w) name of
        Some addr \<Rightarrow> Some (Some addr, w)
      | None \<Rightarrow> do {
          (text, w) \<leftarrow> firedns_resolveip FDNS_QRY_A name w;
          Some (map_option (\<lambda>t. map of_char (take 4 t)) text, w) })"

section \<open>The cycle\<close>

text \<open>
  \<open>firedns_cycle\<close> hands each finished query to \<open>dnsbl_result\<close>, which is the argument
  \<open>handle\<close> here.  Its loops save the next node before they work on a node; they walk the nodes
  that were in the list when they began, and a node that is gone when its turn comes would be a
  dangling pointer.
\<close>

definition conn_find :: "nat \<Rightarrow> 'a fdns_scheme \<Rightarrow> s_connection option" where
  "conn_find k w = find (\<lambda>c. c_key c = k) (CONNECTIONS w)"

definition conn_update :: "s_connection \<Rightarrow> 'a fdns_scheme \<Rightarrow> 'a fdns_scheme" where
  "conn_update s w = w\<lparr>CONNECTIONS := map (\<lambda>c. if c_key c = c_key s then s else c) (CONNECTIONS w)\<rparr>"

text \<open>A query that has timed out is removed before its result is handed on.\<close>

definition conn_timeout ::
  "(firedns_result \<Rightarrow> 'a fdns_scheme \<Rightarrow> 'a fdns_scheme option) \<Rightarrow> s_connection \<Rightarrow> 'a fdns_scheme \<Rightarrow> 'a fdns_scheme option" where
  "conn_timeout handle p w =
     (let w = w\<lparr>CONNECTIONS := conn_remove (c_key p) (CONNECTIONS w)\<rparr>;
          new_result = \<lparr>r_text = replicate 1024 NUL, r_lookup = c_lookup p, r_info = c_info p\<rparr>;
          w = record_event (Dns_closed (c_fd p)) w;
          w = w\<lparr>fdns_fdinuse := fdns_fdinuse w - 1, fdns_errno := FDNS_ERR_TIMEOUT\<rparr>
      in if r_info new_result \<noteq> NULL then handle new_result w else Some w)"

fun cycle_timeouts ::
  "(firedns_result \<Rightarrow> 'a fdns_scheme \<Rightarrow> 'a fdns_scheme option) \<Rightarrow> nat list \<Rightarrow> int list \<Rightarrow> 'a fdns_scheme
   \<Rightarrow> (int list \<times> 'a fdns_scheme) option" where
  "cycle_timeouts handle [] ufds w = Some (ufds, w)"
| "cycle_timeouts handle (k # ks) ufds w =
     (case conn_find k w of
        None \<Rightarrow> None
      | Some p \<Rightarrow>
          if length ufds \<ge> opt_dns_fdlimit (OptionsItem (cfg w)) then Some (ufds, w)
          else if c_fd p < 0 then cycle_timeouts handle ks ufds w
          else if c_fd p > 0 \<and> c_start p + FDNS_TIMEOUT < clock w then do {
            w \<leftarrow> conn_timeout handle p w;
            cycle_timeouts handle ks ufds w }
          else cycle_timeouts handle ks (ufds @ [c_fd p]) w)"

definition conn_ready ::
  "(firedns_result \<Rightarrow> 'a fdns_scheme \<Rightarrow> 'a fdns_scheme option) \<Rightarrow> s_connection \<Rightarrow> 'a fdns_scheme \<Rightarrow> 'a fdns_scheme option" where
  "conn_ready handle p w = do {
     (res, w) \<leftarrow> firedns_getresult (c_fd p) w;
     case res of
       None \<Rightarrow> Some w
     | Some r \<Rightarrow> if r_info r \<noteq> NULL then handle r w else Some w }"

fun cycle_answers ::
  "(firedns_result \<Rightarrow> 'a fdns_scheme \<Rightarrow> 'a fdns_scheme option) \<Rightarrow> nat list \<Rightarrow> int list \<Rightarrow> 'a fdns_scheme
   \<Rightarrow> 'a fdns_scheme option" where
  "cycle_answers handle [] ready w = Some w"
| "cycle_answers handle (k # ks) ready w =
     (case conn_find k w of
        None \<Rightarrow> None
      | Some p \<Rightarrow>
          do {
            w \<leftarrow> (if c_fd p > 0 then
                    if c_fd p \<in> set ready then conn_ready handle p w else Some w
                  else if unat (fdns_fdinuse w) < opt_dns_fdlimit (OptionsItem (cfg w)) then
                    do { ((fd, p), w) \<leftarrow> firedns_doquery p w; Some (conn_update p w) }
                  else Some w);
            cycle_answers handle ks ready w })"

definition firedns_cycle ::
  "(firedns_result \<Rightarrow> 'a fdns_scheme \<Rightarrow> 'a fdns_scheme option) \<Rightarrow> 'a fdns_scheme \<Rightarrow> 'a fdns_scheme option" where
  "firedns_cycle handle w =
     (if CONNECTIONS w = [] then Some w
      else do {
        (ufds, w) \<leftarrow> cycle_timeouts handle (map c_key (CONNECTIONS w)) [] w;
        let ready = filter (\<lambda>fd. fd \<in> set ufds) (dns_poll (envir w) (out w));
        let w = record_event (Polled ufds) w;
        if ready = [] then Some w
        else cycle_answers handle (map c_key (CONNECTIONS w)) ready w })"

section \<open>Lemmas\<close>

text \<open>The encoding of a name: its labels with their lengths in front.\<close>

definition labels_enc :: "string list \<Rightarrow> string" where
  "labels_enc ls = concat (map (\<lambda>l. char_of (length l) # l) ls)"

lemma labels_enc_simps [simp]:
  "labels_enc [] = []" "labels_enc (l # ls) = char_of (length l) # l @ labels_enc ls"
  by (simp_all add: labels_enc_def)

lemma poke_poke:
  assumes "pos + length a + length b \<le> length p"
  shows "\<exists>q. poke p pos a = Some q \<and> length q = length p \<and>
    poke q (pos + length a) b = Some (take pos p @ a @ b @ drop (pos + length a + length b) p)"
proof -
  have "drop (length b + (pos + length a)) p = drop (pos + length a + length b) p" by (metis add.commute)
  then show ?thesis using assms by (simp add: poke_def)
qed

lemma poke_length: "poke p pos a = Some q \<Longrightarrow> length q = length p"
  by (auto simp: poke_def split: if_splits)

lemma build_labels_none:
  "CHR ''.'' \<notin> set x \<Longrightarrow> build_labels x pos p = Some (Some (pos, x, p))"
  by (subst build_labels.simps) (simp add: strchr_None [THEN iffD2])

lemma build_labels_step:
  assumes "CHR ''.'' \<notin> set l" "pos + length l + 1 \<le> 507" "length p = 512"
  shows "build_labels (l @ CHR ''.'' # r) pos p =
     build_labels r (pos + 1 + length l) (take pos p @ char_of (length l) # l @ drop (pos + 1 + length l) p)"
proof -
  obtain q where q: "poke p pos [char_of (length l)] = Some q"
    "poke q (pos + 1) l = Some (take pos p @ [char_of (length l)] @ l @ drop (pos + 1 + length l) p)"
    using poke_poke [of pos "[char_of (length l)]" l p] assms(2,3) by auto
  have s: "strchr (l @ CHR ''.'' # r) (CHR ''.'') = Some (CHR ''.'' # r)" using assms(1) by (rule strchr_append)
  show ?thesis using assms(2) q s by (subst build_labels.simps) (simp add: Let_def)
qed

lemma build_labels_dots:
  assumes "\<forall>l \<in> set (ls @ [x]). CHR ''.'' \<notin> set l" "pos + length (labels_enc ls) \<le> 507" "length p = 512"
  shows "build_labels (dots (ls @ [x])) pos p =
     Some (Some (pos + length (labels_enc ls), x, take pos p @ labels_enc ls @ drop (pos + length (labels_enc ls)) p))"
  using assms
proof (induction ls arbitrary: pos p)
  case Nil
  then show ?case by (simp add: build_labels_none)
next
  case (Cons l ls)
  let ?p = "take pos p @ char_of (length l) # l @ drop (pos + 1 + length l) p"
  obtain y ys where y: "ls @ [x] = y # ys" by (cases "ls @ [x]") auto
  have "build_labels (dots (l # ls @ [x])) pos p = build_labels (dots (ls @ [x])) (pos + 1 + length l) ?p"
    using build_labels_step [of l pos p "dots (ls @ [x])"] Cons.prems y by simp
  also have "\<dots> = Some (Some (pos + 1 + length l + length (labels_enc ls), x,
      take (pos + 1 + length l) ?p @ labels_enc ls @ drop (pos + 1 + length l + length (labels_enc ls)) ?p))"
    using Cons.prems by (intro Cons.IH) simp_all
  finally show ?case using Cons.prems(2,3) by (simp add: min_absorb2 ac_simps)
qed

lemma build_labels_safe:
  "length p = 512 \<Longrightarrow> pos \<le> 507 \<Longrightarrow>
   build_labels name pos p = Some None \<or>
   (\<exists>pos' x p'. build_labels name pos p = Some (Some (pos', x, p')) \<and> pos' \<le> 507 \<and> length p' = 512)"
proof (induction name pos p rule: build_labels.induct)
  case (1 name pos p)
  show ?case
  proof (cases "strchr name (CHR ''.'')")
    case None
    then show ?thesis using "1.prems" by (subst (1 2) build_labels.simps) simp
  next
    case (Some t)
    define l where "l = (length name - length t) mod 65536"
    show ?thesis
    proof (cases "pos + l + 1 > 507")
      case True
      then have "build_labels name pos p = Some None"
        using Some by (subst build_labels.simps) (simp add: l_def Let_def)
      then show ?thesis ..
    next
      case False
      have len: "length (take l name) = l" using strchr_Some [OF Some] l_def by auto
      obtain q q' where q: "poke p pos [char_of l] = Some q" "poke q (pos + 1) (take l name) = Some q'"
        "length q = 512" "length q' = 512"
        using poke_poke [of pos "[char_of l]" "take l name" p] False "1.prems" len poke_length by (fastforce simp del: length_take)
      have "build_labels name pos p = build_labels (tl t) (pos + 1 + l) q'"
        using Some False q by (subst build_labels.simps) (simp add: l_def Let_def)
      then show ?thesis using "1.IH" [of t l q q'] Some False q l_def by simp
    qed
  qed
qed

text \<open>Reading the labels back.\<close>

function decode_labels :: "string \<Rightarrow> string list" where
  "decode_labels [] = []"
| "decode_labels (n # r) =
     (if n = NUL then [] else take (of_char n) r # decode_labels (drop (of_char n) r))"
  by pat_completeness auto
termination
  by (relation "measure length") auto

lemma char_of_not_NUL: "0 < (n :: nat) \<Longrightarrow> n < 256 \<Longrightarrow> (char_of n :: char) \<noteq> NUL"
proof
  assume n: "0 < n" "n < 256" "(char_of n :: char) = NUL"
  have "(of_char (char_of n :: char) :: nat) = of_char NUL" by (simp only: n(3))
  then show False using n(1,2) by simp
qed

lemma decode_labels_enc:
  "\<forall>l \<in> set ls. l \<noteq> [] \<and> length l < 256 \<Longrightarrow> decode_labels (labels_enc ls @ NUL # r) = ls"
proof (induction ls)
  case (Cons l ls)
  have n: "of_char (char_of (length l) :: char) = length l" using Cons.prems by simp
  have "(char_of (length l) :: char) \<noteq> NUL" using Cons.prems by (intro char_of_not_NUL) auto
  then show ?case using Cons n by simp
qed simp

lemma htons_bytes_length [simp]: "length (htons_bytes n) = 2"
  by (simp add: htons_bytes_def)

lemma poke_append:
  assumes "poke p pos (a @ b) = Some r"
  shows "\<exists>q. poke p pos a = Some q \<and> length q = length p \<and> poke q (pos + length a) b = Some r"
proof -
  have l: "pos + length (a @ b) = pos + length a + length b" by simp
  have le: "pos + length (a @ b) \<le> length p" using assms by (simp only: poke_def option.distinct split: if_splits)
  then have "r = take pos p @ (a @ b) @ drop (pos + length a + length b) p"
    using assms poke_at [OF le] unfolding l by (simp only: option.inject)
  then show ?thesis using poke_poke [of pos a b p] le l by (metis append_assoc)
qed

lemma query_payload_enc:
  assumes "\<forall>l \<in> set (ls @ [x]). CHR ''.'' \<notin> set l" "x \<noteq> []" "length (labels_enc (ls @ [x])) \<le> 506" "length p = 512"
  shows "\<exists>p'. firedns_build_query_payload (dots (ls @ [x])) rr cls p = Some (Some (length (labels_enc (ls @ [x])) + 5, p')) \<and>
    take (length (labels_enc (ls @ [x])) + 5) p' = labels_enc (ls @ [x]) @ [NUL] @ htons_bytes rr @ htons_bytes cls"
proof -
  let ?e = "labels_enc ls" let ?pos = "length ?e" let ?l = "length x"
  let ?all = "[char_of ?l] @ x @ [NUL] @ htons_bytes rr @ htons_bytes cls"
  have e: "labels_enc (ls @ [x]) = ?e @ char_of ?l # x" by (simp add: labels_enc_def)
  then have len: "?pos + ?l \<le> 505" using assms(3) by simp
  define q where "q = ?e @ drop ?pos p"
  have q: "length q = 512" "take ?pos q = ?e" using assms(4) len by (simp_all add: q_def)
  have 1: "build_labels (dots (ls @ [x])) 0 p = Some (Some (?pos, x, q))"
    using build_labels_dots [of ls x 0 p] assms(1,4) len by (simp add: q_def)
  obtain r z where r: "poke q ?pos ?all = Some r" "r = ?e @ ?all @ z"
    using poke_at [of ?pos ?all q] q len by simp
  obtain q1 where q1: "poke q ?pos [char_of ?l] = Some q1"
      "poke q1 (?pos + 1) (x @ [NUL] @ htons_bytes rr @ htons_bytes cls) = Some r"
    using poke_append [OF r(1)] by auto
  obtain q2 where q2: "poke q1 (?pos + 1) x = Some q2"
      "poke q2 (?pos + 1 + ?l) ([NUL] @ htons_bytes rr @ htons_bytes cls) = Some r"
    using poke_append [OF q1(2)] by blast
  obtain q3 where q3: "poke q2 (?pos + 1 + ?l) [NUL] = Some q3"
      "poke q3 (?pos + ?l + 2) (htons_bytes rr @ htons_bytes cls) = Some r"
    using poke_append [OF q2(2)] by auto
  obtain q4 where q4: "poke q3 (?pos + ?l + 2) (htons_bytes rr) = Some q4"
      "poke q4 (?pos + ?l + 2 + 2) (htons_bytes cls) = Some r"
    using poke_append [OF q3(2)] by auto
  have n: "length x mod 65536 = length x" using len by simp
  have "firedns_build_query_payload (dots (ls @ [x])) rr cls p = Some (Some (?pos + ?l + 2 + 4, r))"
    using 1 n assms(2) len q1(1) q2(1) q3(1) q4
    by (simp add: firedns_build_query_payload_def Let_def)
  moreover have "take (length (labels_enc (ls @ [x])) + 5) r = labels_enc (ls @ [x]) @ [NUL] @ htons_bytes rr @ htons_bytes cls"
    (is "_ = ?u")
  proof -
    have "r = ?u @ z" "length ?u = length (labels_enc (ls @ [x])) + 5" using e r(2) by simp_all
    then show ?thesis by (metis append_eq_conv_conj)
  qed
  ultimately show ?thesis using e by (intro exI [of _ r]) simp
qed

lemma poke_total: "k + length b \<le> length p \<Longrightarrow> \<exists>q. poke p k b = Some q \<and> length q = length p"
  by (simp add: poke_def)

lemma query_payload_tail:
  assumes "length p = 512" "k \<le> 508"
  shows "do { q \<leftarrow> poke p k (htons_bytes rr); q \<leftarrow> poke q (k + 2) (htons_bytes cls); Some (Some (k + 4, q)) } \<noteq> None"
proof -
  obtain q where q: "poke p k (htons_bytes rr) = Some q" "length q = 512"
    using poke_total [of k "htons_bytes rr" p] assms by auto
  obtain r where "poke q (k + 2) (htons_bytes cls) = Some r"
    using poke_total [of "k + 2" "htons_bytes cls" q] q(2) assms(2) by auto
  then show ?thesis using q(1) by simp
qed

lemma query_payload_last:
  assumes "length q = 512" "l = length (take l x)" "pos + l + 2 \<le> 507"
  shows "\<exists>q'. do { q \<leftarrow> poke q pos [char_of l]; q \<leftarrow> poke q (pos + 1) (take l x);
                 q \<leftarrow> poke q (pos + 1 + l) [NUL]; Some (pos + l + 2, q) } = Some (pos + l + 2, q') \<and> length q' = 512"
proof -
  obtain q1 where q1: "poke q pos [char_of l] = Some q1" "length q1 = 512"
    using poke_total [of pos "[char_of l]" q] assms by auto
  obtain q2 where q2: "poke q1 (pos + 1) (take l x) = Some q2" "length q2 = 512"
    using poke_total [of "pos + 1" "take l x" q1] assms(2,3) q1(2) by auto
  obtain q3 where q3: "poke q2 (pos + 1 + l) [NUL] = Some q3" "length q3 = 512"
    using poke_total [of "pos + 1 + l" "[NUL]" q2] assms(3) q2(2) by auto
  show ?thesis using q1(1) q2(1) q3 by simp
qed

lemma query_payload_total:
  assumes "length p = 512"
  shows "firedns_build_query_payload name rr cls p \<noteq> None"
proof -
  consider "build_labels name 0 p = Some None"
    | pos x q where "build_labels name 0 p = Some (Some (pos, x, q))" "pos \<le> 507" "length q = 512"
    using build_labels_safe [OF assms, of 0 name] by auto
  then show ?thesis
  proof cases
    case 2
    define l where "l = length x mod 65536"
    have t: "l = length (take l x)" by (simp add: l_def)
    consider "l = 0" | "l \<noteq> 0" "pos + l + 2 > 507" | "l \<noteq> 0" "pos + l + 2 \<le> 507" by linarith
    then show ?thesis
    proof cases
      case 1
      then show ?thesis using \<open>build_labels name 0 p = _\<close> \<open>pos \<le> 507\<close> query_payload_tail [OF 2(3), of pos rr cls]
        by (simp add: firedns_build_query_payload_def Let_def l_def)
    next
      case 2
      then show ?thesis using \<open>build_labels name 0 p = _\<close>
        by (simp add: firedns_build_query_payload_def Let_def l_def)
    next
      case 3
      obtain q' where q': "do { q \<leftarrow> poke q pos [char_of l]; q \<leftarrow> poke q (pos + 1) (take l x);
                 q \<leftarrow> poke q (pos + 1 + l) [NUL]; Some (pos + l + 2, q) } = Some (pos + l + 2, q')" "length q' = 512"
        using query_payload_last [OF 2(3) t 3(2)] by blast
      then show ?thesis
        using \<open>build_labels name 0 p = _\<close> 3 query_payload_tail [OF q'(2), of "pos + l + 2" rr cls]
        by (simp add: firedns_build_query_payload_def Let_def l_def)
    qed
  qed (simp add: firedns_build_query_payload_def)
qed

text \<open>Skipping names ends, and moves forward.\<close>

lemma skip_name_label:
  assumes "i < length payload" "payload ! i = char_of n" "0 < n" "n < 64"
  shows "skip_name payload i = skip_name payload (i + n + 1)"
  using assms char_of_not_NUL [of n] by (subst skip_name.simps) auto

lemma skip_queries_done: "skip_queries payload n n i = i"
  by (subst skip_queries.simps) simp

lemma skip_queries_labels:
  assumes "\<forall>l \<in> set ls. l \<noteq> [] \<and> length l < 64"
  shows "skip_queries (pre @ labels_enc ls @ NUL # r) 1 0 (length pre) = length pre + length (labels_enc ls) + 5"
  using assms
proof (induction ls arbitrary: pre)
  case Nil
  then show ?case by (subst skip_queries.simps) (simp add: skip_queries_done nth_append)
next
  case (Cons l ls)
  let ?pre = "pre @ char_of (length l) # l"
  have n: "of_char (char_of (length l) :: char) = length l" "(char_of (length l) :: char) \<noteq> NUL"
    using Cons.prems char_of_not_NUL [of "length l"] by auto
  have "skip_queries (pre @ labels_enc (l # ls) @ NUL # r) 1 0 (length pre) =
      skip_queries (pre @ labels_enc (l # ls) @ NUL # r) 1 0 (length pre + length l + 1)"
    using Cons.prems n by (subst skip_queries.simps) (simp add: nth_append)
  then show ?case using Cons.IH [of ?pre] Cons.prems by simp
qed

lemma find_answer_safe:
  "length payload \<le> 510 \<Longrightarrow> find_answer payload type cls n i \<noteq> None"
  by (induction payload type cls n i rule: find_answer.induct) (auto simp: Let_def)

section \<open>The open queries\<close>

text \<open>What the resolver leaves alone.\<close>

definition fdns_frame :: "'a fdns_scheme \<Rightarrow> 'a fdns_scheme \<Rightarrow> bool" where
  "fdns_frame w w' \<longleftrightarrow> w' = w\<lparr>out := out w', CONNECTIONS := CONNECTIONS w', conn_brk := conn_brk w',
     fdns_errno := fdns_errno w', fdns_fdinuse := fdns_fdinuse w'\<rparr>"

lemma fdns_frame_fields:
  assumes "fdns_frame w w'"
  shows "clock w' = clock w" "envir w' = envir w" "cfg w' = cfg w" "servers4 w' = servers4 w"
    "IRC_FD w' = IRC_FD w" "IRC_LASTRECONNECT w' = IRC_LASTRECONNECT w" "IRC_LAST w' = IRC_LAST w"
    "IRC_CHANNELS w' = IRC_CHANNELS w" "STATS_UPTIME w' = STATS_UPTIME w" "STATS_CONNECTIONS w' = STATS_CONNECTIONS w"
    "STATS_DNSBLSENT w' = STATS_DNSBLSENT w" "STATS_PROXIES w' = STATS_PROXIES w" "fdns.more w' = fdns.more w"
  by (subst assms [unfolded fdns_frame_def]; simp)+

lemma fdns_frame_refl [simp]: "fdns_frame w w"
  by (simp add: fdns_frame_def)

lemma fdns_frame_trans:
  assumes "fdns_frame w w'" "fdns_frame w' w''"
  shows "fdns_frame w w''"
proof -
  have "w'' = w'\<lparr>out := out w'', CONNECTIONS := CONNECTIONS w'', conn_brk := conn_brk w'',
     fdns_errno := fdns_errno w'', fdns_fdinuse := fdns_fdinuse w''\<rparr>" using assms(2) by (simp only: fdns_frame_def)
  also have "\<dots> = w\<lparr>out := out w'', CONNECTIONS := CONNECTIONS w'', conn_brk := conn_brk w'',
     fdns_errno := fdns_errno w'', fdns_fdinuse := fdns_fdinuse w''\<rparr>"
    by (subst assms(1) [unfolded fdns_frame_def]) simp
  finally show ?thesis by (simp only: fdns_frame_def)
qed

text \<open>The descriptors of the resolver that are open after a trace, and what the system promises of
  \<open>socket\<close>: a failure, or a positive descriptor that is not open.\<close>

fun fds_step :: "int set \<Rightarrow> event \<Rightarrow> int set" where
  "fds_step S (Dns_socket fd) = (if fd = -1 then S else insert fd S)"
| "fds_step S (Dns_closed fd) = S - {fd}"
| "fds_step S _ = S"

definition open_fds :: "event list \<Rightarrow> int set" where
  "open_fds t = foldl fds_step {} t"

definition sockets_fresh :: "env \<Rightarrow> bool" where
  "sockets_fresh e \<longleftrightarrow> (\<forall>t. dns_socket e t = -1 \<or> 0 < dns_socket e t \<and> dns_socket e t \<notin> open_fds t)"

lemma open_fds_snoc [simp]: "open_fds (t @ [e]) = fds_step (open_fds t) e"
  by (simp add: open_fds_def)

lemma open_fds_append2 [simp]: "open_fds (t @ [e, e']) = fds_step (fds_step (open_fds t) e) e'"
  by (simp add: open_fds_def)

lemma send_servers_out:
  "\<exists>es. snd (send_servers fd packet srv w) = w\<lparr>out := out w @ es\<rparr> \<and> open_fds (out w @ es) = open_fds (out w)"
proof (induction srv arbitrary: w)
  case (Cons a srv)
  let ?w = "record_event (Dns_sent fd a packet) w"
  obtain es where es: "snd (send_servers fd packet srv ?w) = ?w\<lparr>out := out ?w @ es\<rparr>" "open_fds (out ?w @ es) = open_fds (out ?w)"
    using Cons by blast
  then have "snd (send_servers fd packet (a # srv) w) = w\<lparr>out := out w @ Dns_sent fd a packet # es\<rparr>"
      "open_fds (out w @ Dns_sent fd a packet # es) = open_fds (out w)"
    by (simp_all add: Let_def record_event_def case_prod_beta)
  then show ?case by blast
qed (auto intro: exI [of _ "[]"])

lemma send_requests_spec:
  assumes "firedns_send_requests payload s l w = ((fd, s'), w')" "sockets_fresh (envir w)"
  shows "fdns_frame w w' \<and> CONNECTIONS w' = CONNECTIONS w \<and> conn_brk w' = conn_brk w \<and>
    s' = s\<lparr>c_fd := fd, c_start := c_start s'\<rparr> \<and>
    (fd = -1 \<and> fdns_fdinuse w' = fdns_fdinuse w \<and> fdns_errno w' = FDNS_ERR_NETWORK \<and> open_fds (out w') = open_fds (out w) \<or>
     0 < fd \<and> fdns_fdinuse w' = fdns_fdinuse w + 1 \<and> fdns_errno w' = FDNS_ERR_NONE \<and>
       fd \<notin> open_fds (out w) \<and> open_fds (out w') = insert fd (open_fds (out w)))"
proof -
  define k where "k = dns_socket (envir w) (out w)"
  have k: "k = -1 \<or> 0 < k \<and> k \<notin> open_fds (out w)" using assms(2) by (simp add: sockets_fresh_def k_def)
  show ?thesis
  proof (cases "k \<noteq> -1 \<and> dns_fcntl (envir w) (out w) \<and> dns_bind (envir w) (out w)")
    case False
    then show ?thesis using assms k
      by (auto simp: firedns_send_requests_def Let_def record_event_def fdns_frame_def k_def [symmetric] split: if_splits)
  next
    case True
    define w1 where "w1 = record_event (Dns_socket k) w"
    define packet where "packet = c_id s @ [CHR 0x01, NUL] @ htons_bytes 1 @ htons_bytes 0 @ htons_bytes 0 @ htons_bytes 0 @
       take l payload"
    obtain ok w2 where s2: "send_servers k packet (servers4 w1) w1 = (ok, w2)" by fastforce
    obtain es where es: "w2 = w1\<lparr>out := out w1 @ es\<rparr>" "open_fds (out w1 @ es) = open_fds (out w1)"
      using send_servers_out [of k packet "servers4 w1" w1] s2 by auto
    have f: "fdns_frame w w2" "CONNECTIONS w2 = CONNECTIONS w" "conn_brk w2 = conn_brk w" "fdns_fdinuse w2 = fdns_fdinuse w"
      by (simp_all add: es w1_def record_event_def fdns_frame_def)
    have o: "open_fds (out w2) = insert k (open_fds (out w))" using es True by (simp add: w1_def record_event_def)
    have eq: "firedns_send_requests payload s l w =
        (if \<not> ok then ((-1, s\<lparr>c_fd := -1\<rparr>), (record_event (Dns_closed k) w2)\<lparr>fdns_errno := FDNS_ERR_NETWORK\<rparr>)
         else ((k, s\<lparr>c_fd := k, c_start := clock w2\<rparr>),
              w2\<lparr>fdns_fdinuse := fdns_fdinuse w2 + 1, fdns_errno := FDNS_ERR_NONE\<rparr>))"
      using True s2 by (simp add: firedns_send_requests_def Let_def w1_def packet_def k_def)
    have g: "fdns_frame w2 ((record_event e w2)\<lparr>fdns_errno := n\<rparr>)" "fdns_frame w2 (w2\<lparr>fdns_fdinuse := j, fdns_errno := n\<rparr>)" for e n j
      by (simp_all add: fdns_frame_def record_event_def)
    show ?thesis
    proof (cases ok)
      case ok: True
      then show ?thesis using assms(1) eq f o k True fdns_frame_trans [OF f(1) g(2)] by auto
    next
      case False
      then show ?thesis using assms(1) eq f o k True fdns_frame_trans [OF f(1) g(1)] by (auto simp: record_event_def)
    qed
  qed
qed

lemma strncpy_buf_read: "cstring s \<Longrightarrow> length s < n \<Longrightarrow> read_cstr (strncpy_buf n s) = Some s"
proof -
  assume s: "cstring s" "length s < n"
  obtain k where k: "n = Suc (length s + k)" using s(2) less_iff_Suc_add by blast
  then have "strncpy_buf n s = s @ NUL # replicate k NUL"
    by (simp add: strncpy_buf_def)
  then show ?thesis using s(1) by (simp add: read_cstr_def buffer_string_def takeWhile_nul)
qed

text \<open>A query that is sent again: nothing but its descriptor and its start changes.\<close>

lemma doquery_spec:
  assumes "firedns_doquery s w = Some ((fd, s'), w')" "c_fd s = -1" "sockets_fresh (envir w)"
  shows "fdns_frame w w' \<and> CONNECTIONS w' = CONNECTIONS w \<and> conn_brk w' = conn_brk w \<and>
    s' = s\<lparr>c_fd := fd, c_start := c_start s'\<rparr> \<and>
    (fd = -1 \<and> fdns_fdinuse w' = fdns_fdinuse w \<and> fdns_errno w' \<in> {FDNS_ERR_NETWORK, FDNS_ERR_FORMAT} \<and>
       open_fds (out w') = open_fds (out w) \<or>
     0 < fd \<and> fdns_fdinuse w' = fdns_fdinuse w + 1 \<and> fdns_errno w' = FDNS_ERR_NONE \<and>
       fd \<notin> open_fds (out w) \<and> open_fds (out w') = insert fd (open_fds (out w)))"
proof -
  obtain name r where r: "read_cstr (c_lookup s) = Some name"
      "firedns_build_query_payload name (c_type s) 1 (replicate 512 NUL) = Some r"
    using assms(1) by (auto simp: firedns_doquery_def bind_Some_iff)
  show ?thesis
  proof (cases r)
    case None
    then show ?thesis using assms r by (auto simp: firedns_doquery_def fdns_frame_def)
  next
    case (Some lp)
    then show ?thesis using assms r send_requests_spec [of "snd lp" s "fst lp" w fd s' w']
      by (auto simp: firedns_doquery_def case_prod_beta)
  qed
qed

lemma doquery_total:
  assumes "read_cstr (c_lookup s) \<noteq> None"
  shows "firedns_doquery s w \<noteq> None"
proof -
  obtain name where name: "read_cstr (c_lookup s) = Some name" using assms by blast
  obtain r where r: "firedns_build_query_payload name (c_type s) 1 (replicate 512 NUL) = Some r"
    using query_payload_total [of "replicate 512 NUL" name "c_type s" 1] by auto
  show ?thesis using name r by (cases r) (simp_all add: firedns_doquery_def case_prod_beta)
qed

definition fd_limit :: "'a fdns_scheme \<Rightarrow> nat" where
  "fd_limit w = opt_dns_fdlimit (OptionsItem (cfg w))"

text \<open>The outcomes of \<open>firedns_getip\<close>: the query is on its way, it waits for a descriptor, or it
  has failed and left no trace.\<close>

lemma getip_spec:
  assumes "firedns_getip type name info w = Some (fd, w')" "sockets_fresh (envir w)"
  shows "fdns_frame w w' \<and> conn_brk w' = conn_brk w + 1 \<and>
    (\<exists>s. c_key s = conn_brk w \<and> c_info s = info \<and> c_lookup s = strncpy_buf 256 name \<and>
      (0 < fd \<and> c_fd s = fd \<and> CONNECTIONS w' = CONNECTIONS w @ [s] \<and> fdns_fdinuse w' = fdns_fdinuse w + 1 \<and>
         unat (fdns_fdinuse w) < fd_limit w \<and> fdns_errno w' = FDNS_ERR_NONE \<and>
         fd \<notin> open_fds (out w) \<and> open_fds (out w') = insert fd (open_fds (out w)) \<or>
       fd = -1 \<and> c_fd s = -1 \<and> fdns_errno w' = FDNS_ERR_FDLIMIT \<and> fdns_fdinuse w' = fdns_fdinuse w \<and>
         CONNECTIONS w' = (if info = NULL then CONNECTIONS w else CONNECTIONS w @ [s]) \<and> open_fds (out w') = open_fds (out w) \<or>
       fd = -1 \<and> fdns_errno w' \<in> {FDNS_ERR_NETWORK, FDNS_ERR_FORMAT} \<and> fdns_fdinuse w' = fdns_fdinuse w \<and>
         CONNECTIONS w' = CONNECTIONS w \<and> open_fds (out w') = open_fds (out w)))"
proof -
  obtain s0 w1 where a: "firedns_add_query w = (s0, w1)" by fastforce
  have s0: "c_key s0 = conn_brk w" "c_fd s0 = -1" and w1: "fdns_frame w w1" "conn_brk w1 = conn_brk w + 1"
      "CONNECTIONS w1 = CONNECTIONS w" "fdns_fdinuse w1 = fdns_fdinuse w" "open_fds (out w1) = open_fds (out w)"
    using a by (auto simp: firedns_add_query_def Let_def record_event_def fdns_frame_def)
  define s where "s = s0\<lparr>c_class := 1, c_type := type, c_lookup := strncpy_buf 256 name, c_info := info\<rparr>"
  have s: "c_key s = conn_brk w" "c_info s = info" "c_lookup s = strncpy_buf 256 name" "c_fd s = -1"
    using s0 by (simp_all add: s_def)
  have lim: "opt_dns_fdlimit (OptionsItem (cfg w1)) = fd_limit w" using w1(1) by (simp add: fdns_frame_fields fd_limit_def)
  show ?thesis
  proof (cases "unat (fdns_fdinuse w1) \<ge> fd_limit w")
    case True
    have f: "fdns_frame w1 (w1\<lparr>fdns_errno := n, CONNECTIONS := c\<rparr>)" "fdns_frame w1 (w1\<lparr>fdns_errno := n\<rparr>)" for n c
      by (simp_all add: fdns_frame_def)
    have "fd = -1 \<and> w' = (if info = NULL then w1\<lparr>fdns_errno := FDNS_ERR_FDLIMIT\<rparr>
        else w1\<lparr>fdns_errno := FDNS_ERR_FDLIMIT, CONNECTIONS := CONNECTIONS w1 @ [s]\<rparr>)"
      using assms a True by (auto simp: firedns_getip_def lim s_def Let_def)
    then show ?thesis using s w1 fdns_frame_trans [OF w1(1) f(1)] fdns_frame_trans [OF w1(1) f(2)]
      by (intro conjI exI [of _ s]) simp_all
  next
    case False
    obtain fd2 s2 w2 where d: "firedns_doquery s w1 = Some ((fd2, s2), w2)"
      using assms a False by (auto simp: firedns_getip_def lim s_def bind_Some_iff)
    have d2: "fdns_frame w1 w2 \<and> CONNECTIONS w2 = CONNECTIONS w1 \<and> conn_brk w2 = conn_brk w1 \<and>
      s2 = s\<lparr>c_fd := fd2, c_start := c_start s2\<rparr> \<and>
      (fd2 = -1 \<and> fdns_fdinuse w2 = fdns_fdinuse w1 \<and> fdns_errno w2 \<in> {FDNS_ERR_NETWORK, FDNS_ERR_FORMAT} \<and>
         open_fds (out w2) = open_fds (out w1) \<or>
       0 < fd2 \<and> fdns_fdinuse w2 = fdns_fdinuse w1 + 1 \<and> fdns_errno w2 = FDNS_ERR_NONE \<and>
         fd2 \<notin> open_fds (out w1) \<and> open_fds (out w2) = insert fd2 (open_fds (out w1)))"
      using doquery_spec [OF d s(4)] assms(2) w1(1) by (simp add: fdns_frame_fields)
    obtain st where "s2 = s\<lparr>c_fd := fd2, c_start := st\<rparr>" using d2 by blast
    then have s2: "c_key s2 = c_key s" "c_info s2 = c_info s" "c_lookup s2 = c_lookup s" "c_fd s2 = fd2" by simp_all
    have f: "fdns_frame w2 (w2\<lparr>CONNECTIONS := c\<rparr>)" for c by (simp add: fdns_frame_def)
    have g: "firedns_getip type name info w = (if fd2 = -1 then Some (-1, w2) else Some (fd2, w2\<lparr>CONNECTIONS := CONNECTIONS w2 @ [s2]\<rparr>))"
      using a False d by (simp add: firedns_getip_def lim s_def)
    have fr: "fdns_frame w w2" "fdns_frame w (w2\<lparr>CONNECTIONS := c\<rparr>)" for c
      using fdns_frame_trans [OF w1(1)] d2 fdns_frame_trans [OF _ f] by blast+
    show ?thesis
    proof (cases "fd2 = -1")
      case True
      then show ?thesis using assms g d2 w1 fr s by auto
    next
      case fd: False
      then show ?thesis using assms g d2 w1 fr s s2 False by (auto intro!: exI [of _ s2])
    qed
  qed
qed

lemma getip_total:
  assumes "cstring name" "length name < 256"
  shows "\<exists>fd w'. firedns_getip type name info w = Some (fd, w')"
proof -
  obtain s0 w1 where a: "firedns_add_query w = (s0, w1)" by fastforce
  have "firedns_doquery (s0\<lparr>c_class := 1, c_type := type, c_lookup := strncpy_buf 256 name, c_info := info\<rparr>) w1 \<noteq> None"
    using strncpy_buf_read [OF assms] by (intro doquery_total) simp
  then show ?thesis using a by (auto simp: firedns_getip_def Let_def)
qed

text \<open>
  The invariant of the open queries: they are told apart by their addresses, the counter of
  descriptors counts exactly the queries that have one, and stays below the limit.
\<close>

definition conns_inv :: "s_connection list \<Rightarrow> nat \<Rightarrow> nat \<Rightarrow> nat \<Rightarrow> int set \<Rightarrow> bool" where
  "conns_inv cs b n lim fds \<longleftrightarrow> distinct (map c_key cs) \<and> (\<forall>c \<in> set cs. c_key c < b) \<and>
     n = length (filter (\<lambda>c. c_fd c \<noteq> -1) cs) \<and> n \<le> lim \<and>
     distinct (map c_fd (filter (\<lambda>c. c_fd c \<noteq> -1) cs)) \<and>
     (\<forall>c \<in> set cs. c_fd c = -1 \<or> 0 < c_fd c \<and> c_fd c \<in> fds)"

definition conns_ok :: "'a fdns_scheme \<Rightarrow> bool" where
  "conns_ok w \<longleftrightarrow>
     conns_inv (CONNECTIONS w) (conn_brk w) (unat (fdns_fdinuse w)) (fd_limit w) (open_fds (out w)) \<and>
     fd_limit w < 2 ^ 32 \<and> sockets_fresh (envir w)"

lemma unat_plus_1: "unat (x :: uint) < n \<Longrightarrow> n < 2 ^ 32 \<Longrightarrow> unat (x + 1) = unat x + 1"
  by (simp add: unat_plus_simple [THEN iffD1] no_olen_add_nat word_le_nat_alt unat_word_ariths)

lemma unat_minus_1: "0 < unat (x :: uint) \<Longrightarrow> unat (x - 1) = unat x - 1"
  by (metis less_numeral_extra(3) unat_0 unat_minus_one)

lemma conns_inv_queue:
  "conns_inv cs b n lim fds \<Longrightarrow> c_key s = b \<Longrightarrow> c_fd s = -1 \<Longrightarrow> conns_inv (cs @ [s]) (Suc b) n lim fds"
  by (auto simp: conns_inv_def)

lemma conns_inv_send:
  "conns_inv cs b n lim fds \<Longrightarrow> c_key s = b \<Longrightarrow> c_fd s = fd \<Longrightarrow> 0 < fd \<Longrightarrow> fd \<notin> fds \<Longrightarrow> n < lim \<Longrightarrow>
   conns_inv (cs @ [s]) (Suc b) (Suc n) lim (insert fd fds)"
  by (auto simp: conns_inv_def)

lemma conns_inv_mono: "conns_inv cs b n lim fds \<Longrightarrow> b \<le> b' \<Longrightarrow> conns_inv cs b' n lim fds"
  by (auto simp: conns_inv_def)

lemma conn_remove_split:
  assumes "distinct (map c_key (as @ c # bs))"
  shows "conn_remove (c_key c) (as @ c # bs) = as @ bs"
proof -
  have "c_key c \<notin> c_key ` (set as \<union> set bs)" using assms by (simp add: image_Un)
  then have "c_key x \<noteq> c_key c" if "x \<in> set as \<union> set bs" for x using that by (metis imageI)
  then show ?thesis by (simp add: conn_remove_def filter_id_conv)
qed

lemma conns_inv_remove:
  assumes "conns_inv cs b n lim fds" "c \<in> set cs" "c_fd c \<noteq> -1"
  shows "conns_inv (conn_remove (c_key c) cs) b (n - 1) lim (fds - {c_fd c}) \<and> 0 < n"
proof -
  obtain as bs where cs: "cs = as @ c # bs" using assms(2) by (meson split_list)
  then have "conn_remove (c_key c) cs = as @ bs" using conn_remove_split [of as c bs] assms(1) by (simp add: conns_inv_def)
  moreover have "c_fd x \<noteq> c_fd c" if "x \<in> set (as @ bs)" for x
  proof -
    have "c_fd c \<notin> c_fd ` set (filter (\<lambda>c. c_fd c \<noteq> -1) (as @ bs))"
      using assms(1,3) cs by (auto simp: conns_inv_def)
    moreover have "x \<in> set (filter (\<lambda>c. c_fd c \<noteq> -1) (as @ bs))" if "c_fd x = c_fd c"
      using that \<open>x \<in> set (as @ bs)\<close> assms(3) by simp
    ultimately show ?thesis by (metis imageI)
  qed
  ultimately show ?thesis using assms(1,3) cs by (auto simp: conns_inv_def)
qed

lemma getip_conns_ok:
  assumes "conns_ok w" "firedns_getip type name info w = Some (fd, w')"
  shows "conns_ok w'"
proof -
  have sf: "sockets_fresh (envir w)" "fd_limit w < 2 ^ 32" using assms(1) by (simp_all add: conns_ok_def)
  note spec = getip_spec [OF assms(2) sf(1)]
  have f: "fd_limit w' = fd_limit w" "envir w' = envir w" using spec by (auto simp: fd_limit_def fdns_frame_fields)
  have inv: "conns_inv (CONNECTIONS w) (conn_brk w) (unat (fdns_fdinuse w)) (fd_limit w) (open_fds (out w))"
    using assms(1) by (simp add: conns_ok_def)
  have n: "unat (fdns_fdinuse w + 1) = Suc (unat (fdns_fdinuse w))" if "unat (fdns_fdinuse w) < fd_limit w"
    using unat_plus_1 [OF that sf(2)] by simp
  have "conns_inv (CONNECTIONS w') (conn_brk w') (unat (fdns_fdinuse w')) (fd_limit w) (open_fds (out w'))"
    using spec n conns_inv_mono [OF inv, of "Suc (conn_brk w)"] conns_inv_queue [OF inv] conns_inv_send [OF inv] by auto
  then show ?thesis using sf f by (simp add: conns_ok_def)
qed

text \<open>Reading a result: the query is kept, or it is removed with its descriptor.\<close>

lemma getresult_spec:
  assumes "firedns_getresult fd w = Some (r, w')"
  shows "fdns_frame w w' \<and> conn_brk w' = conn_brk w \<and>
    (find (\<lambda>c. c_fd c = fd) (CONNECTIONS w) = None \<and> CONNECTIONS w' = CONNECTIONS w \<and> fdns_fdinuse w' = fdns_fdinuse w \<and>
       (\<exists>r'. r = Some r' \<and> r_info r' = NULL) \<and> fdns_errno w' = FDNS_ERR_OTHER \<and> out w' = out w \<or>
     (\<exists>c. find (\<lambda>c. c_fd c = fd) (CONNECTIONS w) = Some c \<and>
       (r = None \<and> CONNECTIONS w' = CONNECTIONS w \<and> fdns_fdinuse w' = fdns_fdinuse w \<and> fdns_errno w' = FDNS_ERR_OTHER \<and>
          out w' = out w @ [Dns_recv fd] \<or>
        (\<exists>r'. r = Some r' \<and> r_info r' = c_info c \<and> r_lookup r' = c_lookup c \<and> length (r_text r') \<ge> 1024 \<and>
          CONNECTIONS w' = conn_remove (c_key c) (CONNECTIONS w) \<and> fdns_fdinuse w' = fdns_fdinuse w - 1 \<and>
          out w' = out w @ [Dns_recv fd, Dns_closed (c_fd c)]))))"
proof (cases "find (\<lambda>c. c_fd c = fd) (CONNECTIONS w)")
  case None
  then show ?thesis using assms by (auto simp: firedns_getresult_def fdns_frame_def split: if_splits)
next
  case (Some c)
  then have "CONNECTIONS w \<noteq> []" by auto
  then obtain a where a: "(case dns_recv (envir w) (out w) of None \<Rightarrow> Some (Finish FDNS_ERR_NETWORK [])
      | Some h \<Rightarrow> parse_answer c h) = Some a"
    using assms Some by (auto simp: firedns_getresult_def Let_def bind_Some_iff)
  show ?thesis
  proof (cases a)
    case Keep
    then show ?thesis using assms Some a \<open>CONNECTIONS w \<noteq> []\<close>
      by (auto simp: firedns_getresult_def fdns_frame_def Let_def record_event_def)
  next
    case (Finish err tx)
    then have "r = Some \<lparr>r_text = tx @ replicate (1024 - length tx) NUL, r_lookup = c_lookup c, r_info = c_info c\<rparr>"
        "w' = w\<lparr>fdns_errno := err, CONNECTIONS := conn_remove (c_key c) (CONNECTIONS w),
           out := out w @ [Dns_recv fd, Dns_closed (c_fd c)], fdns_fdinuse := fdns_fdinuse w - 1\<rparr>"
      using assms Some a \<open>CONNECTIONS w \<noteq> []\<close> by (auto simp: firedns_getresult_def Let_def record_event_def)
    then show ?thesis using Some by (simp add: fdns_frame_def)
  qed
qed

lemma find_in: "find P xs = Some x \<Longrightarrow> x \<in> set xs \<and> P x"
  by (auto simp: find_Some_iff)

lemma conns_ok_remove:
  assumes "conns_ok w" "c \<in> set (CONNECTIONS w)" "c_fd c \<noteq> -1" "CONNECTIONS w' = conn_remove (c_key c) (CONNECTIONS w)"
    "fdns_fdinuse w' = fdns_fdinuse w - 1" "conn_brk w' = conn_brk w" "cfg w' = cfg w" "envir w' = envir w"
    "open_fds (out w') = open_fds (out w) - {c_fd c}"
  shows "conns_ok w'"
proof -
  have "conns_inv (CONNECTIONS w) (conn_brk w) (unat (fdns_fdinuse w)) (fd_limit w) (open_fds (out w))"
    using assms(1) by (simp add: conns_ok_def)
  note conns_inv_remove [OF this assms(2,3)]
  then show ?thesis using assms unat_minus_1 [of "fdns_fdinuse w"] by (simp add: conns_ok_def fd_limit_def)
qed

lemma getresult_conns_ok:
  assumes "conns_ok w" "fd \<noteq> -1" "firedns_getresult fd w = Some (r, w')"
  shows "conns_ok w'"
proof -
  note spec = getresult_spec [OF assms(3)]
  have f: "cfg w' = cfg w" "envir w' = envir w" "conn_brk w' = conn_brk w" using spec by (auto simp: fdns_frame_fields)
  consider "CONNECTIONS w' = CONNECTIONS w" "fdns_fdinuse w' = fdns_fdinuse w" "open_fds (out w') = open_fds (out w)"
    | c where "find (\<lambda>c. c_fd c = fd) (CONNECTIONS w) = Some c" "CONNECTIONS w' = conn_remove (c_key c) (CONNECTIONS w)"
        "fdns_fdinuse w' = fdns_fdinuse w - 1" "open_fds (out w') = open_fds (out w) - {c_fd c}"
    using spec by auto
  then show ?thesis
  proof cases
    case 1
    then show ?thesis using assms(1) f by (simp add: conns_ok_def fd_limit_def)
  next
    case 2
    then show ?thesis using conns_ok_remove [OF assms(1) _ _ 2(2,3) f(3,1,2) 2(4)] find_in [OF 2(1)] assms(2) by blast
  qed
qed

lemma parse_answer_total: "length h \<le> 522 \<Longrightarrow> parse_answer c h \<noteq> None"
proof -
  assume "length h \<le> 522"
  then obtain r where "find_answer (drop 12 h) (c_type c) (c_class c) (ntohs_at h 6)
      (skip_queries (drop 12 h) (ntohs_at h 4) 0 0) = Some r"
    using find_answer_safe [of "drop 12 h"] by fastforce
  then show ?thesis by (cases r) (auto simp: parse_answer_def Let_def)
qed

text \<open>The queries somebody waits for; blocking queries do not touch them.\<close>

definition asked :: "'a fdns_scheme \<Rightarrow> s_connection list" where
  "asked w = filter (\<lambda>c. c_info c \<noteq> NULL) (CONNECTIONS w)"

definition recv_bounded :: "env \<Rightarrow> bool" where
  "recv_bounded e \<longleftrightarrow> (\<forall>t h. dns_recv e t = Some h \<longrightarrow> length h \<le> 522)"

lemma getresult_total:
  assumes "CONNECTIONS w \<noteq> []" "recv_bounded (envir w)"
  shows "firedns_getresult fd w \<noteq> None"
proof -
  have ans: "\<exists>a. (case dns_recv (envir w) (out w) of None \<Rightarrow> Some (Finish FDNS_ERR_NETWORK [])
      | Some h \<Rightarrow> parse_answer c h) = Some a" for c
  proof (cases "dns_recv (envir w) (out w)")
    case (Some h)
    then have "length h \<le> 522" using assms(2) by (simp add: recv_bounded_def)
    then have "parse_answer c h \<noteq> None" by (rule parse_answer_total)
    then show ?thesis using Some by auto
  qed simp
  show ?thesis
  proof (cases "find (\<lambda>c. c_fd c = fd) (CONNECTIONS w)")
    case (Some c)
    obtain a where "(case dns_recv (envir w) (out w) of None \<Rightarrow> Some (Finish FDNS_ERR_NETWORK [])
      | Some h \<Rightarrow> parse_answer c h) = Some a" using ans by blast
    then show ?thesis using assms(1) Some by (cases a) (simp_all add: firedns_getresult_def Let_def record_event_def)
  qed (use assms(1) in \<open>simp add: firedns_getresult_def Let_def\<close>)
qed

text \<open>One blocking query: after sending it, the answer that is read belongs to it.\<close>

lemma blocking_query:
  assumes "conns_ok w" "firedns_getip type name NULL w = Some (fd, w1)" "fd \<noteq> -1"
    and "firedns_getresult fd w1 = Some (r, w2)"
  shows "conns_ok w2 \<and> fdns_frame w w2 \<and> asked w2 = asked w \<and> (fdns_errno w2 = FDNS_ERR_NONE \<longrightarrow> r \<noteq> None)"
proof -
  have sf: "sockets_fresh (envir w)" using assms(1) by (simp add: conns_ok_def)
  obtain s where s: "c_key s = conn_brk w" "c_info s = NULL" "c_fd s = fd" "CONNECTIONS w1 = CONNECTIONS w @ [s]"
      "fd \<notin> open_fds (out w)" "0 < fd" and fr: "fdns_frame w w1"
    using getip_spec [OF assms(2) sf] assms(3) by auto
  have ok1: "conns_ok w1" by (rule getip_conns_ok [OF assms(1,2)])
  have ok2: "conns_ok w2" by (rule getresult_conns_ok [OF ok1 assms(3,4)])
  have old: "\<forall>c \<in> set (CONNECTIONS w). c_fd c \<noteq> fd"
  proof
    fix c assume "c \<in> set (CONNECTIONS w)"
    then have "c_fd c = -1 \<or> c_fd c \<in> open_fds (out w)" using assms(1) by (auto simp: conns_ok_def conns_inv_def)
    then show "c_fd c \<noteq> fd" using s(5,6) by auto
  qed
  have "find (\<lambda>c. c_fd c = fd) (cs @ [s]) = Some s" if "\<forall>c \<in> set cs. c_fd c \<noteq> fd" for cs
    using that s(3) by (induction cs) auto
  then have found: "find (\<lambda>c. c_fd c = fd) (CONNECTIONS w1) = Some s" using old s(4) by simp
  have rm: "conn_remove (c_key s) (CONNECTIONS w1) = CONNECTIONS w"
    using conn_remove_split [of "CONNECTIONS w" s "[]"] ok1 s(4) by (simp add: conns_ok_def conns_inv_def)
  have fr2: "fdns_frame w w2" using fr fdns_frame_trans getresult_spec [OF assms(4)] by blast
  show ?thesis using getresult_spec [OF assms(4)] found rm ok2 fr2 s(2,4)
    by (auto simp: asked_def fdns_consts)
qed

lemma resolve_ok:
  assumes "conns_ok w" "resolve_tries t type name w = Some (r, w')"
  shows "conns_ok w' \<and> fdns_frame w w' \<and> asked w' = asked w"
  using assms
proof (induction t type name w rule: resolve_tries.induct)
  case (1 type name w)
  have "fdns_frame w (w\<lparr>fdns_errno := n\<rparr>)" "asked (w\<lparr>fdns_errno := n\<rparr>) = asked w"
    "conns_ok (w\<lparr>fdns_errno := n\<rparr>) = conns_ok w" for n
    by (simp_all add: fdns_frame_def asked_def conns_ok_def fd_limit_def)
  then show ?case using 1 by (auto split: if_splits)
next
  case (2 t type name w)
  obtain fd w1 where g: "firedns_getip type name NULL w = Some (fd, w1)"
    using "2.prems"(2) by (auto simp: bind_Some_iff)
  have sf: "sockets_fresh (envir w)" using "2.prems"(1) by (simp add: conns_ok_def)
  show ?case
  proof (cases "fd = -1")
    case True
    then show ?thesis using g "2.prems" getip_spec [OF g sf] getip_conns_ok [OF "2.prems"(1) g] by (auto simp: asked_def)
  next
    case False
    then obtain r2 w2 where g2: "firedns_getresult fd w1 = Some (r2, w2)"
      using g "2.prems"(2) by (auto simp: bind_Some_iff)
    note b = blocking_query [OF "2.prems"(1) g False g2]
    show ?thesis
    proof (cases "fdns_errno w2 = FDNS_ERR_NONE \<or> fdns_errno w2 = FDNS_ERR_NXDOMAIN")
      case True
      then show ?thesis using b g g2 False "2.prems"(2) by (auto simp: bind_Some_iff split: if_splits)
    next
      case again: False
      then have "resolve_tries t type name w2 = Some (r, w')" using g g2 False "2.prems"(2) by simp
      then have "conns_ok w' \<and> fdns_frame w2 w' \<and> asked w' = asked w2"
        using "2.IH" [OF g refl False g2 refl] again b by auto
      then show ?thesis using b fdns_frame_trans by metis
    qed
  qed
qed

lemma resolve_total:
  assumes "conns_ok w" "recv_bounded (envir w)" "cstring name" "length name < 256"
  shows "resolve_tries t type name w \<noteq> None"
  using assms(1,2)
proof (induction t arbitrary: w)
  case (Suc t)
  obtain fd w1 where g: "firedns_getip type name NULL w = Some (fd, w1)" using getip_total [OF assms(3,4)] by blast
  show ?case
  proof (cases "fd = -1")
    case False
    have sf: "sockets_fresh (envir w)" using Suc.prems(1) by (simp add: conns_ok_def)
    have "CONNECTIONS w1 \<noteq> []" "recv_bounded (envir w1)"
      using getip_spec [OF g sf] False Suc.prems(2) by (auto simp: fdns_frame_fields)
    then obtain r w2 where g2: "firedns_getresult fd w1 = Some (r, w2)" using getresult_total by fastforce
    note b = blocking_query [OF Suc.prems(1) g False g2]
    have "resolve_tries t type name w2 \<noteq> None" using b Suc.prems(2) by (intro Suc.IH) (auto simp: fdns_frame_fields)
    then show ?thesis using g g2 False b by auto
  qed (use g in simp)
qed simp

section \<open>Properties\<close>

text \<open>C37: \<open>firedns_build_query_payload\<close> never writes outside the 512 bytes of the payload, whatever
  the name, and for a name of non-empty labels that fits it produces the labels with their
  lengths in front, the empty root label, the type and the class; the labels can be read back.\<close>

theorem query_payload_correct:
  assumes "length p = 512" "ls \<noteq> []" "\<forall>l \<in> set ls. l \<noteq> [] \<and> length l < 64 \<and> CHR ''.'' \<notin> set l"
    and "length (labels_enc ls) \<le> 506"
  shows "firedns_build_query_payload name rr cls p \<noteq> None \<and>
    (\<exists>n p'. firedns_build_query_payload (dots ls) rr cls p = Some (Some (n, p')) \<and> n \<le> 512 \<and>
       decode_labels (take n p') = ls \<and> drop (n - 4) (take n p') = htons_bytes rr @ htons_bytes cls)"
proof
  show "firedns_build_query_payload name rr cls p \<noteq> None" using assms(1) by (rule query_payload_total)
  obtain xs x where ls: "ls = xs @ [x]" using assms(2) by (metis append_butlast_last_id)
  obtain p' where p': "firedns_build_query_payload (dots ls) rr cls p = Some (Some (length (labels_enc ls) + 5, p'))"
    "take (length (labels_enc ls) + 5) p' = labels_enc ls @ [NUL] @ htons_bytes rr @ htons_bytes cls"
    using query_payload_enc [of xs x p rr cls] assms ls by auto
  moreover have "decode_labels (take (length (labels_enc ls) + 5) p') = ls"
    using decode_labels_enc [of ls "htons_bytes rr @ htons_bytes cls"] assms(3) unfolding p'(2) by fastforce
  moreover have "drop (length (labels_enc ls) + 5 - 4) (take (length (labels_enc ls) + 5) p') = htons_bytes rr @ htons_bytes cls"
    using p'(2) by simp
  ultimately show "\<exists>n p'. firedns_build_query_payload (dots ls) rr cls p = Some (Some (n, p')) \<and> n \<le> 512 \<and>
       decode_labels (take n p') = ls \<and> drop (n - 4) (take n p') = htons_bytes rr @ htons_bytes cls"
    using assms(4) by (intro exI [of _ "length (labels_enc ls) + 5"] exI [of _ p']) simp
qed

theorem query_payload_correct_witness:
  "\<exists>n p'. firedns_build_query_payload (dots [''4'', ''3'', ''opm'', ''org'']) 1 1 (replicate 512 NUL) = Some (Some (n, p')) \<and>
     decode_labels (take n p') = [''4'', ''3'', ''opm'', ''org'']"
  using query_payload_correct [of "replicate 512 NUL" "[''4'', ''3'', ''opm'', ''org'']" "[]" 1 1] by auto

text \<open>A response: its header with one question and one answer, and the answer's record.\<close>

definition dns_response ::
  "string \<Rightarrow> char \<Rightarrow> char \<Rightarrow> string \<Rightarrow> string list \<Rightarrow> string \<Rightarrow> nat \<Rightarrow> nat \<Rightarrow> string \<Rightarrow> string \<Rightarrow> string" where
  "dns_response ident f1 f2 counts ls question type cls ttl rdata =
     ident @ [f1, f2] @ htons_bytes 1 @ htons_bytes 1 @ counts @
     labels_enc ls @ [NUL] @ question @
     [CHR 0xC0, CHR 0x0C] @ htons_bytes type @ htons_bytes cls @ ttl @ htons_bytes (length rdata) @ rdata"

lemma ntohs_htons [simp]:
  assumes "n < 65536"
  shows "ntohs_at (a @ htons_bytes n @ b) (length a) = n"
proof -
  have d: "n div 256 < 256" using assms by (simp add: less_mult_imp_div_less)
  have "n div 256 mod 256 = n div 256" using d by simp
  then show ?thesis by (simp add: ntohs_at_def htons_bytes_def nth_append)
qed

lemma ntohs_htons_at:
  "n < 65536 \<Longrightarrow> i = length a \<Longrightarrow> ntohs_at (a @ htons_bytes n @ b) i = n"
  by simp

lemma find_answer_record:
  assumes "payload = pre @ [CHR 0xC0, CHR 0x0C] @ htons_bytes type @ htons_bytes cls @ ttl @ htons_bytes (length rdata) @ rdata"
    and "length ttl = 4" "type < 65536" "cls < 65536" "length payload \<le> 510"
  shows "find_answer payload type cls (Suc n) (length pre) = Some (Some (length pre + 12, length rdata))"
proof -
  let ?i = "length pre + 2" let ?q = "[CHR 0xC0, CHR 0x0C]"
  have "skip_name payload (length pre) = ?i"
    by (subst skip_name.simps) (simp add: assms(1) nth_append)
  moreover have "ntohs_at payload ?i = type"
    using ntohs_htons_at [of type ?i "pre @ ?q" "htons_bytes cls @ ttl @ htons_bytes (length rdata) @ rdata"] assms(1,3) by simp
  moreover have "ntohs_at payload (?i + 2) = cls"
    using ntohs_htons_at [of cls "?i + 2" "pre @ ?q @ htons_bytes type" "ttl @ htons_bytes (length rdata) @ rdata"] assms(1,4) by simp
  moreover have "ntohs_at payload (?i + 8) = length rdata"
    using ntohs_htons_at [of "length rdata" "?i + 8" "pre @ ?q @ htons_bytes type @ htons_bytes cls @ ttl" rdata] assms(1,2,5)
    by simp
  moreover have "length payload = ?i + 10 + length rdata" using assms(1,2) by simp
  ultimately show ?thesis using assms(5) by (simp add: Let_def)
qed

lemma nat_add_12: "(n :: nat) + 12 - 12 = n"
  by simp

text \<open>C38: An answer of the expected form is understood: for a response to the query with one
  question and one matching answer, \<open>firedns_getresult\<close> finds the data of the answer.\<close>

theorem parse_answer_correct:
  assumes "length (c_id c) = 2" "length counts = 4" "length question = 4" "length ttl = 4"
    and "of_char f1 AND 0x80 \<noteq> (0 :: nat)" "of_char f1 AND 0x78 = (0 :: nat)" "of_char f2 AND 0x0F = (0 :: nat)"
    and "\<forall>l \<in> set ls. l \<noteq> [] \<and> length l < 64" "c_type c < 65536" "c_class c < 65536"
    and "length (dns_response (c_id c) f1 f2 counts ls question (c_type c) (c_class c) ttl rdata) \<le> 522"
  shows "parse_answer c (dns_response (c_id c) f1 f2 counts ls question (c_type c) (c_class c) ttl rdata) =
    Some (Finish FDNS_ERR_NONE rdata)"
proof -
  define rec where "rec = [CHR 0xC0, CHR 0x0C] @ htons_bytes (c_type c) @ htons_bytes (c_class c) @ ttl @
    htons_bytes (length rdata) @ rdata"
  define pre where "pre = labels_enc ls @ [NUL] @ question"
  define h where "h = dns_response (c_id c) f1 f2 counts ls question (c_type c) (c_class c) ttl rdata"
  have h: "h = c_id c @ [f1, f2] @ htons_bytes 1 @ htons_bytes 1 @ counts @ pre @ rec"
    by (simp add: h_def dns_response_def pre_def rec_def)
  obtain a b where id: "c_id c = [a, b]" using assms(1) by (auto simp: length_Suc_conv numeral_2_eq_2)
  have hd: "take 2 h = c_id c" "h ! 2 = f1" "h ! 3 = f2" by (simp_all add: h id)
  have cnt: "ntohs_at h 4 = 1" "ntohs_at h 6 = 1"
    using ntohs_htons_at [of 1 4 "c_id c @ [f1, f2]" "htons_bytes 1 @ counts @ pre @ rec"]
      ntohs_htons_at [of 1 6 "c_id c @ [f1, f2] @ htons_bytes 1" "counts @ pre @ rec"]
    by (simp_all add: h id)
  have pl: "drop 12 h = pre @ rec" "length h = 12 + length (pre @ rec)" using assms(2) by (simp_all add: h id)
  have len: "length (pre @ rec) \<le> 510" using assms(11) pl(2) by (simp add: h_def)
  have sk: "skip_queries (pre @ rec) 1 0 0 = length pre"
    using skip_queries_labels [of ls "[]" "question @ rec"] assms(3,8) by (simp add: pre_def)
  have fa: "find_answer (pre @ rec) (c_type c) (c_class c) 1 (length pre) = Some (Some (length pre + 12, length rdata))"
    using find_answer_record [of "pre @ rec" pre "c_type c" "c_class c" ttl rdata 0] assms(4,9,10) len by (simp add: rec_def)
  have dr: "drop (length pre + 12) (pre @ rec) = rdata" "length (pre @ rec) = length pre + 12 + length rdata"
    using assms(4) by (simp_all add: rec_def)
  have "parse_answer c h = Some (Finish FDNS_ERR_NONE rdata)"
    using hd cnt pl(2) sk fa dr len assms(5-7) unfolding parse_answer_def pl(1) Let_def by simp
  then show ?thesis by (simp add: h_def)
qed


text \<open>A connection whose identification is zero.\<close>

definition conn_zero :: s_connection where
  "conn_zero = \<lparr>c_key = 1, c_id = [NUL, NUL], c_class = 1, c_type = 1, c_fd = 5, c_info = 1, c_start = 0,
     c_lookup = []\<rparr>"


theorem parse_answer_correct_witness:
  "parse_answer conn_zero (dns_response [NUL, NUL] (CHR 0x80) NUL (replicate 4 NUL) [''opm'', ''org'']
     (replicate 4 NUL) 1 1 (replicate 4 NUL) [CHR 0x7F, NUL, NUL, CHR 0x02]) =
   Some (Finish FDNS_ERR_NONE [CHR 0x7F, NUL, NUL, CHR 0x02])"
  using parse_answer_correct [of conn_zero "replicate 4 NUL" "replicate 4 NUL" "replicate 4 NUL" "CHR 0x80" NUL
      "[''opm'', ''org'']" "[CHR 0x7F, NUL, NUL, CHR 0x02]"]
  by (simp add: conn_zero_def dns_response_def)

text \<open>A datagram that fills the buffer can make the copy of a record header read two bytes
  behind it.\<close>

lemma parse_answer_overread:
  "parse_answer conn_zero
     ([NUL, NUL, CHR 0x80, NUL] @ htons_bytes 0 @ htons_bytes 2 @ replicate 4 NUL @
      [CHR 0xC0, NUL] @ htons_bytes 2 @ htons_bytes 1 @ replicate 4 NUL @ htons_bytes 488 @ replicate 488 NUL @
      [CHR 0xC0, NUL] @ replicate 10 NUL) = None" (is "parse_answer _ ?h = None")
proof -
  define p where "p = [CHR 0xC0, NUL] @ htons_bytes 2 @ htons_bytes 1 @ replicate 4 NUL @ htons_bytes 488 @
    replicate 488 NUL @ [CHR 0xC0, NUL] @ replicate 10 NUL"
  have l: "length p = 512" by (simp add: p_def)
  have v: "p ! 0 = CHR 0xC0" "ntohs_at p 2 = 2" "ntohs_at p 10 = 488" "p ! 500 = CHR 0xC0"
    by (simp_all add: p_def ntohs_at_def htons_bytes_def nth_append)
  have s: "skip_name p 0 = 2" "skip_name p 500 = 502"
    using l v by (simp_all add: skip_name.simps [of p 0] skip_name.simps [of p 500])
  have f: "find_answer p 1 1 (Suc (Suc 0)) 0 = None" using s l v by (simp add: Let_def)
  define h where "h = ?h"
  have h: "h = [NUL, NUL, CHR 0x80, NUL] @ htons_bytes 0 @ htons_bytes 2 @ replicate 4 NUL @ p"
    by (simp add: h_def p_def)
  have d: "drop 12 h = p" "take 2 h = [NUL, NUL]" "h ! 2 = CHR 0x80" "h ! 3 = NUL" "\<not> length h < 12"
    by (simp_all add: h)
  have n: "ntohs_at h 4 = 0" "ntohs_at h 6 = Suc (Suc 0)"
    by (simp_all add: h ntohs_at_def htons_bytes_def)
  have "parse_answer conn_zero h = None"
    using f n d(2-5) unfolding parse_answer_def d(1) Let_def
    by (simp add: conn_zero_def skip_queries_done del: find_answer.simps)
  then show ?thesis by (simp only: h_def)
qed

end
