(* ===== verification/Kline.thy ===== *)
theory Kline
  imports Net Match
begin

text \<open>
  \<open>scan_irckline\<close> of scan.c: the ban command is formatted from a template of the configuration
  into a buffer of 513 bytes that is not initialised.  Characters are stored by index, the
  inserted strings with \<open>strcat\<close>, which looks for the end of the buffer's string itself.
  The loop is a partial function: where it would run for ever, its value is \<open>None\<close>, as for
  undefined behaviour.
\<close>

definition buf_strcat :: "string \<Rightarrow> string \<Rightarrow> string option" where
  "buf_strcat buf s =
     (let i = length (takeWhile (\<lambda>c. c \<noteq> NUL) buf) in
      if i < length buf then poke buf i (s @ [NUL]) else None)"

text \<open>The table of keys: address, host, user, nick and type of proxy.\<close>

definition kline_table :: "string \<Rightarrow> string \<Rightarrow> string \<Rightarrow> string \<Rightarrow> string \<Rightarrow> (char \<times> string) list" where
  "kline_table ip host user nick type =
     [(CHR ''i'', ip), (CHR ''h'', host), (CHR ''u'', user), (CHR ''n'', nick), (CHR ''t'', type)]"

text \<open>The loop over the table; \<open>size\<close> is an \<open>unsigned short\<close>.\<close>

fun kline_insert :: "(char \<times> string) list \<Rightarrow> char \<Rightarrow> nat \<times> string \<Rightarrow> (nat \<times> string) option" where
  "kline_insert [] k st = Some st"
| "kline_insert ((key, data) # table) k (len, message) =
     (if key = k then
        let sz = length data mod 2 ^ 16 in
        if sz + len > MSGLENMAX - 1 then kline_insert table k (len, message)
        else (case buf_strcat message data of
                None \<Rightarrow> None
              | Some message \<Rightarrow> kline_insert table k ((len + sz) mod 2 ^ 16, message))
      else kline_insert table k (len, message))"

partial_function (option) kline_loop ::
  "(char \<times> string) list \<Rightarrow> string \<Rightarrow> nat \<Rightarrow> nat \<Rightarrow> string \<Rightarrow> string option" where
  "kline_loop table format pos len message =
     Option.bind (byte_at format pos) (\<lambda>c.
       if c \<noteq> NUL \<and> len < MSGLENMAX - 2 then
         if c = CHR ''%'' then
           Option.bind (byte_at format (pos + 1)) (\<lambda>k.
             if k = NUL then kline_loop table format pos len message
             else if k = CHR ''%'' then
               Option.bind (poke message len ''%'') (\<lambda>message.
                 kline_loop table format ((pos + 2) mod 2 ^ 16) (len + 1) message)
             else
               Option.bind (kline_insert table k (len, message)) (\<lambda>(len, message).
                 kline_loop table format ((pos + 2) mod 2 ^ 16) len message))
         else
           Option.bind (poke message len [c]) (\<lambda>message.
             Option.bind (poke message (len + 1) [NUL]) (\<lambda>message.
               kline_loop table format ((pos + 1) mod 2 ^ 16) (len + 1) message))
       else Some message)"

text \<open>\<open>message0\<close> is what the buffer happens to hold; a string without a NUL is undefined.\<close>

definition scan_irckline ::
  "string \<Rightarrow> string \<Rightarrow> (char \<times> string) list \<Rightarrow> 'a net_scheme \<Rightarrow> 'a net_scheme option" where
  "scan_irckline message0 format table w = do {
     message \<leftarrow> kline_loop table format 0 0 message0;
     if NUL \<in> set message then irc_send ''%s'' [Str (buffer_string message)] w else None }"

section \<open>What the template means\<close>

fun kline_text :: "(char \<times> string) list \<Rightarrow> string \<Rightarrow> string \<Rightarrow> string" where
  "kline_text table acc [] = acc"
| "kline_text table acc (c # r) =
     (if 511 \<le> length acc then acc
      else if c = CHR ''%'' then
        (case r of
           [] \<Rightarrow> acc
         | k # r' \<Rightarrow>
             (case map_of table k of
                None \<Rightarrow> kline_text table acc r'
              | Some data \<Rightarrow> kline_text table (if length data + length acc \<le> 512 then acc @ data else acc) r'))
      else kline_text table (acc @ [c]) r)"

text \<open>Templates without \<open>%%\<close> and without a single \<open>%\<close> at the end.\<close>

fun keys_only :: "string \<Rightarrow> bool" where
  "keys_only [] \<longleftrightarrow> True"
| "keys_only (c # r) \<longleftrightarrow>
     (if c = CHR ''%'' then (case r of [] \<Rightarrow> False | k # r' \<Rightarrow> k \<noteq> CHR ''%'' \<and> keys_only r') else keys_only r)"

section \<open>Lemmas\<close>

definition holds_text :: "string \<Rightarrow> string \<Rightarrow> bool" where
  "holds_text message acc \<longleftrightarrow> length message = 513 \<and> cstring acc \<and> (\<exists>r. message = acc @ NUL # r)"

lemma holds_text_buffer: "holds_text m acc \<Longrightarrow> NUL \<in> set m \<and> buffer_string m = acc"
  by (auto simp: holds_text_def buffer_string_def takeWhile_nul)

lemma holds_text_length: "holds_text m acc \<Longrightarrow> length acc \<le> 512"
  by (auto simp: holds_text_def)

lemma buf_strcat_text:
  assumes "holds_text m acc" "cstring s" "length acc + length s \<le> 512"
  shows "\<exists>m'. buf_strcat m s = Some m' \<and> holds_text m' (acc @ s)"
proof -
  obtain r where r: "m = acc @ NUL # r" "length m = 513" "cstring acc" using assms(1) by (auto simp: holds_text_def)
  then have i: "length (takeWhile (\<lambda>c. c \<noteq> NUL) m) = length acc" by (simp add: takeWhile_nul)
  have "poke m (length acc) (s @ [NUL]) = Some (acc @ (s @ [NUL]) @ drop (length acc + length (s @ [NUL])) m)"
    using r assms(3) by (subst poke_at) auto
  then show ?thesis using r i assms(2,3) by (auto simp: buf_strcat_def holds_text_def)
qed

lemma kline_insert_text:
  assumes "holds_text m acc" "distinct (map fst table)" "\<forall>d \<in> snd ` set table. cstring d \<and> length d < 2 ^ 16"
  shows "\<exists>m'. kline_insert table k (length acc, m) =
           Some (case map_of table k of
                   None \<Rightarrow> (length acc, m')
                 | Some d \<Rightarrow> (length (if length d + length acc \<le> 512 then acc @ d else acc), m')) \<and>
         holds_text m' (case map_of table k of None \<Rightarrow> acc
                        | Some d \<Rightarrow> if length d + length acc \<le> 512 then acc @ d else acc)"
  using assms
proof (induction table arbitrary: acc m)
  case (Cons kd table)
  obtain key d where kd: "kd = (key, d)" by (cases kd)
  have acc: "length acc \<le> 512" using Cons.prems(1) by (rule holds_text_length)
  show ?case
  proof (cases "key = k")
    case True
    have none: "map_of table k = None" using Cons.prems(2) True kd by (force simp: map_of_eq_None_iff)
    show ?thesis
    proof (cases "length d + length acc \<le> 512")
      case le: True
      obtain m' where m': "buf_strcat m d = Some m'" "holds_text m' (acc @ d)"
        using buf_strcat_text [OF Cons.prems(1), of d] Cons.prems(3) kd le by auto
      have "kline_insert table k (length (acc @ d), m') = Some (length (acc @ d), m'')
          \<Longrightarrow> holds_text m'' (acc @ d) \<Longrightarrow> ?thesis" for m''
        using True le m' kd Cons.prems(3) by (auto simp: MSGLENMAX_def add.commute)
      then show ?thesis using Cons.IH [OF m'(2)] Cons.prems none by auto
    next
      case False
      then show ?thesis using Cons.IH [OF Cons.prems(1)] Cons.prems none True kd by (auto simp: MSGLENMAX_def)
    qed
  next
    case False
    then show ?thesis using Cons.IH [OF Cons.prems(1)] Cons.prems kd by auto
  qed
qed auto

text \<open>Storing a character and the NUL behind it.\<close>

lemma poke_char:
  assumes "length m = 513" "take (length acc) m = acc" "cstring acc" "length acc < 511" "c \<noteq> NUL"
  shows "\<exists>m1 m2. poke m (length acc) [c] = Some m1 \<and> poke m1 (length acc + 1) [NUL] = Some m2 \<and>
           holds_text m2 (acc @ [c])"
proof -
  let ?m1 = "acc @ [c] @ drop (length acc + 1) m"
  have 1: "poke m (length acc) [c] = Some ?m1" using assms(1,2,4) by (simp add: poke_def)
  have l: "length ?m1 = 513" using assms(1,4) by simp
  have "poke ?m1 (length acc + 1) [NUL] = Some (acc @ [c] @ [NUL] @ drop (length acc + 2) m)"
    using l assms(4) by (simp add: poke_def)
  then show ?thesis using 1 assms by (auto simp: holds_text_def)
qed

definition table_ok :: "(char \<times> string) list \<Rightarrow> bool" where
  "table_ok table \<longleftrightarrow> distinct (map fst table) \<and> (\<forall>d \<in> snd ` set table. cstring d \<and> length d < 2 ^ 16)"

lemma kline_loop_literal:
  assumes "byte_at format pos = Some c" "c \<noteq> NUL" "c \<noteq> CHR ''%''" "pos + 1 < 2 ^ 16"
    and "length m = 513" "take (length acc) m = acc" "cstring acc" "length acc < 511"
  shows "\<exists>m'. holds_text m' (acc @ [c]) \<and>
           kline_loop table format pos (length acc) m = kline_loop table format (pos + 1) (length (acc @ [c])) m'"
proof -
  obtain m1 m2 where "poke m (length acc) [c] = Some m1" "poke m1 (length acc + 1) [NUL] = Some m2"
    "holds_text m2 (acc @ [c])" using poke_char [OF assms(5-8,2)] by blast
  then show ?thesis using assms
    by (subst kline_loop.simps) (auto simp: MSGLENMAX_def)
qed

lemma kline_loop_key:
  assumes "byte_at format pos = Some CHR ''%''" "byte_at format (pos + 1) = Some k" "k \<noteq> NUL" "k \<noteq> CHR ''%''"
    and "pos + 2 < 2 ^ 16" "table_ok table" "holds_text m acc" "length acc < 511"
  shows "\<exists>m' acc'. holds_text m' acc' \<and>
           acc' = (case map_of table k of None \<Rightarrow> acc
                   | Some d \<Rightarrow> if length d + length acc \<le> 512 then acc @ d else acc) \<and>
           kline_loop table format pos (length acc) m = kline_loop table format (pos + 2) (length acc') m'"
proof -
  let ?acc = "case map_of table k of None \<Rightarrow> acc
                   | Some d \<Rightarrow> if length d + length acc \<le> 512 then acc @ d else acc"
  obtain m' where m': "kline_insert table k (length acc, m) = Some (length ?acc, m')" "holds_text m' ?acc"
    using kline_insert_text [of m acc table k] assms(6,7) by (auto simp: table_ok_def split: option.splits)
  have "kline_loop table format pos (length acc) m = kline_loop table format (pos + 2) (length ?acc) m'"
    using assms(1-5,8) m'(1) by (subst kline_loop.simps) (simp add: MSGLENMAX_def)
  then show ?thesis using m'(2) by blast
qed

lemma drop_Cons_byte:
  assumes "c # r = drop pos s" "cstring s"
  shows "byte_at s pos = Some c" "c \<noteq> NUL" "pos < length s" "r = drop (pos + 1) s"
proof -
  show l: "pos < length s" using assms(1) by (metis drop_all linorder_not_le list.distinct(1))
  then have d: "drop pos s = s ! pos # drop (Suc pos) s" by (simp add: Cons_nth_drop_Suc)
  then show "byte_at s pos = Some c" "r = drop (pos + 1) s" using assms(1) l by simp_all
  have "c \<in> set s" using d assms(1) l by (metis list.inject nth_mem)
  then show "c \<noteq> NUL" using assms(2) by (auto simp: cstring_def)
qed

lemma kline_loop_text:
  assumes f: "cstring format" "length format < 2 ^ 16 - 2" and t: "table_ok table"
    and "keys_only r" "r = drop pos format" "pos \<le> length format" "holds_text m acc"
  shows "\<exists>m'. kline_loop table format pos (length acc) m = Some m' \<and> holds_text m' (kline_text table acc r)"
  using assms(4-)
proof (induction "length r" arbitrary: acc r pos m rule: less_induct)
  case less
  show ?case
  proof (cases r)
    case Nil
    then have "byte_at format pos = Some NUL" using less.prems by (auto simp: byte_at_def)
    then show ?thesis using Nil less.prems by (subst kline_loop.simps) simp
  next
    case (Cons c r')
    note b = drop_Cons_byte [of c r' pos format, OF _ f(1)]
    have c: "byte_at format pos = Some c" "c \<noteq> NUL" "pos < length format" "r' = drop (pos + 1) format"
      using b less.prems(2) Cons by simp_all
    consider "511 \<le> length acc" | "length acc < 511" "c \<noteq> CHR ''%''" | "length acc < 511" "c = CHR ''%''" by linarith
    then show ?thesis
    proof cases
      case 1
      then show ?thesis using c less.prems(4) Cons by (subst kline_loop.simps) (simp add: MSGLENMAX_def)
    next
      case 2
      have "length m = 513" "take (length acc) m = acc" "cstring acc" using less.prems(4) by (auto simp: holds_text_def)
      then obtain m' where m': "holds_text m' (acc @ [c])"
        "kline_loop table format pos (length acc) m = kline_loop table format (pos + 1) (length (acc @ [c])) m'"
        using kline_loop_literal [of format pos c m acc table] 2 c f(2) by auto
      have "\<exists>m''. kline_loop table format (pos + 1) (length (acc @ [c])) m' = Some m'' \<and>
          holds_text m'' (kline_text table (acc @ [c]) r')"
        using less.hyps [of r' "pos + 1" m' "acc @ [c]"] less.prems(1) Cons c 2 m'(1) by simp
      then show ?thesis using m'(2) 2 Cons by simp
    next
      case 3
      then obtain k r'' where k: "r' = k # r''" "k \<noteq> CHR ''%''" "keys_only r''"
        using less.prems(1) Cons by (auto split: list.splits)
      have kb: "byte_at format (pos + 1) = Some k" "k \<noteq> NUL" "pos + 1 < length format" "r'' = drop (pos + 2) format"
        using drop_Cons_byte [of k r'' "pos + 1" format, OF _ f(1)] c(4) k(1) by simp_all
      obtain m' acc' where m': "holds_text m' acc'"
        "acc' = (case map_of table k of None \<Rightarrow> acc
                   | Some d \<Rightarrow> if length d + length acc \<le> 512 then acc @ d else acc)"
        "kline_loop table format pos (length acc) m = kline_loop table format (pos + 2) (length acc') m'"
        using kline_loop_key [of format pos k table m acc] 3 c kb k t less.prems(4) f(2) by auto
      have "\<exists>m''. kline_loop table format (pos + 2) (length acc') m' = Some m'' \<and>
          holds_text m'' (kline_text table acc' r'')"
        using less.hyps [of r'' "pos + 2" m' acc'] Cons k kb m'(1) by simp
      moreover have "kline_text table acc r = kline_text table acc' r''"
        using 3 Cons k(1) m'(2) by (simp split: option.split)
      ultimately show ?thesis using m'(3) by simp
    qed
  qed
qed

lemma kline_text_literal:
  "c \<noteq> CHR ''%'' \<Longrightarrow> kline_text table [] (c # r) = kline_text table [c] r"
  by (subst kline_text.simps) simp

lemma kline_loop_start:
  assumes "cstring format" "length format < 2 ^ 16 - 2" "table_ok table" "keys_only format"
    and "format \<noteq> []" "hd format \<noteq> CHR ''%''" "length message0 = 513"
  shows "\<exists>m'. kline_loop table format 0 0 message0 = Some m' \<and> holds_text m' (kline_text table [] format)"
proof -
  obtain c r where f: "format = c # r" using assms(5) by (cases format) auto
  have c: "c \<noteq> CHR ''%''" using assms(6) f by simp
  have b: "byte_at format 0 = Some c" "c \<noteq> NUL" using f assms(1) by (simp_all add: byte_at_def)
  obtain m' where m': "holds_text m' [c]"
    "kline_loop table format 0 0 message0 = kline_loop table format 1 (length [c]) m'"
    using kline_loop_literal [OF b c, of message0 "[]" table] assms(7) by auto
  have r: "keys_only r" "r = drop 1 format" "1 \<le> length format" using assms(4) c f by simp_all
  obtain m'' where "kline_loop table format 1 (length [c]) m' = Some m''" "holds_text m'' (kline_text table [c] r)"
    using kline_loop_text [OF assms(1-3) r m'(1)] by blast
  then show ?thesis using m'(2) kline_text_literal [OF c, of table r] f by metis
qed

text \<open>A template that ends in a single \<open>%\<close> keeps the loop at its last position.\<close>

lemma kline_loop_stuck:
  assumes "kline_loop table format pos len message = Some r"
  shows "\<not> (byte_at format pos = Some CHR ''%'' \<and> byte_at format (pos + 1) = Some NUL \<and> len < MSGLENMAX - 2)"
    (is "\<not> ?stuck format pos len")
proof (rule kline_loop.raw_induct [of "\<lambda>table format pos len message r. \<not> ?stuck format pos len", OF _ assms])
  fix loop :: "(char \<times> string) list \<Rightarrow> string \<Rightarrow> nat \<Rightarrow> nat \<Rightarrow> string \<Rightarrow> string option"
  fix table format pos len message r
  assume IH: "\<And>table format pos len message r. loop table format pos len message = Some r \<Longrightarrow> \<not> ?stuck format pos len"
    and body: "Option.bind (byte_at format pos) (\<lambda>c.
       if c \<noteq> NUL \<and> len < MSGLENMAX - 2 then
         if c = CHR ''%'' then
           Option.bind (byte_at format (pos + 1)) (\<lambda>k.
             if k = NUL then loop table format pos len message
             else if k = CHR ''%'' then
               Option.bind (poke message len ''%'') (\<lambda>message.
                 loop table format ((pos + 2) mod 2 ^ 16) (len + 1) message)
             else
               Option.bind (kline_insert table k (len, message)) (\<lambda>(len, message).
                 loop table format ((pos + 2) mod 2 ^ 16) len message))
         else
           Option.bind (poke message len [c]) (\<lambda>message.
             Option.bind (poke message (len + 1) [NUL]) (\<lambda>message.
               loop table format ((pos + 1) mod 2 ^ 16) (len + 1) message))
       else Some message) = Some r"
  show "\<not> ?stuck format pos len"
  proof
    assume a: "?stuck format pos len"
    then have "loop table format pos len message = Some r" using body by simp
    then show False using IH a by blast
  qed
qed

lemma scan_irckline_text:
  assumes "cstring format" "length format < 2 ^ 16 - 2" "table_ok table" "keys_only format"
    and "format \<noteq> []" "hd format \<noteq> CHR ''%''" "length message0 = 513"
  shows "scan_irckline message0 format table w = Some (irc_transmit (irc_line (kline_text table [] format)) w)"
proof -
  obtain m where m: "kline_loop table format 0 0 message0 = Some m" "holds_text m (kline_text table [] format)"
    using kline_loop_start [OF assms] by blast
  have "cstring (kline_text table [] format)" "length (kline_text table [] format) \<le> 512"
    using m(2) by (auto simp: holds_text_def)
  then have "irc_send ''%s'' [Str (kline_text table [] format)] w =
      Some (irc_transmit (irc_line (kline_text table [] format)) w)"
    by (intro irc_send_eq) (simp_all add: fmt_simps)
  then show ?thesis using m holds_text_buffer [OF m(2)] by (simp add: scan_irckline_def)
qed

section \<open>Properties\<close>




end
