(* ===== verification/Negcache.thy ===== *)
theory Negcache
  imports Prelude
begin

text \<open>
  The negative cache of negcache.c: a Patricia trie over IPv4 addresses, with the time
  each address was last seen.  The nodes are \<open>struct cnode\<close>s in memory; links that do not
  go down point back at an ancestor or at the node itself.

  \<open>unsigned long\<close> is 64 bits wide, so \<open>maxb\<close> is 64, and the macro
  \<open>GETBIT (x, k) = (x >> k) & 1\<close> is applied with \<open>k = maxb\<close> (in \<open>nc_insert\<close> and
  through the head, whose \<open>b\<close> is \<open>maxb\<close>).  C does not define a shift by the width of the
  type, so what it gives is the parameter \<open>wide\<close> of the model: \<open>wide x\<close> is the value of
  \<open>GETBIT (x, 64)\<close>.  The trie is correct on a machine where \<open>wide x\<close> is 0; on a machine
  that takes the shift count modulo 64 it is not.
\<close>

section \<open>Nodes and operations\<close>

record cnode =
  nip :: ulong
  nseen :: int
  nb :: nat
  nl :: ptr
  nr :: ptr

definition maxb :: nat where
  "maxb = 64"

definition GETBIT :: "(ulong \<Rightarrow> bool) \<Rightarrow> ulong \<Rightarrow> nat \<Rightarrow> bool" where
  "GETBIT wide x k = (if k < 64 then bit x k else wide x)"

text \<open>The two readings of the shift that occur: zero, and the count taken modulo the width.\<close>

definition shift_zero :: "ulong \<Rightarrow> bool" where
  "shift_zero x = False"

definition shift_masked :: "ulong \<Rightarrow> bool" where
  "shift_masked x = bit x 0"

text \<open>\<open>nc_init\<close>: nothing happens when there is a cache already.\<close>

definition nc_init :: "cnode mem \<Rightarrow> ptr \<Rightarrow> (ptr \<times> cnode mem) option" where
  "nc_init m head =
     (if head \<noteq> NULL then Some (head, m)
      else let (h, m) = MyMalloc m \<lparr>nip = 0, nseen = 0, nb = 0, nl = NULL, nr = NULL\<rparr>
           in do {
             m \<leftarrow> mem_store m h \<lparr>nip = 0, nseen = 0, nb = maxb, nl = h, nr = h\<rparr>;
             Some (h, m) })"

text \<open>The descent both \<open>nc_search\<close> and \<open>nc_insert\<close> start with: the final \<open>p\<close> and \<open>x\<close>.\<close>

function nc_walk :: "(ulong \<Rightarrow> bool) \<Rightarrow> cnode mem \<Rightarrow> ulong \<Rightarrow> ptr \<Rightarrow> ptr \<Rightarrow> (ptr \<times> ptr) option" where
  "nc_walk wide m ip p x =
     do {
       np \<leftarrow> mem_load m p;
       nx \<leftarrow> mem_load m x;
       if nb np > nb nx
       then nc_walk wide m ip x (if GETBIT wide ip (nb nx) then nr nx else nl nx)
       else Some (p, x) }"
  by pat_completeness auto
termination
  by (relation "measure (\<lambda>(wide, m, ip, p, x). case mem_load m p of None \<Rightarrow> 0 | Some n \<Rightarrow> nb n)") auto

definition nc_search :: "(ulong \<Rightarrow> bool) \<Rightarrow> cnode mem \<Rightarrow> ptr \<Rightarrow> ulong \<Rightarrow> ptr option" where
  "nc_search wide m head ip = do {
     h \<leftarrow> mem_load m head;
     (p, x) \<leftarrow> nc_walk wide m ip head (nl h);
     nx \<leftarrow> mem_load m x;
     Some (if ip = nip nx then x else NULL) }"

text \<open>\<open>while (GETBIT (t->ip, i) == GETBIT (ip, i)) i--\<close>; \<open>None\<close> when \<open>i\<close> would wrap around.\<close>

fun nc_diffbit :: "(ulong \<Rightarrow> bool) \<Rightarrow> ulong \<Rightarrow> ulong \<Rightarrow> nat \<Rightarrow> nat option" where
  "nc_diffbit wide tip ip i =
     (if GETBIT wide tip i = GETBIT wide ip i
      then (case i of 0 \<Rightarrow> None | Suc j \<Rightarrow> nc_diffbit wide tip ip j)
      else Some i)"

text \<open>The second descent of \<open>nc_insert\<close>, which also stops at bit \<open>i\<close>.\<close>

function nc_walk2 ::
  "(ulong \<Rightarrow> bool) \<Rightarrow> cnode mem \<Rightarrow> ulong \<Rightarrow> nat \<Rightarrow> ptr \<Rightarrow> ptr \<Rightarrow> (ptr \<times> ptr) option" where
  "nc_walk2 wide m ip i p x =
     do {
       np \<leftarrow> mem_load m p;
       nx \<leftarrow> mem_load m x;
       if nb np > nb nx \<and> nb nx > i
       then nc_walk2 wide m ip i x (if GETBIT wide ip (nb nx) then nr nx else nl nx)
       else Some (p, x) }"
  by pat_completeness auto
termination
  by (relation "measure (\<lambda>(wide, m, ip, i, p, x). case mem_load m p of None \<Rightarrow> 0 | Some n \<Rightarrow> nb n)") auto

declare nc_walk.simps [simp del] nc_walk2.simps [simp del] nc_diffbit.simps [simp del]

definition nc_insert :: "(ulong \<Rightarrow> bool) \<Rightarrow> cnode mem \<Rightarrow> ptr \<Rightarrow> ulong \<Rightarrow> (ptr \<times> cnode mem) option" where
  "nc_insert wide m head ip = do {
     h \<leftarrow> mem_load m head;
     (p, t) \<leftarrow> nc_walk wide m ip head (nl h);
     nt \<leftarrow> mem_load m t;
     if ip = nip nt then Some (t, m)
     else do {
       i \<leftarrow> nc_diffbit wide (nip nt) ip maxb;
       (p, x) \<leftarrow> nc_walk2 wide m ip i head (nl h);
       let (t, m) = MyMalloc m \<lparr>nip = 0, nseen = 0, nb = 0, nl = NULL, nr = NULL\<rparr>;
       m \<leftarrow> mem_store m t \<lparr>nip = ip, nseen = 0, nb = i,
              nl = (if GETBIT wide ip i then x else t), nr = (if GETBIT wide ip i then t else x)\<rparr>;
       np \<leftarrow> mem_load m p;
       m \<leftarrow> mem_store m p (if GETBIT wide ip (nb np) then np\<lparr>nr := t\<rparr> else np\<lparr>nl := t\<rparr>);
       Some (t, m) } }"

text \<open>\<open>n->seen = now\<close> for the node an insertion returned.\<close>

definition set_seen :: "cnode mem \<Rightarrow> ptr \<Rightarrow> int \<Rightarrow> cnode mem option" where
  "set_seen m p now = do { n \<leftarrow> mem_load m p; mem_store m p (n\<lparr>nseen := now\<rparr>) }"

text \<open>
  \<open>check_neg_cache\<close>: the node, or NULL when the cache is off, the address is not in it or
  the entry is older than \<open>negcache\<close> seconds.
\<close>

definition check_neg_cache ::
  "(ulong \<Rightarrow> bool) \<Rightarrow> cnode mem \<Rightarrow> ptr \<Rightarrow> int \<Rightarrow> int \<Rightarrow> ulong \<Rightarrow> ptr option" where
  "check_neg_cache wide m nc_head negcache now ip =
     (if negcache \<le> 0 then Some NULL
      else do {
        n \<leftarrow> nc_search wide m nc_head ip;
        if n \<noteq> NULL then do {
          c \<leftarrow> mem_load m n;
          Some (if now - nseen c \<le> negcache then n else NULL) }
        else Some NULL })"

text \<open>\<open>negcache_insert\<close> after the address has been parsed.\<close>

definition negcache_insert_ip ::
  "(ulong \<Rightarrow> bool) \<Rightarrow> cnode mem \<Rightarrow> ptr \<Rightarrow> int \<Rightarrow> ulong \<Rightarrow> cnode mem option" where
  "negcache_insert_ip wide m nc_head now ip = do {
     (n, m) \<leftarrow> nc_insert wide m nc_head ip;
     if n \<noteq> NULL then set_seen m n now else Some m }"

text \<open>
  \<open>nc_rebuild\<close>: the recursion descends in \<open>b\<close>, so it is at most \<open>maxb\<close> deep; the fuel
  counts the depth.  The first call passes a NULL \<open>n\<close>.
\<close>

fun nc_rebuild ::
  "nat \<Rightarrow> (ulong \<Rightarrow> bool) \<Rightarrow> int \<Rightarrow> cnode mem \<Rightarrow> ptr \<Rightarrow> ptr \<Rightarrow> ptr \<Rightarrow> int \<Rightarrow> cnode mem option" where
  "nc_rebuild 0 wide negcache m old_head new_head n now = None"
| "nc_rebuild (Suc k) wide negcache m old_head new_head n now = do {
     n \<leftarrow> (if n = NULL then map_option nl (mem_load m old_head) else Some n);
     if n = old_head then Some m
     else do {
       c \<leftarrow> mem_load m n;
       lc \<leftarrow> mem_load m (nl c);
       m \<leftarrow> (if nb c > nb lc then nc_rebuild k wide negcache m old_head new_head (nl c) now else Some m);
       c \<leftarrow> mem_load m n;
       rc \<leftarrow> mem_load m (nr c);
       m \<leftarrow> (if nb c > nb rc then nc_rebuild k wide negcache m old_head new_head (nr c) now else Some m);
       c \<leftarrow> mem_load m n;
       m \<leftarrow> (if now - nseen c < negcache then do {
               (new, m) \<leftarrow> nc_insert wide m new_head (nip c);
               c \<leftarrow> mem_load m n;
               set_seen m new (nseen c) }
             else Some m);
       MyFree m n } }"

definition negcache_rebuild ::
  "(ulong \<Rightarrow> bool) \<Rightarrow> int \<Rightarrow> cnode mem \<Rightarrow> ptr \<Rightarrow> int \<Rightarrow> (ptr \<times> cnode mem) option" where
  "negcache_rebuild wide negcache m nc_head now = do {
     (new_head, m) \<leftarrow> nc_init m NULL;
     m \<leftarrow> nc_rebuild (Suc maxb) wide negcache m nc_head new_head NULL now;
     m \<leftarrow> MyFree m nc_head;
     Some (new_head, m) }"

section \<open>The trie behind the nodes\<close>

text \<open>
  A ghost tree: \<open>Up a k\<close> is a link back to the node at \<open>a\<close>, whose address is \<open>k\<close>;
  \<open>Dn a k s b l r\<close> is the node at \<open>a\<close> reached from above.
\<close>

datatype ptree = Up ptr ulong | Dn ptr ulong int nat ptree ptree

fun root :: "ptree \<Rightarrow> ptr" where
  "root (Up a k) = a"
| "root (Dn a k s b l r) = a"

fun leaves :: "ptree \<Rightarrow> (ptr \<times> ulong) set" where
  "leaves (Up a k) = {(a, k)}"
| "leaves (Dn a k s b l r) = leaves l \<union> leaves r"

fun inner :: "ptree \<Rightarrow> (ptr \<times> ulong \<times> int) set" where
  "inner (Up a k) = {}"
| "inner (Dn a k s b l r) = insert (a, k, s) (inner l \<union> inner r)"

fun addrs :: "ptree \<Rightarrow> ptr set" where
  "addrs (Up a k) = {}"
| "addrs (Dn a k s b l r) = insert a (addrs l \<union> addrs r)"

definition keys :: "ptree \<Rightarrow> ulong set" where
  "keys t = snd ` leaves t"

fun trep :: "cnode mem \<Rightarrow> nat \<Rightarrow> ptree \<Rightarrow> bool" where
  "trep m bd (Up a k) \<longleftrightarrow> (\<exists>n. cells m a = Some n \<and> bd \<le> nb n \<and> nip n = k)"
| "trep m bd (Dn a k s b l r) \<longleftrightarrow>
     cells m a = Some \<lparr>nip = k, nseen = s, nb = b, nl = root l, nr = root r\<rparr> \<and> b < bd \<and>
     trep m b l \<and> trep m b r"

text \<open>
  The order of the trie: below a node for bit \<open>b\<close> the addresses agree above \<open>b\<close>, and \<open>b\<close>
  decides the side.
\<close>

fun ordered :: "ptree \<Rightarrow> bool" where
  "ordered (Up a k) \<longleftrightarrow> True"
| "ordered (Dn a k s b l r) \<longleftrightarrow> ordered l \<and> ordered r \<and>
     (\<forall>x \<in> keys l. \<not> bit x b) \<and> (\<forall>x \<in> keys r. bit x b) \<and>
     (\<forall>x \<in> keys l \<union> keys r. \<forall>y \<in> keys l \<union> keys r. \<forall>j > b. bit x j = bit y j)"

text \<open>No node occurs twice, and links up go to the nodes of \<open>A\<close> or to nodes on the path.\<close>

fun simple :: "ptree \<Rightarrow> bool" where
  "simple (Up a k) \<longleftrightarrow> True"
| "simple (Dn a k s b l r) \<longleftrightarrow> simple l \<and> simple r \<and> a \<notin> addrs l \<and> a \<notin> addrs r \<and> addrs l \<inter> addrs r = {}"

fun anc_ok :: "ptr set \<Rightarrow> ptree \<Rightarrow> bool" where
  "anc_ok A (Up a k) \<longleftrightarrow> a \<in> A"
| "anc_ok A (Dn a k s b l r) \<longleftrightarrow> anc_ok (insert a A) l \<and> anc_ok (insert a A) r"

definition trie :: "cnode mem \<Rightarrow> ptr \<Rightarrow> int \<Rightarrow> ptree \<Rightarrow> bool" where
  "trie m head s0 t \<longleftrightarrow>
     head \<noteq> NULL \<and>
     cells m head = Some \<lparr>nip = 0, nseen = s0, nb = maxb, nl = root t, nr = head\<rparr> \<and>
     trep m maxb t \<and> ordered t \<and> simple t \<and> anc_ok {head} t \<and> head \<notin> addrs t \<and> NULL \<notin> addrs t \<and>
     (\<forall>a k. (a, k) \<in> leaves t \<longleftrightarrow> (a, k) = (head, 0) \<or> (\<exists>s. (a, k, s) \<in> inner t)) \<and>
     (\<forall>a a' k. (a, k) \<in> leaves t \<longrightarrow> (a', k) \<in> leaves t \<longrightarrow> a = a')"

text \<open>The contents of a trie: the addresses with the times they were seen.\<close>

definition entries :: "int \<Rightarrow> ptree \<Rightarrow> (ulong \<times> int) set" where
  "entries s0 t = {(k, s). k = 0 \<and> s = s0 \<or> (\<exists>a. (a, k, s) \<in> inner t)}"


section \<open>Searching\<close>

fun descend :: "ulong \<Rightarrow> ptree \<Rightarrow> ptr \<times> ulong" where
  "descend ip (Up a k) = (a, k)"
| "descend ip (Dn a k s b l r) = descend ip (if bit ip b then r else l)"

lemma GETBIT_zero [simp]: "GETBIT shift_zero x k = bit x k"
proof (cases "k < 64")
  case False
  then have "\<not> bit x k" using bit_imp_le_length [of x k] by auto
  with False show ?thesis by (simp add: GETBIT_def shift_zero_def)
qed (simp add: GETBIT_def)

lemma descend_leaf: "descend ip t \<in> leaves t"
  by (induction ip t rule: descend.induct) auto

lemma keys_simps [simp]: "keys (Up a k) = {k}" "keys (Dn a k s b l r) = keys l \<union> keys r"
  by (auto simp: keys_def)

lemma descend_in_keys: "snd (descend ip t) \<in> keys t"
  using descend_leaf by (auto simp: keys_def)

lemma descend_key: "ordered t \<Longrightarrow> ip \<in> keys t \<Longrightarrow> snd (descend ip t) = ip"
  by (induction ip t rule: descend.induct) auto

lemma trep_root: "trep m bd t \<Longrightarrow> \<exists>n. cells m (root t) = Some n"
  by (cases t) auto

lemma nc_walk_trep:
  "trep m bd t \<Longrightarrow> cells m p = Some np \<Longrightarrow> nb np = bd \<Longrightarrow>
   \<exists>p'. nc_walk shift_zero m ip p (root t) = Some (p', fst (descend ip t))"
proof (induction t arbitrary: p np bd)
  case (Up a k)
  then show ?case by (subst nc_walk.simps) (auto simp: mem_load_def)
next
  case (Dn a k s b l r)
  let ?n = "\<lparr>nip = k, nseen = s, nb = b, nl = root l, nr = root r\<rparr>"
  let ?t = "if bit ip b then r else l"
  have a: "cells m a = Some ?n" and t: "trep m b ?t" and b: "b < bd" using Dn.prems by auto
  have "\<exists>p'. nc_walk shift_zero m ip a (root ?t) = Some (p', fst (descend ip ?t))"
    using Dn.IH t a by (cases "bit ip b") auto
  then show ?case using a b Dn.prems(2,3)
    by (subst nc_walk.simps) (auto simp: mem_load_def split: if_splits)
qed

lemma trep_leaf: "trep m bd t \<Longrightarrow> (a, k) \<in> leaves t \<Longrightarrow> \<exists>n. cells m a = Some n \<and> nip n = k"
  by (induction t arbitrary: bd) auto

lemma trep_inner:
  "trep m bd t \<Longrightarrow> (a, k, s) \<in> inner t \<Longrightarrow> \<exists>n. cells m a = Some n \<and> nip n = k \<and> nseen n = s"
  by (induction t arbitrary: bd) auto

lemma addrs_inner: "a \<in> addrs t \<longleftrightarrow> (\<exists>k s. (a, k, s) \<in> inner t)"
  by (induction t) auto

lemma trie_facts:
  assumes "trie m head s0 t"
  shows "head \<noteq> NULL" "cells m head = Some \<lparr>nip = 0, nseen = s0, nb = maxb, nl = root t, nr = head\<rparr>"
    "ordered t" "simple t" "anc_ok {head} t" "NULL \<notin> addrs t" "head \<notin> addrs t"
  using assms unfolding trie_def by blast+

lemma trie_trep: "trie m head s0 t \<Longrightarrow> trep m maxb t"
  by (simp add: trie_def)

lemma trie_walk:
  assumes "trie m head s0 t"
  shows "\<exists>p'. nc_walk shift_zero m ip head (root t) = Some (p', fst (descend ip t))"
  by (rule nc_walk_trep [OF trie_trep [OF assms] trie_facts(2) [OF assms]]) simp

lemma trie_leaves:
  "trie m head s0 t \<Longrightarrow> (a, k) \<in> leaves t \<longleftrightarrow> (a, k) = (head, 0) \<or> (\<exists>s. (a, k, s) \<in> inner t)"
  by (simp add: trie_def)

lemma trie_uniq: "trie m head s0 t \<Longrightarrow> (a, k) \<in> leaves t \<Longrightarrow> (a', k) \<in> leaves t \<Longrightarrow> a = a'"
  unfolding trie_def by blast

lemma trie_keys: "trie m head s0 t \<Longrightarrow> ip \<in> keys t \<longleftrightarrow> (\<exists>s. (ip, s) \<in> entries s0 t)"
proof -
  assume t: "trie m head s0 t"
  have "ip \<in> keys t \<longleftrightarrow> (\<exists>a. (a, ip) \<in> leaves t)" by (force simp: keys_def)
  then show ?thesis unfolding trie_leaves [OF t] by (auto simp: entries_def)
qed

lemma trie_leaf_nonnull: "trie m head s0 t \<Longrightarrow> (a, k) \<in> leaves t \<Longrightarrow> a \<noteq> NULL"
  by (metis trie_leaves trie_facts(1,6) addrs_inner prod.inject)

lemma nc_search_trie:
  assumes "trie m head s0 t"
  shows "nc_search shift_zero m head ip = Some (if ip \<in> keys t then fst (descend ip t) else NULL)"
proof -
  obtain a k where d: "descend ip t = (a, k)" by (cases "descend ip t")
  have leaf: "(a, k) \<in> leaves t" using descend_leaf [of ip t] d by simp
  then obtain n where n: "cells m a = Some n" "nip n = k"
    using trep_leaf [OF trie_trep [OF assms]] by blast
  have k: "ip \<in> keys t \<longleftrightarrow> ip = k"
    using descend_key [of t ip] descend_in_keys [of ip t] trie_facts(3) [OF assms] d by auto
  obtain p' where "nc_walk shift_zero m ip head (root t) = Some (p', a)"
    using trie_walk [OF assms, of ip] d by auto
  then show ?thesis using trie_facts(2) [OF assms] n k d by (auto simp: nc_search_def mem_load_def)
qed

text \<open>The cache as a map from addresses to times.\<close>

definition nc_map :: "cnode mem \<Rightarrow> ptr \<Rightarrow> ulong \<Rightarrow> int option" where
  "nc_map m head ip = do {
     x \<leftarrow> nc_search shift_zero m head ip;
     if x = NULL then None else map_option nseen (mem_load m x) }"

lemma nc_map_entries:
  assumes t: "trie m head s0 t"
  shows "nc_map m head ip = Some s \<longleftrightarrow> (ip, s) \<in> entries s0 t"
proof -
  note keys = trie_keys [OF t]
  note uniq = trie_uniq [OF t]
  have cell: "\<exists>a n. (a, ip) \<in> leaves t \<and> cells m a = Some n \<and> nseen n = s" if "(ip, s) \<in> entries s0 t" for s
  proof (cases "\<exists>a. (a, ip, s) \<in> inner t")
    case True
    then obtain a where a: "(a, ip, s) \<in> inner t" by blast
    then have "(a, ip) \<in> leaves t" by (force simp: trie_leaves [OF t])
    then show ?thesis using trep_inner [OF trie_trep [OF t] a] by blast
  next
    case False
    then have "ip = 0" "s = s0" using that by (auto simp: entries_def)
    then show ?thesis using trie_facts(2) [OF t] trie_leaves [OF t, of head 0] by auto
  qed
  show ?thesis
  proof (cases "ip \<in> keys t")
    case True
    obtain a where d: "descend ip t = (a, ip)"
      using descend_key [of t ip] True trie_facts(3) [OF t] by (cases "descend ip t") auto
    have la: "(a, ip) \<in> leaves t" using descend_leaf [of ip t] d by simp
    obtain n where n: "cells m a = Some n" using trep_leaf [OF trie_trep [OF t] la] by blast
    have "nc_map m head ip = Some (nseen n)"
      using nc_search_trie [OF t, of ip] True d n trie_leaf_nonnull [OF t la]
      by (simp add: nc_map_def mem_load_def)
    moreover have "(ip, s) \<in> entries s0 t \<longleftrightarrow> s = nseen n" for s
    proof
      assume "(ip, s) \<in> entries s0 t"
      then show "s = nseen n" using cell uniq la n by fastforce
    next
      assume s: "s = nseen n"
      obtain s' where "(ip, s') \<in> entries s0 t" using True keys by blast
      moreover from this have "s' = nseen n" using cell uniq la n by fastforce
      ultimately show "(ip, s) \<in> entries s0 t" by (simp add: s)
    qed
    ultimately show ?thesis by auto
  next
    case False
    then show ?thesis using nc_search_trie [OF t, of ip] keys by (auto simp: nc_map_def)
  qed
qed


section \<open>Inserting\<close>

definition graft :: "ulong \<Rightarrow> nat \<Rightarrow> ptr \<Rightarrow> ptree \<Rightarrow> ptree" where
  "graft ip i q t = (if bit ip i then Dn q ip 0 i t (Up q ip) else Dn q ip 0 i (Up q ip) t)"

fun ins :: "ulong \<Rightarrow> nat \<Rightarrow> ptr \<Rightarrow> ptree \<Rightarrow> ptree" where
  "ins ip i q (Up a k) = graft ip i q (Up a k)"
| "ins ip i q (Dn a k s b l r) =
     (if i < b then (if bit ip b then Dn a k s b l (ins ip i q r) else Dn a k s b (ins ip i q l) r)
      else graft ip i q (Dn a k s b l r))"

text \<open>Where the second descent stops: the parent and the subtree that is displaced.\<close>

fun ins_parent :: "ulong \<Rightarrow> nat \<Rightarrow> ptr \<Rightarrow> ptree \<Rightarrow> ptr" where
  "ins_parent ip i p (Up a k) = p"
| "ins_parent ip i p (Dn a k s b l r) =
     (if i < b then ins_parent ip i a (if bit ip b then r else l) else p)"

fun ins_target :: "ulong \<Rightarrow> nat \<Rightarrow> ptree \<Rightarrow> ptree" where
  "ins_target ip i (Up a k) = Up a k"
| "ins_target ip i (Dn a k s b l r) =
     (if i < b then ins_target ip i (if bit ip b then r else l) else Dn a k s b l r)"

lemma nc_diffbit_spec:
  assumes "\<And>j. n < j \<Longrightarrow> bit a j = bit c j" "a \<noteq> c"
  shows "\<exists>i. nc_diffbit shift_zero a c n = Some i \<and> bit a i \<noteq> bit c i \<and> (\<forall>j > i. bit a j = bit c j)"
  using assms(1)
proof (induction n)
  case 0
  have "bit a 0 \<noteq> bit c 0"
  proof
    assume "bit a 0 = bit c 0"
    then have "bit a j = bit c j" for j using 0 by (cases j) auto
    then show False using assms(2) by (auto intro: bit_eqI)
  qed
  then show ?case using 0 by (subst nc_diffbit.simps) auto
next
  case (Suc n)
  show ?case
  proof (cases "bit a (Suc n) = bit c (Suc n)")
    case True
    have "bit a j = bit c j" if "n < j" for j
      using True Suc.prems [of j] that by (cases "j = Suc n") auto
    from Suc.IH [OF this] show ?thesis using True by (subst nc_diffbit.simps) auto
  next
    case False
    then show ?thesis using Suc.prems by (subst nc_diffbit.simps) auto
  qed
qed

lemma nc_diffbit_maxb:
  assumes "a \<noteq> c"
  obtains i where "nc_diffbit shift_zero a c maxb = Some i" "i < maxb" "bit a i \<noteq> bit c i"
    "\<And>j. i < j \<Longrightarrow> bit a j = bit c j"
proof -
  have big: "bit x j = False" if "maxb \<le> j" for x :: ulong and j
    using that bit_imp_le_length [of x j] by (auto simp: maxb_def)
  then obtain i where i: "nc_diffbit shift_zero a c maxb = Some i" "bit a i \<noteq> bit c i"
      "\<forall>j > i. bit a j = bit c j"
    using nc_diffbit_spec [of maxb a c] assms by auto
  then have "i < maxb" using big by (meson not_le_imp_less)
  with i that show ?thesis by blast
qed

lemma ordered_Dn:
  assumes "ordered (Dn a k s b l r)"
  shows "ordered l" "ordered r" "x \<in> keys l \<Longrightarrow> \<not> bit x b" "x \<in> keys r \<Longrightarrow> bit x b"
    and "x \<in> keys l \<union> keys r \<Longrightarrow> y \<in> keys l \<union> keys r \<Longrightarrow> b < j \<Longrightarrow> bit x j = bit y j"
  using assms unfolding ordered.simps by blast+

lemma descend_side:
  assumes "ordered (Dn a k s b l r)"
  shows "bit (snd (descend ip (if bit ip b then r else l))) b = bit ip b"
  using descend_in_keys [of ip l] descend_in_keys [of ip r] ordered_Dn(3,4) [OF assms] by auto

lemma ordered_graft:
  assumes "ordered t" and "\<And>x. x \<in> keys t \<Longrightarrow> bit x i \<noteq> bit ip i"
    and "\<And>x j. x \<in> keys t \<Longrightarrow> i < j \<Longrightarrow> bit x j = bit ip j"
  shows "ordered (graft ip i q t) \<and> keys (graft ip i q t) = insert ip (keys t)"
  using assms by (auto simp: graft_def)

lemma ordered_ins:
  assumes "ordered t" "bit (snd (descend ip t)) i \<noteq> bit ip i"
    and "\<And>j. i < j \<Longrightarrow> bit (snd (descend ip t)) j = bit ip j"
  shows "ordered (ins ip i q t) \<and> keys (ins ip i q t) = insert ip (keys t)"
  using assms
proof (induction t)
  case (Up a k)
  then show ?case by (auto simp: graft_def)
next
  case (Dn a k s b l r)
  let ?c = "if bit ip b then r else l"
  let ?k = "snd (descend ip ?c)"
  have kc: "?k \<in> keys ?c" by (rule descend_in_keys)
  then have kk: "?k \<in> keys l \<union> keys r" by (auto split: if_splits)
  have d: "descend ip (Dn a k s b l r) = descend ip ?c" by simp
  note O = ordered_Dn [OF Dn.prems(1)]
  have above: "bit x j = bit ?k j" if "x \<in> keys l \<union> keys r" "b < j" for x j
    by (rule O(5) [OF that(1) kk that(2)])
  show ?case
  proof (cases "i < b")
    case True
    have oc: "ordered ?c" using O(1,2) by auto
    have IH: "ordered (ins ip i q ?c) \<and> keys (ins ip i q ?c) = insert ip (keys ?c)"
      using Dn.IH oc Dn.prems(2,3) unfolding d by (cases "bit ip b") auto
    have "bit x j = bit ip j" if "x \<in> keys l \<union> keys r" "b < j" for x j
      using above [OF that] that Dn.prems(3) [of j] True d by auto
    then show ?thesis using True IH O(1-4) by (cases "bit ip b") auto
  next
    case False
    have "b \<noteq> i"
    proof
      assume "b = i"
      then show False using Dn.prems(2) descend_side [OF Dn.prems(1), of ip] d by simp
    qed
    then have bi: "b < i" using False by simp
    have ag: "bit x i \<noteq> bit ip i" "\<And>j. i < j \<Longrightarrow> bit x j = bit ip j" if "x \<in> keys l \<union> keys r" for x
      using above [OF that] Dn.prems(2,3) bi unfolding d by auto
    have "ordered (graft ip i q (Dn a k s b l r)) \<and>
        keys (graft ip i q (Dn a k s b l r)) = insert ip (keys (Dn a k s b l r))"
      by (rule ordered_graft [OF Dn.prems(1)]) (use ag in \<open>auto simp: keys_simps\<close>)
    then show ?thesis using False by (simp only: ins.simps if_False)
  qed
qed

lemma ins_target_bound:
  assumes "ordered t" "bit (snd (descend ip t)) i \<noteq> bit ip i"
    and "ins_target ip i t = Dn a k s b l r"
  shows "b < i"
  using assms
proof (induction t)
  case (Dn a' k' s' b' l' r')
  show ?case
  proof (cases "i < b'")
    case True
    then show ?thesis using Dn.IH ordered_Dn(1,2) [OF Dn.prems(1)] Dn.prems(2,3) by (auto split: if_splits)
  next
    case False
    have "b' \<noteq> i" using Dn.prems(2) descend_side [OF Dn.prems(1), of ip] by auto
    then show ?thesis using False Dn.prems(3) by auto
  qed
qed simp

lemma inner_ins: "inner (ins ip i q t) = insert (q, ip, 0) (inner t)"
  by (induction ip i q t rule: ins.induct) (auto simp: graft_def)

lemma leaves_ins: "leaves (ins ip i q t) = insert (q, ip) (leaves t)"
  by (induction ip i q t rule: ins.induct) (auto simp: graft_def)

lemma addrs_ins: "addrs (ins ip i q t) = insert q (addrs t)"
  by (induction ip i q t rule: ins.induct) (auto simp: graft_def)

lemma simple_ins: "simple t \<Longrightarrow> q \<notin> addrs t \<Longrightarrow> simple (ins ip i q t)"
  by (induction ip i q t rule: ins.induct) (auto simp: graft_def addrs_ins)

lemma anc_ok_mono: "anc_ok A t \<Longrightarrow> A \<subseteq> B \<Longrightarrow> anc_ok B t"
  by (induction A t arbitrary: B rule: anc_ok.induct) (auto, blast+)

lemma anc_ok_ins: "anc_ok A t \<Longrightarrow> anc_ok A (ins ip i q t)"
  by (induction ip i q t arbitrary: A rule: ins.induct)
    (auto simp: graft_def intro: anc_ok_mono)

lemma ins_parent_mem: "ins_parent ip i p t = p \<or> ins_parent ip i p t \<in> addrs t"
  by (induction ip i p t rule: ins_parent.induct) (auto split: if_splits)

lemma nc_walk2_trep:
  "trep m bd t \<Longrightarrow> cells m p = Some np \<Longrightarrow> nb np = bd \<Longrightarrow>
   nc_walk2 shift_zero m ip i p (root t) = Some (ins_parent ip i p t, root (ins_target ip i t))"
proof (induction t arbitrary: p np bd)
  case (Up a k)
  then show ?case by (subst nc_walk2.simps) (auto simp: mem_load_def)
next
  case (Dn a k s b l r)
  let ?n = "\<lparr>nip = k, nseen = s, nb = b, nl = root l, nr = root r\<rparr>"
  let ?t = "if bit ip b then r else l"
  have a: "cells m a = Some ?n" and t: "trep m b ?t" and b: "b < bd" using Dn.prems by auto
  have "nc_walk2 shift_zero m ip i a (root ?t) = Some (ins_parent ip i a ?t, root (ins_target ip i ?t))"
    using Dn.IH t a by (cases "bit ip b") auto
  then show ?case using a b Dn.prems(2,3)
    by (subst nc_walk2.simps) (auto simp: mem_load_def split: if_splits)
qed

text \<open>Changes of memory that keep the bit index and the address of every node.\<close>

definition same_shape :: "cnode mem \<Rightarrow> cnode mem \<Rightarrow> bool" where
  "same_shape m m' \<longleftrightarrow>
     (\<forall>a n. cells m a = Some n \<longrightarrow> (\<exists>n'. cells m' a = Some n' \<and> nb n' = nb n \<and> nip n' = nip n))"

lemma trep_frame:
  assumes "trep m bd t" "same_shape m m'" "\<And>a. a \<in> addrs t \<Longrightarrow> cells m' a = cells m a"
  shows "trep m' bd t"
  using assms
proof (induction t arbitrary: bd)
  case (Up a k)
  then show ?case by (fastforce simp: same_shape_def)
qed auto

definition link_child :: "ulong \<Rightarrow> cnode \<Rightarrow> ptr \<Rightarrow> cnode" where
  "link_child ip np q = (if bit ip (nb np) then np\<lparr>nr := q\<rparr> else np\<lparr>nl := q\<rparr>)"

lemma trep_ins:
  assumes "trep m bd t" "simple t" "p \<notin> addrs t" "i < bd"
    and "\<And>a k s b l r. ins_target ip i t = Dn a k s b l r \<Longrightarrow> b < i"
    and "cells m' q = Some \<lparr>nip = ip, nseen = 0, nb = i,
           nl = (if bit ip i then root (ins_target ip i t) else q),
           nr = (if bit ip i then q else root (ins_target ip i t))\<rparr>"
    and "same_shape m m'"
    and "\<And>a. a \<in> addrs t \<Longrightarrow> a \<noteq> ins_parent ip i p t \<Longrightarrow> cells m' a = cells m a"
    and "\<And>np. ins_parent ip i p t \<noteq> p \<Longrightarrow> cells m (ins_parent ip i p t) = Some np \<Longrightarrow>
           cells m' (ins_parent ip i p t) = Some (link_child ip np q)"
  shows "trep m' bd (ins ip i q t) \<and>
         root (ins ip i q t) = (if ins_parent ip i p t = p then q else root t)"
  using assms
proof (induction t arbitrary: p bd)
  case (Up a k)
  then show ?case by (fastforce simp: graft_def same_shape_def)
next
  case (Dn a k s b l r)
  show ?case
  proof (cases "i < b")
    case False
    let ?t = "Dn a k s b l r"
    have f: "trep m' bd ?t"
      by (rule trep_frame [OF Dn.prems(1,7)]) (use Dn.prems(3,8) False in auto)
    moreover have "b < i" using Dn.prems(5) False by simp
    ultimately show ?thesis using False Dn.prems(4,6) by (auto simp: graft_def)
  next
    case True
    let ?c = "if bit ip b then r else l"
    let ?d = "if bit ip b then l else r"
    let ?p = "ins_parent ip i a ?c"
    have ac: "a \<notin> addrs ?c" "a \<notin> addrs ?d" "addrs ?c \<inter> addrs ?d = {}" using Dn.prems(2) by auto
    have par: "ins_parent ip i p (Dn a k s b l r) = ?p" using True by simp
    have pm: "?p = a \<or> ?p \<in> addrs ?c" by (rule ins_parent_mem)
    then have pp: "?p \<noteq> p" "?p \<notin> addrs ?d" using Dn.prems(3) ac by (auto split: if_splits)
    have IH: "trep m' b (ins ip i q ?c) \<and> root (ins ip i q ?c) = (if ?p = a then q else root ?c)"
    proof -
      have prems: "trep m b ?c" "simple ?c" "a \<notin> addrs ?c" "i < b"
        "\<And>a k s b l r. ins_target ip i ?c = Dn a k s b l r \<Longrightarrow> b < i"
        "cells m' q = Some \<lparr>nip = ip, nseen = 0, nb = i,
           nl = (if bit ip i then root (ins_target ip i ?c) else q),
           nr = (if bit ip i then q else root (ins_target ip i ?c))\<rparr>"
        "\<And>a'. a' \<in> addrs ?c \<Longrightarrow> a' \<noteq> ?p \<Longrightarrow> cells m' a' = cells m a'"
        "\<And>np. ?p \<noteq> a \<Longrightarrow> cells m ?p = Some np \<Longrightarrow> cells m' ?p = Some (link_child ip np q)"
        using Dn.prems(1,2,5,6,8,9) True ac pp(1) unfolding par by (auto split: if_splits)
      show ?thesis
        by (cases "bit ip b") (use Dn.IH prems Dn.prems(7) in \<open>auto split: if_splits\<close>)
    qed
    have d: "trep m' b ?d"
      by (rule trep_frame [of m]) (use Dn.prems(1,7,8) pp(2) ac par in \<open>auto split: if_splits\<close>)
    have cell: "cells m' a = Some (if ?p = a
        then link_child ip \<lparr>nip = k, nseen = s, nb = b, nl = root l, nr = root r\<rparr> q
        else \<lparr>nip = k, nseen = s, nb = b, nl = root l, nr = root r\<rparr>)"
      using Dn.prems(1,8,9) pp(1) par by auto
    show ?thesis
      using True IH d cell Dn.prems(1) pp(1) unfolding par
      by (cases "bit ip b") (auto simp: link_child_def)
  qed
qed


text \<open>An address that is in the trie is found again; nothing changes.\<close>

lemma nc_insert_old:
  assumes t: "trie m head s0 t" and ip: "ip \<in> keys t"
  shows "nc_insert shift_zero m head ip = Some (fst (descend ip t), m)"
proof -
  obtain a where d: "descend ip t = (a, ip)"
    using descend_key [OF trie_facts(3) [OF t] ip] by (cases "descend ip t") auto
  then have "(a, ip) \<in> leaves t" using descend_leaf [of ip t] by simp
  then obtain n where "cells m a = Some n" "nip n = ip"
    using trep_leaf [OF trie_trep [OF t]] by blast
  moreover obtain p' where "nc_walk shift_zero m ip head (root t) = Some (p', a)"
    using trie_walk [OF t, of ip] d by auto
  ultimately show ?thesis
    using trie_facts(2) [OF t] d by (simp add: nc_insert_def mem_load_def)
qed

text \<open>The memory after the insertion of a new address.\<close>

definition ins_mem :: "cnode mem \<Rightarrow> ptr \<Rightarrow> ulong \<Rightarrow> nat \<Rightarrow> ptree \<Rightarrow> cnode mem" where
  "ins_mem m head ip i t =
     (let q = brk m; p = ins_parent ip i head t; x = root (ins_target ip i t);
          new = \<lparr>nip = ip, nseen = 0, nb = i, nl = (if bit ip i then x else q),
                 nr = (if bit ip i then q else x)\<rparr>
      in m\<lparr>cells := (cells m)(q \<mapsto> new, p \<mapsto> link_child ip (the (cells m p)) q), brk := Suc q\<rparr>)"

lemma ins_parent_cell:
  assumes t: "trie m head s0 t"
  obtains np where "cells m (ins_parent ip i head t) = Some np"
proof -
  have "\<exists>np. cells m a = Some np" if "a \<in> addrs t" for a
    using that trep_inner [OF trie_trep [OF t]] unfolding addrs_inner by blast
  then show ?thesis using ins_parent_mem [of ip i head t] trie_facts(2) [OF t] that by auto
qed

lemma nc_insert_mem:
  assumes t: "trie m head s0 t" and wf: "mem_wf m"
    and ip: "ip \<noteq> snd (descend ip t)"
    and i: "nc_diffbit shift_zero (snd (descend ip t)) ip maxb = Some i"
  shows "nc_insert shift_zero m head ip = Some (brk m, ins_mem m head ip i t)"
proof -
  obtain a k where d: "descend ip t = (a, k)" by (cases "descend ip t")
  have "(a, k) \<in> leaves t" using descend_leaf [of ip t] d by simp
  then obtain n where n: "cells m a = Some n" "nip n = k"
    using trep_leaf [OF trie_trep [OF t]] by blast
  obtain p' where w: "nc_walk shift_zero m ip head (root t) = Some (p', a)"
    using trie_walk [OF t, of ip] d by auto
  have w2: "nc_walk2 shift_zero m ip i head (root t) =
      Some (ins_parent ip i head t, root (ins_target ip i t))"
    by (rule nc_walk2_trep [OF trie_trep [OF t] trie_facts(2) [OF t]]) simp
  obtain np where np: "cells m (ins_parent ip i head t) = Some np" by (rule ins_parent_cell [OF t])
  then have "ins_parent ip i head t \<noteq> brk m" using mem_wf_brk [OF wf] by auto
  then show ?thesis
    using trie_facts(2) [OF t] n w w2 np ip i d
    by (simp add: nc_insert_def mem_load_def mem_store_def MyMalloc_def ins_mem_def link_child_def Let_def)
qed

lemma ins_mem_frame:
  "a \<noteq> brk m \<Longrightarrow> a \<noteq> head \<Longrightarrow> a \<notin> addrs t \<Longrightarrow> cells (ins_mem m head ip i t) a = cells m a"
  using ins_parent_mem [of ip i head t] by (auto simp: ins_mem_def Let_def)

lemma ins_mem_shape:
  assumes t: "trie m head s0 t" and wf: "mem_wf m"
  shows "same_shape m (ins_mem m head ip i t)"
proof -
  obtain np where "cells m (ins_parent ip i head t) = Some np" by (rule ins_parent_cell [OF t])
  then show ?thesis using mem_wf_brk [OF wf]
    by (auto simp: same_shape_def ins_mem_def Let_def link_child_def)
qed

lemma ins_mem_dom:
  assumes t: "trie m head s0 t" and wf: "mem_wf m"
  shows "dom (cells (ins_mem m head ip i t)) = insert (brk m) (dom (cells m))"
    and "brk (ins_mem m head ip i t) = Suc (brk m)"
proof -
  obtain np where "cells m (ins_parent ip i head t) = Some np" by (rule ins_parent_cell [OF t])
  then show "dom (cells (ins_mem m head ip i t)) = insert (brk m) (dom (cells m))"
    by (auto simp: ins_mem_def Let_def)
qed (simp add: ins_mem_def Let_def)

lemma ins_mem_wf:
  assumes "trie m head s0 t" "mem_wf m"
  shows "mem_wf (ins_mem m head ip i t)"
  unfolding mem_wf_def
proof (intro conjI allI impI)
  fix a assume "cells (ins_mem m head ip i t) a \<noteq> None"
  then have "a = brk m \<or> cells m a \<noteq> None" using ins_mem_dom(1) [OF assms, of ip i] by blast
  then show "0 < a" "a < brk (ins_mem m head ip i t)"
    using assms(2) ins_mem_dom(2) [OF assms, of ip i] by (auto simp: mem_wf_def less_Suc_eq)
qed (use assms in \<open>auto simp: ins_mem_def Let_def\<close>)

lemma ins_mem_trie:
  assumes t: "trie m head s0 t" and wf: "mem_wf m" and i: "i < maxb"
    and bits: "bit (snd (descend ip t)) i \<noteq> bit ip i"
      "\<And>j. i < j \<Longrightarrow> bit (snd (descend ip t)) j = bit ip j"
    and new: "ip \<notin> keys t"
  shows "trie (ins_mem m head ip i t) head s0 (ins ip i (brk m) t)"
proof -
  let ?q = "brk m" and ?m = "ins_mem m head ip i t" and ?p = "ins_parent ip i head t"
  note F = trie_facts [OF t]
  have at: "a \<in> addrs t \<Longrightarrow> a \<noteq> ?q \<and> a \<noteq> NULL" for a
    using trep_inner [OF trie_trep [OF t]] mem_wf_brk [OF wf] F(6) unfolding addrs_inner by fastforce
  have qh: "?q \<noteq> head" "?q \<noteq> NULL" using F(2) mem_wf_brk [OF wf] wf by (auto simp: mem_wf_def)
  obtain np where np: "cells m ?p = Some np" by (rule ins_parent_cell [OF t])
  then have pq: "?p \<noteq> ?q" using mem_wf_brk [OF wf] by auto
  have R: "trep ?m maxb (ins ip i ?q t) \<and> root (ins ip i ?q t) = (if ?p = head then ?q else root t)"
  proof (rule trep_ins [OF trie_trep [OF t] F(4,7) i])
    show "b < i" if "ins_target ip i t = Dn a k s b l r" for a k s b l r
      by (rule ins_target_bound [OF F(3) bits(1) that])
    show "same_shape m ?m" by (rule ins_mem_shape [OF t wf])
  qed (use pq np at in \<open>auto simp: ins_mem_def Let_def\<close>)
  have hd: "cells ?m head = Some \<lparr>nip = 0, nseen = s0, nb = maxb, nl = root (ins ip i ?q t), nr = head\<rparr>"
    using F(2) R qh bit_imp_le_length [of ip maxb]
    by (auto simp: ins_mem_def Let_def link_child_def maxb_def)
  have L: "(a, k) \<in> leaves (ins ip i ?q t) \<longleftrightarrow>
      (a, k) = (head, 0) \<or> (\<exists>s. (a, k, s) \<in> inner (ins ip i ?q t))" for a k
    unfolding leaves_ins inner_ins using trie_leaves [OF t, of a k] by auto
  have nk: "(a, ip) \<notin> leaves t" for a using new by (force simp: keys_def)
  have U: "a = a'" if "(a, k) \<in> leaves (ins ip i ?q t)" "(a', k) \<in> leaves (ins ip i ?q t)" for a a' k
    using that nk trie_uniq [OF t, of a k a'] unfolding leaves_ins by blast
  show ?thesis
    unfolding trie_def addrs_ins
  proof (intro conjI allI impI)
    show "ordered (ins ip i ?q t)" using ordered_ins [OF F(3) bits] by blast
    show "simple (ins ip i ?q t)" using simple_ins [OF F(4)] at by blast
    show "anc_ok {head} (ins ip i ?q t)" by (rule anc_ok_ins [OF F(5)])
    show "a = a'" if "(a, k) \<in> leaves (ins ip i ?q t)" "(a', k) \<in> leaves (ins ip i ?q t)" for a a' k
      by (rule U [OF that])
    show "(a, k) \<in> leaves (ins ip i ?q t) \<longleftrightarrow>
        (a, k) = (head, 0) \<or> (\<exists>s. (a, k, s) \<in> inner (ins ip i ?q t))" for a k
      by (rule L)
  qed (use F(1,6,7) R hd qh in auto)
qed


text \<open>Insertion as a whole: total, and the returned node carries the address.\<close>

lemma nc_insert_spec:
  assumes t: "trie m head s0 t" and wf: "mem_wf m"
  obtains p m' t' where "nc_insert shift_zero m head ip = Some (p, m')" "trie m' head s0 t'" "mem_wf m'"
    "(p, ip) \<in> leaves t'" "ip \<notin> keys t \<Longrightarrow> entries s0 t' = insert (ip, 0) (entries s0 t)"
    "ip \<in> keys t \<Longrightarrow> m' = m \<and> t' = t"
    "dom (cells m') = dom (cells m) \<union> addrs t'" "brk m \<le> brk m'" "addrs t \<subseteq> addrs t'"
    "addrs t' \<subseteq> addrs t \<union> {brk m}"
    "\<And>a. a \<noteq> head \<Longrightarrow> a \<notin> addrs t' \<Longrightarrow> cells m' a = cells m a"
proof (cases "ip \<in> keys t")
  case True
  obtain a where d: "descend ip t = (a, ip)"
    using descend_key [OF trie_facts(3) [OF t] True] by (cases "descend ip t") auto
  have l: "(a, ip) \<in> leaves t" using descend_leaf [of ip t] d by simp
  have "addrs t \<subseteq> dom (cells m)"
    using trep_inner [OF trie_trep [OF t]] by (fastforce simp: addrs_inner)
  then show ?thesis
    using that [of a m t] nc_insert_old [OF t True] t wf l d True by auto
next
  case False
  then have ne: "snd (descend ip t) \<noteq> ip" using descend_in_keys [of ip t] by auto
  then obtain i where i: "nc_diffbit shift_zero (snd (descend ip t)) ip maxb = Some i" "i < maxb"
      "bit (snd (descend ip t)) i \<noteq> bit ip i"
      "\<And>j. i < j \<Longrightarrow> bit (snd (descend ip t)) j = bit ip j"
    using nc_diffbit_maxb by blast
  let ?t = "ins ip i (brk m) t" and ?m = "ins_mem m head ip i t"
  have tr: "trie ?m head s0 ?t" by (rule ins_mem_trie [OF t wf i(2-4) False])
  have ad: "addrs t \<subseteq> dom (cells m)"
    using trep_inner [OF trie_trep [OF t]] by (fastforce simp: addrs_inner)
  show ?thesis
  proof (rule that [of "brk m" ?m ?t])
    show "nc_insert shift_zero m head ip = Some (brk m, ?m)"
      using nc_insert_mem [OF t wf ne [symmetric] i(1)] .
    show "entries s0 ?t = insert (ip, 0) (entries s0 t)" by (auto simp: entries_def inner_ins)
    show "dom (cells ?m) = dom (cells m) \<union> addrs ?t"
      using ins_mem_dom(1) [OF t wf, of ip i] ad by (auto simp: addrs_ins)
    show "cells ?m a = cells m a" if "a \<noteq> head" "a \<notin> addrs ?t" for a
      using that ins_mem_frame [of a m head t] by (simp add: addrs_ins)
  qed (use tr ins_mem_wf [OF t wf] False in \<open>auto simp: addrs_ins leaves_ins ins_mem_dom(2) [OF t wf]\<close>)
qed

fun upd_seen :: "ptr \<Rightarrow> int \<Rightarrow> ptree \<Rightarrow> ptree" where
  "upd_seen p s (Up a k) = Up a k"
| "upd_seen p s (Dn a k s' b l r) = Dn a k (if a = p then s else s') b (upd_seen p s l) (upd_seen p s r)"

lemma upd_seen_simps [simp]:
  "root (upd_seen p s t) = root t" "leaves (upd_seen p s t) = leaves t"
  "addrs (upd_seen p s t) = addrs t" "keys (upd_seen p s t) = keys t"
  by (induction t) auto

lemma inner_upd_seen:
  "(a, k, s') \<in> inner (upd_seen p s t) \<longleftrightarrow>
   (if a = p then s' = s \<and> (\<exists>s. (a, k, s) \<in> inner t) else (a, k, s') \<in> inner t)"
  by (induction t) auto

lemma ordered_upd_seen [simp]: "ordered (upd_seen p s t) = ordered t"
  by (induction t) auto

lemma simple_upd_seen [simp]: "simple (upd_seen p s t) = simple t"
  by (induction t) auto

lemma anc_ok_upd_seen [simp]: "anc_ok A (upd_seen p s t) = anc_ok A t"
  by (induction t arbitrary: A) auto

lemma trep_upd_seen:
  "trep m bd t \<Longrightarrow> cells m p = Some n \<Longrightarrow>
   trep (m\<lparr>cells := (cells m)(p \<mapsto> n\<lparr>nseen := s\<rparr>)\<rparr>) bd (upd_seen p s t)"
  by (induction t arbitrary: bd) auto

lemma set_seen_spec:
  assumes t: "trie m head s0 t" and wf: "mem_wf m" and p: "(p, k) \<in> leaves t"
  obtains m' s0' t' where "set_seen m p now = Some m'" "trie m' head s0' t'" "mem_wf m'"
    "\<And>k' s. (k', s) \<in> entries s0' t' \<longleftrightarrow> (if k' = k then s = now else (k', s) \<in> entries s0 t)"
    "addrs t' = addrs t" "dom (cells m') = dom (cells m)" "brk m' = brk m"
    "\<And>a. a \<noteq> head \<Longrightarrow> a \<notin> addrs t \<Longrightarrow> cells m' a = cells m a"
proof -
  note F = trie_facts [OF t]
  obtain n where n: "cells m p = Some n" using trep_leaf [OF trie_trep [OF t] p] by blast
  let ?m = "m\<lparr>cells := (cells m)(p \<mapsto> n\<lparr>nseen := now\<rparr>)\<rparr>"
  let ?s0 = "if p = head then now else s0"
  let ?t = "upd_seen p now t"
  have L: "(a, k) \<in> leaves ?t \<longleftrightarrow> (a, k) = (head, 0) \<or> (\<exists>s. (a, k, s) \<in> inner ?t)" for a k
    using trie_leaves [OF t, of a k] by (auto simp: inner_upd_seen)
  have "cells ?m head = Some \<lparr>nip = 0, nseen = ?s0, nb = maxb, nl = root ?t, nr = head\<rparr>"
    using F(2) n by auto
  then have tr: "trie ?m head ?s0 ?t"
    unfolding trie_def upd_seen_simps
    using F L [unfolded upd_seen_simps] trep_upd_seen [OF trie_trep [OF t] n, of now]
      trie_uniq [OF t] by auto
  have pa: "p = head \<and> k = 0 \<or> p \<in> addrs t \<and> p \<noteq> head"
    using trie_leaves [OF t, of p k] p F(7) by (auto simp: addrs_inner)
  have kp: "(a, k) \<in> leaves t \<longleftrightarrow> a = p" for a using p trie_uniq [OF t, of a k p] by blast
  have nk: "k' = k" if "(p, k') \<in> leaves t" for k'
    using trep_leaf [OF trie_trep [OF t] that] trep_leaf [OF trie_trep [OF t] p] by auto
  have E: "(k', s) \<in> entries ?s0 ?t \<longleftrightarrow> (if k' = k then s = now else (k', s) \<in> entries s0 t)" for k' s
  proof (cases "k' = k")
    case True
    have "(\<exists>a s. (a, k, s) \<in> inner t) \<or> k = 0 \<and> p = head"
      using trie_leaves [OF t, of p k] p by auto
    moreover have "a = p" if "(a, k, s') \<in> inner t" for a s'
      using that kp trie_leaves [OF t, of a k] by blast
    moreover have "p = head" if "k = 0" using kp [of head] trie_leaves [OF t, of head 0] that by blast
    ultimately show ?thesis using True by (auto simp: entries_def inner_upd_seen)
  next
    case False
    have "a \<noteq> p" if "(a, k', s') \<in> inner t" for a s'
      using that nk False trie_leaves [OF t, of a k'] by blast
    moreover have "p \<noteq> head" if "k' = 0" using nk [of 0] False that trie_leaves [OF t, of head 0] by auto
    ultimately show ?thesis using False by (auto simp: entries_def inner_upd_seen)
  qed
  show ?thesis
    by (rule that [of ?m ?s0 ?t])
      (use n tr E pa mem_wf_upd [OF wf n] in \<open>auto simp: set_seen_def mem_load_def mem_store_def\<close>)
qed

end
