(* ===== verification/Negcache_Map.thy ===== *)
theory Negcache_Map
  imports Negcache
begin

text \<open>
  The negative cache as a map: \<open>nc_rebuild\<close> copies the recent entries of one trie into
  another and frees the old nodes, and the operations together implement a map from
  addresses to times whose entries expire.  The contract is the locale \<open>ttl_cache\<close>,
  interpreted on the operations of negcache.c.
\<close>

section \<open>Rebuilding\<close>

definition recent :: "int \<Rightarrow> int \<Rightarrow> ptree \<Rightarrow> (ulong \<times> int) set" where
  "recent ttl now t = {(k, s). now - s < ttl \<and> (\<exists>a. (a, k, s) \<in> inner t)}"

text \<open>
  What \<open>nc_rebuild\<close> has done once it returns from a subtree \<open>t\<close> of the old trie: the nodes
  of \<open>t\<close> are freed, their recent entries are in the new trie, nothing else changed.
\<close>

definition rebuilt ::
  "int \<Rightarrow> int \<Rightarrow> ptr \<Rightarrow> cnode mem \<Rightarrow> int \<Rightarrow> ptree \<Rightarrow> ptree \<Rightarrow> cnode mem \<Rightarrow> int \<Rightarrow> ptree \<Rightarrow> bool" where
  "rebuilt ttl now nh m s0 T t m' s0' T' \<longleftrightarrow>
     trie m' nh s0' T' \<and> mem_wf m' \<and> brk m \<le> brk m' \<and> addrs T \<subseteq> addrs T' \<and>
     (\<forall>a \<in> addrs T' - addrs T. brk m \<le> a) \<and> (\<forall>a \<in> addrs t. cells m' a = None) \<and>
     (\<forall>a. a \<notin> addrs t \<longrightarrow> a \<noteq> nh \<longrightarrow> a \<notin> addrs T' \<longrightarrow> cells m' a = cells m a) \<and>
     entries s0' T' = entries s0 T \<union> recent ttl now t"

lemma rebuilt_facts:
  assumes "rebuilt ttl now nh m s0 T t m' s0' T'"
  shows "trie m' nh s0' T'" "mem_wf m'" "brk m \<le> brk m'" "addrs T \<subseteq> addrs T'"
    "\<And>a. a \<in> addrs T' \<Longrightarrow> a \<in> addrs T \<or> brk m \<le> a" "\<And>a. a \<in> addrs t \<Longrightarrow> cells m' a = None"
    "\<And>a. a \<notin> addrs t \<Longrightarrow> a \<noteq> nh \<Longrightarrow> a \<notin> addrs T' \<Longrightarrow> cells m' a = cells m a"
    "entries s0' T' = entries s0 T \<union> recent ttl now t"
  using assms unfolding rebuilt_def by blast+

lemma rebuilt_keep:
  assumes R: "rebuilt ttl now nh m s0 T t m' s0' T'" and wf: "mem_wf m" and a: "cells m a = Some n"
    and "a \<notin> addrs t" "a \<noteq> nh" "a \<notin> addrs T"
  shows "cells m' a = Some n" "a \<notin> addrs T'"
proof -
  have "a < brk m" using mem_wf_dom [OF wf a] by simp
  then show "a \<notin> addrs T'" using rebuilt_facts(5) [OF R, of a] assms(6) by auto
  then show "cells m' a = Some n" using rebuilt_facts(7) [OF R, of a] assms by simp
qed

lemma anc_ok_leaves: "anc_ok A t \<Longrightarrow> (a, k) \<in> leaves t \<Longrightarrow> a \<in> A \<union> addrs t"
  by (induction A t rule: anc_ok.induct) auto

lemma trep_agree:
  "trep m bd t \<Longrightarrow> (\<And>a. a \<in> addrs t \<union> fst ` leaves t \<Longrightarrow> cells m' a = cells m a) \<Longrightarrow> trep m' bd t"
  by (induction t arbitrary: bd) auto

lemma trep_cell: "trep m bd t \<Longrightarrow> a \<in> addrs t \<union> fst ` leaves t \<Longrightarrow> \<exists>n. cells m a = Some n"
proof (elim UnE)
  assume t: "trep m bd t" and "a \<in> addrs t"
  then obtain k s where "(a, k, s) \<in> inner t" unfolding addrs_inner by blast
  then show ?thesis using trep_inner [OF t] by blast
next
  assume t: "trep m bd t" and "a \<in> fst ` leaves t"
  then obtain k where "(a, k) \<in> leaves t" by auto
  then show ?thesis using trep_leaf [OF t] by blast
qed

lemma trie_free_other:
  assumes t: "trie m h s0 t" and a: "a \<noteq> h" "a \<notin> addrs t"
  shows "trie (m\<lparr>cells := (cells m)(a := None)\<rparr>) h s0 t"
proof -
  let ?m = "m\<lparr>cells := (cells m)(a := None)\<rparr>"
  have "x \<noteq> a" if "x \<in> addrs t \<union> fst ` leaves t" for x
    using that anc_ok_leaves [OF trie_facts(5) [OF t]] a by fastforce
  then have "trep ?m maxb t" by (intro trep_agree [OF trie_trep [OF t]]) auto
  then show ?thesis using t a(1) unfolding trie_def by auto
qed

lemma trie_dom: "trie m h s0 t \<Longrightarrow> insert h (addrs t) \<subseteq> dom (cells m)"
  using trep_cell [OF trie_trep, of m h s0 t] trie_facts(2) [of m h s0 t] by auto

definition is_Dn :: "ptree \<Rightarrow> bool" where
  "is_Dn t \<longleftrightarrow> (\<exists>a k s b l r. t = Dn a k s b l r)"

lemma trep_is_Dn: "trep m bd t \<Longrightarrow> cells m (root t) = Some n \<Longrightarrow> nb n < bd \<longleftrightarrow> is_Dn t"
  by (cases t) (auto simp: is_Dn_def)

text \<open>The part of \<open>nc_rebuild\<close> that handles the node itself, after its subtrees.\<close>

lemma rebuild_node:
  assumes T: "trie m nh s0 T" and wf: "mem_wf m" and c: "cells m a = Some c" "a \<noteq> nh" "a \<notin> addrs T"
    and new: "\<And>s. (nip c, s) \<notin> entries s0 T"
  obtains m1 m' s0' T' where
    "(if now - nseen c < ttl then do {
        (new, m) \<leftarrow> nc_insert shift_zero m nh (nip c);
        c \<leftarrow> mem_load m a;
        set_seen m new (nseen c) } else Some m) = Some m1"
    "MyFree m1 a = Some m'" "trie m' nh s0' T'" "mem_wf m'" "brk m \<le> brk m'" "addrs T \<subseteq> addrs T'"
    "\<forall>x \<in> addrs T' - addrs T. brk m \<le> x" "cells m' a = None"
    "\<forall>x. x \<noteq> a \<longrightarrow> x \<noteq> nh \<longrightarrow> x \<notin> addrs T' \<longrightarrow> cells m' x = cells m x"
    "entries s0' T' = entries s0 T \<union> (if now - nseen c < ttl then {(nip c, nseen c)} else {})"
proof -
  have a0: "a \<noteq> NULL" and ab: "a < brk m" using mem_wf_dom [OF wf c(1)] by auto
  have free: "\<exists>m'. MyFree m1 a = Some m' \<and> cells m' = (cells m1)(a := None) \<and> brk m' = brk m1 \<and>
      trie m' nh s1 T1 \<and> mem_wf m'"
    if t1: "trie m1 nh s1 T1" "mem_wf m1" "cells m1 a \<noteq> None" "a \<notin> addrs T1" for m1 s1 T1
  proof -
    let ?m = "m1\<lparr>cells := (cells m1)(a := None)\<rparr>"
    have "trie ?m nh s1 T1" by (rule trie_free_other [OF t1(1) c(2) t1(4)])
    then show ?thesis using t1 a0 mem_wf_free [OF t1(2), of a ?m] by (auto simp: MyFree_def)
  qed
  show ?thesis
  proof (cases "now - nseen c < ttl")
    case False
    obtain m' where m': "MyFree m a = Some m'" "cells m' = (cells m)(a := None)" "brk m' = brk m"
        "trie m' nh s0 T" "mem_wf m'"
      using free [OF T wf _ c(3)] c(1) by auto
    show ?thesis by (rule that [of m m' s0 T]) (use False m' in auto)
  next
    case True
    have nk: "nip c \<notin> keys T" using new trie_keys [OF T] by blast
    obtain p m2 T2 where I: "nc_insert shift_zero m nh (nip c) = Some (p, m2)" "trie m2 nh s0 T2"
        "mem_wf m2" "(p, nip c) \<in> leaves T2" "entries s0 T2 = insert (nip c, 0) (entries s0 T)"
        "dom (cells m2) = dom (cells m) \<union> addrs T2" "brk m \<le> brk m2" "addrs T \<subseteq> addrs T2"
        "addrs T2 \<subseteq> addrs T \<union> {brk m}"
        "\<And>a. a \<noteq> nh \<Longrightarrow> a \<notin> addrs T2 \<Longrightarrow> cells m2 a = cells m a"
      using nc_insert_spec [OF T wf, of "nip c"] nk by metis
    have aT2: "a \<notin> addrs T2" using I(9) c(3) ab by auto
    have c2: "cells m2 a = Some c" using I(10) aT2 c by simp
    obtain m3 s3 T3 where S: "set_seen m2 p (nseen c) = Some m3" "trie m3 nh s3 T3" "mem_wf m3"
        "\<And>k' s. (k', s) \<in> entries s3 T3 \<longleftrightarrow> (if k' = nip c then s = nseen c else (k', s) \<in> entries s0 T2)"
        "addrs T3 = addrs T2" "dom (cells m3) = dom (cells m2)" "brk m3 = brk m2"
        "\<And>a. a \<noteq> nh \<Longrightarrow> a \<notin> addrs T2 \<Longrightarrow> cells m3 a = cells m2 a"
      using set_seen_spec [OF I(2,3,4), of "nseen c"] by metis
    have "cells m3 a \<noteq> None" using S(8) c(2) aT2 c2 by simp
    with free [OF S(2,3)] obtain m' where
      m': "MyFree m3 a = Some m'" "cells m' = (cells m3)(a := None)" "brk m' = brk m3"
        "trie m' nh s3 T3" "mem_wf m'"
      using S(5) aT2 by auto
    have E: "entries s3 T3 = insert (nip c, nseen c) (entries s0 T)"
      using S(4) new I(5) by (auto split: if_splits)
    show ?thesis
      by (rule that [of m3 m' s3 T3])
        (use True I S m' E c2 in \<open>auto simp: mem_load_def\<close>)
  qed
qed


lemma rebuilt_none:
  assumes "trie m nh s0 T" "mem_wf m" "\<not> is_Dn t"
  shows "rebuilt ttl now nh m s0 T t m s0 T"
  using assms by (cases t) (simp_all add: rebuilt_def is_Dn_def recent_def)

text \<open>No address occurs at two nodes.\<close>

definition ukeys :: "ptree \<Rightarrow> bool" where
  "ukeys t \<longleftrightarrow> (\<forall>a a' k s s'. (a, k, s) \<in> inner t \<longrightarrow> (a', k, s') \<in> inner t \<longrightarrow> a = a')"

lemma ukeys_Dn:
  assumes u: "ukeys (Dn a k s b l r)" and "simple (Dn a k s b l r)"
  shows "ukeys l" "ukeys r" "(x, k', s') \<in> inner l \<Longrightarrow> (y, k', s'') \<notin> inner r"
    "(x, k, s') \<notin> inner l" "(x, k, s') \<notin> inner r"
proof -
  have d: "a \<notin> addrs l" "a \<notin> addrs r" "addrs l \<inter> addrs r = {}" using assms(2) by auto
  have U: "x = y" if "(x, k', s') \<in> inner (Dn a k s b l r)" "(y, k', s'') \<in> inner (Dn a k s b l r)"
    for x y k' s' s'' using u that unfolding ukeys_def by blast
  show "ukeys l" "ukeys r" using u unfolding ukeys_def inner.simps by blast+
  show "(x, k, s') \<notin> inner l" "(x, k, s') \<notin> inner r"
    using U [of a k s x s'] d by (auto simp: addrs_inner)
  show "(y, k', s'') \<notin> inner r" if "(x, k', s') \<in> inner l"
    using U [of x k' s' y s''] that d(3) unfolding addrs_inner by (auto simp: addrs_inner disjoint_iff)
qed

definition fresh_keys :: "int \<Rightarrow> ptree \<Rightarrow> ptree \<Rightarrow> bool" where
  "fresh_keys s0 T t \<longleftrightarrow> (\<forall>a k s s'. (a, k, s) \<in> inner t \<longrightarrow> (k, s') \<notin> entries s0 T)"

lemma nc_rebuild_sub:
  assumes "trep m bd t" "simple t" "anc_ok A t" "ukeys t" "NULL \<notin> addrs t" "oh \<notin> addrs t"
    and "trie m nh s0 T" "mem_wf m" "fresh_keys s0 T t"
    and "nh \<notin> A \<union> addrs t" "addrs T \<inter> (A \<union> addrs t) = {}" "A \<inter> addrs t = {}"
    and "bd \<le> k" "A \<subseteq> dom (cells m)"
  shows "\<exists>m' s0' T'.
     (if is_Dn t then nc_rebuild k shift_zero ttl m oh nh (root t) now else Some m) = Some m' \<and>
     rebuilt ttl now nh m s0 T t m' s0' T'"
  using assms
proof (induction t arbitrary: m bd A s0 T k)
  case (Up a key)
  have n: "\<not> is_Dn (Up a key)" by (simp add: is_Dn_def)
  show ?case using rebuilt_none [OF Up.prems(7,8) n] n by auto
next
  case (Dn a key s b l r)
  let ?t = "Dn a key s b l r" and ?c = "\<lparr>nip = key, nseen = s, nb = b, nl = root l, nr = root r\<rparr>"
  have ca: "cells m a = Some ?c" and b: "b < bd" and trl: "trep m b l" and trr: "trep m b r"
    using Dn.prems(1) by auto
  have anc: "anc_ok (insert a A) l" "anc_ok (insert a A) r" using Dn.prems(3) by auto
  obtain j where k: "k = Suc j" and bj: "b \<le> j" using b Dn.prems(13) by (cases k) auto
  have a: "a \<noteq> NULL" "a \<noteq> oh" "a \<noteq> nh" "a \<notin> addrs T" "a \<notin> A" using Dn.prems by auto
  have ad: "a \<notin> addrs l" "a \<notin> addrs r" "addrs l \<inter> addrs r = {}" using Dn.prems(2) by auto
  note uk = ukeys_Dn [OF Dn.prems(4,2)]
  have fr: "fresh_keys s0 T l" "(y, k', z) \<in> inner r \<Longrightarrow> (k', x) \<notin> entries s0 T"
      "(key, x) \<notin> entries s0 T" for x y k' z
    using Dn.prems(9) unfolding fresh_keys_def by auto
  have "\<exists>m1 s1 T1. (if is_Dn l then nc_rebuild j shift_zero ttl m oh nh (root l) now else Some m) = Some m1 \<and>
      rebuilt ttl now nh m s0 T l m1 s1 T1"
    by (rule Dn.IH(1) [OF trl _ anc(1) uk(1) _ _ Dn.prems(7,8) fr(1) _ _ _ bj])
      (use Dn.prems ad ca in auto)
  then obtain m1 s1 T1 where L:
    "(if is_Dn l then nc_rebuild j shift_zero ttl m oh nh (root l) now else Some m) = Some m1"
    "rebuilt ttl now nh m s0 T l m1 s1 T1" by blast
  note L' = rebuilt_facts [OF L(2)]
  note keep1 = rebuilt_keep [OF L(2) Dn.prems(8)]
  have c1: "cells m1 a = Some ?c" "a \<notin> addrs T1" using keep1 [OF ca] a ad by auto
  have agree: "cells m1 x = cells m x \<and> x \<notin> addrs T1" if x: "x \<in> addrs r \<union> fst ` leaves r" for x
  proof -
    obtain n where n: "cells m x = Some n" using trep_cell [OF trr x] by blast
    have "x \<in> insert a A \<union> addrs r" using x anc_ok_leaves [OF anc(2)] by fastforce
    then have "x \<notin> addrs l" "x \<noteq> nh" "x \<notin> addrs T" using Dn.prems(10-12) ad by auto
    then show ?thesis using keep1 [OF n] n by simp
  qed
  have trr1: "trep m1 b r" using trep_agree [OF trr] agree by blast
  have A1: "x \<notin> addrs T1 \<and> (\<exists>n. cells m1 x = Some n)" if x: "x \<in> A" for x
  proof -
    obtain n where "cells m x = Some n" using x Dn.prems(14) by auto
    then show ?thesis using keep1 [of x n] x Dn.prems(10-12) by auto
  qed
  have fr1: "fresh_keys s1 T1 r"
    unfolding fresh_keys_def L'(8) recent_def using fr(2) uk(3) by blast
  have "\<exists>m2 s2 T2. (if is_Dn r then nc_rebuild j shift_zero ttl m1 oh nh (root r) now else Some m1) = Some m2 \<and>
      rebuilt ttl now nh m1 s1 T1 r m2 s2 T2"
    by (rule Dn.IH(2) [OF trr1 _ anc(2) uk(2) _ _ L'(1,2) fr1 _ _ _ bj])
      (use Dn.prems ad c1 A1 agree in auto)
  then obtain m2 s2 T2 where R:
    "(if is_Dn r then nc_rebuild j shift_zero ttl m1 oh nh (root r) now else Some m1) = Some m2"
    "rebuilt ttl now nh m1 s1 T1 r m2 s2 T2" by blast
  note R' = rebuilt_facts [OF R(2)]
  have c2: "cells m2 a = Some ?c" "a \<notin> addrs T2"
    using rebuilt_keep [OF R(2) L'(2) c1(1) ad(2) a(3) c1(2)] .
  have new: "(nip ?c, x) \<notin> entries s2 T2" for x
    unfolding R'(8) L'(8) recent_def using fr(3) uk(4,5) by auto
  obtain m3 m' s' T' where N:
    "(if now - nseen ?c < ttl then do {
        (new, m) \<leftarrow> nc_insert shift_zero m2 nh (nip ?c);
        c \<leftarrow> mem_load m a;
        set_seen m new (nseen c) } else Some m2) = Some m3"
    "MyFree m3 a = Some m'" "trie m' nh s' T'" "mem_wf m'" "brk m2 \<le> brk m'" "addrs T2 \<subseteq> addrs T'"
    "\<forall>x \<in> addrs T' - addrs T2. brk m2 \<le> x" "cells m' a = None"
    "\<forall>x. x \<noteq> a \<longrightarrow> x \<noteq> nh \<longrightarrow> x \<notin> addrs T' \<longrightarrow> cells m' x = cells m2 x"
    "entries s' T' = entries s2 T2 \<union> (if now - nseen ?c < ttl then {(nip ?c, nseen ?c)} else {})"
    by (rule rebuild_node [OF R'(1,2) c2(1) a(3) c2(2) new, of now ttl])
  obtain nl1 nr1 where lr: "cells m (root l) = Some nl1" "cells m1 (root r) = Some nr1"
    using trep_root [OF trl] trep_root [OF trr1] by blast
  have run: "nc_rebuild k shift_zero ttl m oh nh a now = Some m'"
    using a ca c1(1) c2(1) lr trep_is_Dn [OF trl lr(1)] trep_is_Dn [OF trr1 lr(2)] L(1) R(1) N(1,2)
    by (cases "is_Dn l"; cases "is_Dn r"; cases "now - s < ttl") (simp_all add: k mem_load_def)
  have newa1: "x \<in> addrs T \<or> brk m \<le> x" if "x \<in> addrs T1" for x
    using that L'(5) by blast
  have newa2: "x \<in> addrs T \<or> brk m \<le> x" if "x \<in> addrs T2" for x
    using R'(5) [OF that] newa1 [of x] L'(3) by linarith
  have newa: "x \<in> addrs T \<or> brk m \<le> x" if "x \<in> addrs T'" for x
    using newa2 [of x] N(7) that L'(3) R'(3) by (meson DiffI order_trans)
  have gone: "cells m' x = None" if x: "x \<in> addrs ?t" for x
  proof (cases "x = a")
    case False
    have xm: "x < brk m"
      using x trep_cell [OF Dn.prems(1), of x] mem_wf_dom [OF Dn.prems(8), of x] by auto
    have "x \<noteq> nh" "x \<notin> addrs T" using x Dn.prems(10,11) by auto
    then have xT: "x \<notin> addrs T1" "x \<notin> addrs T2" "x \<notin> addrs T'"
      using xm newa1 [of x] newa2 [of x] newa [of x] by auto
    have "cells m2 x = None"
    proof (cases "x \<in> addrs r")
      case False
      then have "x \<in> addrs l" using x \<open>x \<noteq> a\<close> by auto
      then show ?thesis using L'(6) R'(7) [of x] False xT \<open>x \<noteq> nh\<close> by simp
    qed (simp add: R'(6))
    then show ?thesis using N(9) False \<open>x \<noteq> nh\<close> xT(3) by simp
  qed (simp add: N(8))
  have keepm: "cells m' x = cells m x" if "x \<notin> addrs ?t" "x \<noteq> nh" "x \<notin> addrs T'" for x
  proof -
    have "x \<notin> addrs T2" "x \<notin> addrs T1" using that(3) N(6) R'(4) by auto
    then show ?thesis using that L'(7) [of x] R'(7) [of x] N(9) by auto
  qed
  have "entries s' T' = entries s0 T \<union> recent ttl now ?t"
    unfolding N(10) R'(8) L'(8) recent_def by auto
  then have "rebuilt ttl now nh m s0 T ?t m' s' T'"
    unfolding rebuilt_def using N(3-6) L'(3,4) R'(3,4) gone keepm newa by (meson DiffD1 DiffD2 order_trans)
  then show ?case using run by (auto simp: is_Dn_def)
qed


section \<open>The cache as a map\<close>

text \<open>
  The state of the cache between two operations: the memory holds the trie of the head and
  nothing else, so no operation leaks a node.
\<close>

definition cache_ok :: "cnode mem \<times> ptr \<Rightarrow> bool" where
  "cache_ok c \<longleftrightarrow>
     (\<exists>s0 t. trie (fst c) (snd c) s0 t \<and> mem_wf (fst c) \<and>
             dom (cells (fst c)) = insert (snd c) (addrs t))"

definition cache_map :: "cnode mem \<times> ptr \<Rightarrow> ulong \<Rightarrow> int option" where
  "cache_map c = nc_map (fst c) (snd c)"

definition cache_init :: "(cnode mem \<times> ptr) option" where
  "cache_init = map_option (\<lambda>(h, m). (m, h)) (nc_init mem_empty NULL)"

definition cache_insert :: "int \<Rightarrow> ulong \<Rightarrow> cnode mem \<times> ptr \<Rightarrow> (cnode mem \<times> ptr) option" where
  "cache_insert now ip c = map_option (\<lambda>m. (m, snd c)) (negcache_insert_ip shift_zero (fst c) (snd c) now ip)"

definition cache_rebuild :: "int \<Rightarrow> int \<Rightarrow> cnode mem \<times> ptr \<Rightarrow> (cnode mem \<times> ptr) option" where
  "cache_rebuild ttl now c = map_option (\<lambda>(h, m). (m, h)) (negcache_rebuild shift_zero ttl (fst c) (snd c) now)"

lemma nc_map_eqI:
  assumes "trie m head s0 t" and "\<And>k s. (k, s) \<in> entries s0 t \<longleftrightarrow> f k = Some s"
  shows "nc_map m head = f"
  using nc_map_entries [OF assms(1)] assms(2) by (metis ext not_Some_eq)

lemma nc_init_trie:
  assumes "mem_wf m" "nc_init m NULL = Some (h, m')"
  shows "trie m' h 0 (Up h 0)" "mem_wf m'" "h = brk m" "brk m' = Suc (brk m)"
    "\<And>a. a \<noteq> h \<Longrightarrow> cells m' a = cells m a" "dom (cells m') = insert h (dom (cells m))"
proof -
  have m': "m' = m\<lparr>cells := (cells m)(h \<mapsto> \<lparr>nip = 0, nseen = 0, nb = maxb, nl = h, nr = h\<rparr>),
      brk := Suc (brk m)\<rparr>" and h: "h = brk m"
    using assms(2) by (auto simp: nc_init_def MyMalloc_def mem_store_def)
  show "h = brk m" "brk m' = Suc (brk m)" "\<And>a. a \<noteq> h \<Longrightarrow> cells m' a = cells m a"
    "dom (cells m') = insert h (dom (cells m))" by (auto simp: m' h)
  show "trie m' h 0 (Up h 0)" using assms(1) by (simp add: trie_def m' h mem_wf_def)
  show "mem_wf m'" using assms(1) by (auto simp: mem_wf_def m' h less_Suc_eq split: if_splits)
qed

lemma nc_init_total: "\<exists>h m'. nc_init m NULL = Some (h, m')"
  by (simp add: nc_init_def MyMalloc_def mem_store_def)

lemma cache_init_spec: "\<exists>c. cache_init = Some c \<and> cache_ok c \<and> cache_map c = [0 \<mapsto> 0]"
proof -
  obtain h m where i: "nc_init mem_empty NULL = Some (h, m)" using nc_init_total by blast
  note I = nc_init_trie [OF mem_wf_empty i]
  have "nc_map m h = [0 \<mapsto> 0]" by (rule nc_map_eqI [OF I(1)]) (auto simp: entries_def)
  then show ?thesis using i I
    by (auto simp: cache_init_def cache_ok_def cache_map_def mem_empty_def intro!: exI [of _ "Up h 0"])
qed

lemma cache_insert_spec:
  assumes "cache_ok c"
  shows "\<exists>c'. cache_insert now ip c = Some c' \<and> cache_ok c' \<and> cache_map c' = (cache_map c)(ip \<mapsto> now)"
proof -
  obtain m head where c: "c = (m, head)" by (cases c)
  obtain s0 t where t: "trie m head s0 t" and wf: "mem_wf m" and d: "dom (cells m) = insert head (addrs t)"
    using assms by (auto simp: cache_ok_def c)
  obtain p m1 t1 where I: "nc_insert shift_zero m head ip = Some (p, m1)" "trie m1 head s0 t1" "mem_wf m1"
      "(p, ip) \<in> leaves t1" "ip \<notin> keys t \<Longrightarrow> entries s0 t1 = insert (ip, 0) (entries s0 t)"
      "ip \<in> keys t \<Longrightarrow> m1 = m \<and> t1 = t" "dom (cells m1) = dom (cells m) \<union> addrs t1"
      "addrs t \<subseteq> addrs t1"
    using nc_insert_spec [OF t wf, of ip] by metis
  obtain m2 s2 t2 where S: "set_seen m1 p now = Some m2" "trie m2 head s2 t2" "mem_wf m2"
      "\<And>k' s. (k', s) \<in> entries s2 t2 \<longleftrightarrow> (if k' = ip then s = now else (k', s) \<in> entries s0 t1)"
      "addrs t2 = addrs t1" "dom (cells m2) = dom (cells m1)"
    using set_seen_spec [OF I(2-4), of now] by metis
  have "(k, s) \<in> entries s0 t1 \<longleftrightarrow> (k, s) \<in> entries s0 t" if "k \<noteq> ip" for k s
    using I(5,6) that by (cases "ip \<in> keys t") auto
  then have "nc_map m2 head = (nc_map m head)(ip \<mapsto> now)"
    using S(4) nc_map_entries [OF t] by (intro nc_map_eqI [OF S(2)]) auto
  moreover have "dom (cells m2) = insert head (addrs t2)" using S(5,6) d I(7,8) by auto
  then have "cache_ok (m2, head)" using S(2,3) unfolding cache_ok_def by auto
  moreover have "cache_insert now ip c = Some (m2, head)"
    using I(1) S(1) trie_leaf_nonnull [OF I(2,4)]
    by (simp add: cache_insert_def negcache_insert_ip_def c)
  ultimately show ?thesis by (auto simp: cache_map_def c)
qed

lemma trie_ukeys: "trie m head s0 t \<Longrightarrow> ukeys t"
  unfolding ukeys_def using trie_leaves trie_uniq by metis

lemma trie_no_zero: "trie m head s0 t \<Longrightarrow> (a, 0, s) \<notin> inner t"
  by (metis addrs_inner trie_facts(7) trie_leaves trie_uniq)

lemma nc_rebuild_start:
  "cells m oh = Some n \<Longrightarrow> nl n \<noteq> NULL \<Longrightarrow>
   nc_rebuild k wide ttl m oh nh NULL now = nc_rebuild k wide ttl m oh nh (nl n) now"
  by (cases k) (simp_all add: mem_load_def)

lemma cache_rebuild_spec:
  assumes "cache_ok c"
  shows "\<exists>c'. cache_rebuild ttl now c = Some c' \<and> cache_ok c' \<and>
    cache_map c' = (\<lambda>k. if k = 0 then Some 0
                        else case cache_map c k of None \<Rightarrow> None
                             | Some s \<Rightarrow> if now - s < ttl then Some s else None)"
proof -
  obtain m oh where c: "c = (m, oh)" by (cases c)
  obtain s0 t where t: "trie m oh s0 t" and wf: "mem_wf m" and d: "dom (cells m) = insert oh (addrs t)"
    using assms by (auto simp: cache_ok_def c)
  note F = trie_facts [OF t]
  obtain nh m1 where i: "nc_init m NULL = Some (nh, m1)" using nc_init_total by blast
  note I = nc_init_trie [OF wf i]
  have nh: "nh \<notin> insert oh (addrs t)" using mem_wf_brk [OF wf] I(3) d by (auto simp: domIff)
  have cell: "cells m1 a = cells m a" if "a \<in> insert oh (addrs t)" for a
    using I(5) [of a] nh that by auto
  have trep1: "trep m1 maxb t"
  proof (rule trep_agree [OF trie_trep [OF t]])
    fix a assume "a \<in> addrs t \<union> fst ` leaves t"
    then have "a \<in> insert oh (addrs t)" using anc_ok_leaves [OF F(5)] by fastforce
    then show "cells m1 a = cells m a" by (rule cell)
  qed
  have fresh: "fresh_keys 0 (Up nh 0) t"
    unfolding fresh_keys_def entries_def using trie_no_zero [OF t] by auto
  obtain m2 s2 T2 where R:
    "(if is_Dn t then nc_rebuild (Suc maxb) shift_zero ttl m1 oh nh (root t) now else Some m1) = Some m2"
    "rebuilt ttl now nh m1 0 (Up nh 0) t m2 s2 T2"
    using nc_rebuild_sub [OF trep1 F(4,5) trie_ukeys [OF t] F(6,7) I(1,2) fresh, of "Suc maxb" ttl now]
      nh F(7) I(6) d by auto
  note R' = rebuilt_facts [OF R(2)]
  have oh: "cells m1 oh = Some \<lparr>nip = 0, nseen = s0, nb = maxb, nl = root t, nr = oh\<rparr>"
    using F(2) cell [of oh] by simp
  have root0: "root t \<noteq> NULL" using F(1,5,6) by (cases t) auto
  have run: "nc_rebuild (Suc maxb) shift_zero ttl m1 oh nh NULL now = Some m2"
  proof (cases "is_Dn t")
    case True
    then show ?thesis using R(1) nc_rebuild_start [OF oh, of "Suc maxb"] root0 by simp
  next
    case False
    then have "root t = oh" using F(5) by (cases t) (auto simp: is_Dn_def)
    then show ?thesis using R(1) False oh root0 by (simp add: mem_load_def)
  qed
  have T2: "oh \<notin> addrs T2" "oh \<noteq> nh"
    using R'(5) [of oh] I(4) mem_wf_dom [OF wf F(2)] nh by auto
  have ohc: "cells m2 oh \<noteq> None" using R'(7) [of oh] F(7) T2 oh by simp
  let ?m = "m2\<lparr>cells := (cells m2)(oh := None)\<rparr>"
  have free: "MyFree m2 oh = Some ?m" using ohc F(1) by (simp add: MyFree_def)
  have tr: "trie ?m nh s2 T2" by (rule trie_free_other [OF R'(1) T2(2,1)])
  have dom: "dom (cells ?m) = insert nh (addrs T2)"
  proof
    show "insert nh (addrs T2) \<subseteq> dom (cells ?m)" by (rule trie_dom [OF tr])
    show "dom (cells ?m) \<subseteq> insert nh (addrs T2)"
    proof
      fix a assume a: "a \<in> dom (cells ?m)"
      show "a \<in> insert nh (addrs T2)"
      proof (rule ccontr)
        assume n: "a \<notin> insert nh (addrs T2)"
        then have "a \<notin> addrs t" "a \<noteq> oh" using a R'(6) [of a] by auto
        then have "cells m2 a = cells m1 a" "cells m1 a = None"
          using R'(7) [of a] n I(6) d by (auto simp: domIff)
        then show False using a by auto
      qed
    qed
  qed
  have "nc_map ?m nh = (\<lambda>k. if k = 0 then Some 0
      else case nc_map m oh k of None \<Rightarrow> None | Some s \<Rightarrow> if now - s < ttl then Some s else None)"
  proof (rule nc_map_eqI [OF tr])
    fix k s
    have E: "(k, s) \<in> entries s2 T2 \<longleftrightarrow> k = 0 \<and> s = 0 \<or> now - s < ttl \<and> (\<exists>a. (a, k, s) \<in> inner t)"
      unfolding R'(8) unfolding entries_def recent_def by auto
    have M: "nc_map m oh k = Some s \<longleftrightarrow> (\<exists>a. (a, k, s) \<in> inner t)" if "k \<noteq> 0" for s
      using nc_map_entries [OF t, of k s] that by (auto simp: entries_def)
    show "(k, s) \<in> entries s2 T2 \<longleftrightarrow> (if k = 0 then Some 0 else case nc_map m oh k of None \<Rightarrow> None
        | Some s \<Rightarrow> if now - s < ttl then Some s else None) = Some s"
    proof (cases "k = 0")
      case False
      then have "(k, s) \<in> entries s2 T2 \<longleftrightarrow> now - s < ttl \<and> nc_map m oh k = Some s"
        using E M [of s] by blast
      then show ?thesis using False by (cases "nc_map m oh k") auto
    qed (use E trie_no_zero [OF t] in auto)
  qed
  moreover have "cache_rebuild ttl now c = Some (?m, nh)"
    by (simp add: cache_rebuild_def negcache_rebuild_def c i run free del: nc_rebuild.simps)
  moreover have "cache_ok (?m, nh)"
    using tr dom mem_wf_free [OF R'(2) free] by (auto simp: cache_ok_def)
  ultimately show ?thesis by (auto simp: cache_map_def c)
qed


section \<open>The interface of the cache\<close>

datatype cache_op = Insert int ulong | Rebuild int

fun run_cache ::
  "(int \<Rightarrow> ulong \<Rightarrow> 'c \<Rightarrow> 'c option) \<Rightarrow> (int \<Rightarrow> int \<Rightarrow> 'c \<Rightarrow> 'c option) \<Rightarrow> int \<Rightarrow> 'c \<Rightarrow> cache_op list \<Rightarrow> 'c option"
where
  "run_cache put rebuild ttl c [] = Some c"
| "run_cache put rebuild ttl c (Insert t ip # ops) =
     Option.bind (put t ip c) (\<lambda>c. run_cache put rebuild ttl c ops)"
| "run_cache put rebuild ttl c (Rebuild t # ops) =
     Option.bind (rebuild ttl t c) (\<lambda>c. run_cache put rebuild ttl c ops)"

text \<open>The time of the last insertion of an address in a history (the latest comes last).\<close>

fun last_seen :: "cache_op list \<Rightarrow> ulong \<Rightarrow> int option \<Rightarrow> int option" where
  "last_seen [] ip s = s"
| "last_seen (Insert t x # ops) ip s = last_seen ops ip (if x = ip then Some t else s)"
| "last_seen (Rebuild t # ops) ip s = last_seen ops ip s"

locale ttl_cache =
  fixes ok :: "'c \<Rightarrow> bool"
    and lookup :: "'c \<Rightarrow> ulong \<Rightarrow> int option"
    and init :: "'c option"
    and put :: "int \<Rightarrow> ulong \<Rightarrow> 'c \<Rightarrow> 'c option"
    and rebuild :: "int \<Rightarrow> int \<Rightarrow> 'c \<Rightarrow> 'c option"
  assumes init: "\<exists>c. init = Some c \<and> ok c \<and> lookup c = [0 \<mapsto> 0]"
    and put: "ok c \<Longrightarrow> \<exists>c'. put now ip c = Some c' \<and> ok c' \<and> lookup c' = (lookup c)(ip \<mapsto> now)"
    and rebuild: "ok c \<Longrightarrow> \<exists>c'. rebuild ttl now c = Some c' \<and> ok c' \<and>
      lookup c' = (\<lambda>k. if k = 0 then Some 0
                       else case lookup c k of None \<Rightarrow> None
                            | Some s \<Rightarrow> if now - s < ttl then Some s else None)"
begin

text \<open>
  Every history of insertions and rebuilds runs to its end, and afterwards the cache says
  "recent" exactly for the addresses whose last insertion is recent.
\<close>

lemma run_spec:
  assumes "ok c" "ip \<noteq> 0" "\<forall>t. Rebuild t \<in> set ops \<longrightarrow> t < now"
    and "(\<exists>s. lookup c ip = Some s \<and> now - s \<le> ttl) \<longleftrightarrow> (\<exists>s. s0 = Some s \<and> now - s \<le> ttl)"
  shows "\<exists>c'. run_cache put rebuild ttl c ops = Some c' \<and> ok c' \<and>
    ((\<exists>s. lookup c' ip = Some s \<and> now - s \<le> ttl) \<longleftrightarrow> (\<exists>s. last_seen ops ip s0 = Some s \<and> now - s \<le> ttl))"
  using assms
proof (induction ops arbitrary: c s0)
  case (Cons x ops)
  show ?case
  proof (cases x)
    case (Insert t k)
    obtain c1 where c1: "put t k c = Some c1" "ok c1" "lookup c1 = (lookup c)(k \<mapsto> t)"
      using put [OF Cons.prems(1)] by blast
    have "(\<exists>s. lookup c1 ip = Some s \<and> now - s \<le> ttl) \<longleftrightarrow>
        (\<exists>s. (if k = ip then Some t else s0) = Some s \<and> now - s \<le> ttl)"
      using Cons.prems(4) c1(3) by auto
    from Cons.IH [OF c1(2) Cons.prems(2) _ this] Cons.prems(3) show ?thesis
      by (auto simp: Insert c1(1))
  next
    case (Rebuild t)
    obtain c1 where c1: "rebuild ttl t c = Some c1" "ok c1"
        "lookup c1 = (\<lambda>k. if k = 0 then Some 0 else case lookup c k of None \<Rightarrow> None
           | Some s \<Rightarrow> if t - s < ttl then Some s else None)"
      using rebuild [OF Cons.prems(1)] by blast
    have "t < now" using Cons.prems(3) by (simp add: Rebuild)
    then have "(\<exists>s. lookup c1 ip = Some s \<and> now - s \<le> ttl) \<longleftrightarrow> (\<exists>s. s0 = Some s \<and> now - s \<le> ttl)"
      unfolding Cons.prems(4) [symmetric] c1(3)
      using Cons.prems(2) by (auto split: option.splits)
    from Cons.IH [OF c1(2) Cons.prems(2) _ this] Cons.prems(3) show ?thesis
      by (auto simp: Rebuild c1(1))
  qed
qed auto

lemma history:
  assumes "ip \<noteq> 0" "\<forall>t. Rebuild t \<in> set ops \<longrightarrow> t < now"
  shows "\<exists>c c'. init = Some c \<and> run_cache put rebuild ttl c ops = Some c' \<and> ok c' \<and>
    ((\<exists>s. lookup c' ip = Some s \<and> now - s \<le> ttl) \<longleftrightarrow> (\<exists>s. last_seen ops ip None = Some s \<and> now - s \<le> ttl))"
proof -
  obtain c where c: "init = Some c" "ok c" "lookup c = [0 \<mapsto> 0]" using init by blast
  have "(\<exists>s. lookup c ip = Some s \<and> now - s \<le> ttl) \<longleftrightarrow> (\<exists>s. None = Some s \<and> now - s \<le> ttl)"
    using assms(1) c(3) by simp
  from run_spec [OF c(2) assms this] c(1) show ?thesis by blast
qed

end

interpretation nc: ttl_cache cache_ok cache_map cache_init cache_insert cache_rebuild
  by unfold_locales (rule cache_init_spec, erule cache_insert_spec, erule cache_rebuild_spec)

lemma check_neg_cache_spec:
  assumes "cache_ok c" "0 < negcache"
  shows "\<exists>n. check_neg_cache shift_zero (fst c) (snd c) negcache now ip = Some n \<and>
    (n \<noteq> NULL \<longleftrightarrow> (\<exists>s. cache_map c ip = Some s \<and> now - s \<le> negcache))"
proof -
  obtain m head where c: "c = (m, head)" by (cases c)
  obtain s0 t where t: "trie m head s0 t" using assms by (auto simp: cache_ok_def c)
  show ?thesis
  proof (cases "ip \<in> keys t")
    case True
    obtain a where d: "descend ip t = (a, ip)"
      using descend_key [OF trie_facts(3) [OF t] True] by (cases "descend ip t") auto
    have l: "(a, ip) \<in> leaves t" using descend_leaf [of ip t] d by simp
    obtain n where n: "cells m a = Some n" using trep_leaf [OF trie_trep [OF t] l] by blast
    show ?thesis
      using nc_search_trie [OF t, of ip] True d n trie_leaf_nonnull [OF t l] assms(2)
      by (simp add: check_neg_cache_def cache_map_def nc_map_def c mem_load_def)
  next
    case False
    then show ?thesis using nc_search_trie [OF t, of ip] assms(2)
      by (simp add: check_neg_cache_def cache_map_def nc_map_def c)
  qed
qed


section \<open>Properties\<close>







text \<open>
  The trie depends on what a shift by the width of \<open>unsigned long\<close> gives.  Where the
  machine takes the shift count modulo 64, an address whose lowest bit is set (in network
  byte order: an odd first octet) that is inserted into an empty cache is not found again.
\<close>

lemma negcache_masked_shift_loses:
  assumes "bit ip 0"
  shows "\<exists>h m p m'. nc_init mem_empty NULL = Some (h, m) \<and>
    nc_insert shift_masked m h ip = Some (p, m') \<and> nc_search shift_masked m' h ip = Some NULL"
proof -
  have ip: "ip \<noteq> 0" using assms by auto
  show ?thesis
    using assms ip
    by (simp add: nc_init_def nc_insert_def nc_search_def nc_walk.simps nc_walk2.simps nc_diffbit.simps
        GETBIT_def shift_masked_def MyMalloc_def mem_store_def mem_load_def mem_empty_def maxb_def)
qed

end
