(* ===== verification/Scan.thy ===== *)
theory Scan
  imports Firedns Kline Negcache_Map
begin

text \<open>
  scan.c, first part: the scan structures, how a scan ends and what is done about a positive
  host.  libopm, which runs the proxy tests, is not part of this program: \<open>opm_active\<close> are the
  scans it has accepted and not yet reported the end of.  The structures are kept in memory of
  their own, so that every use after \<open>scan_free\<close> is seen; the strings a structure owns live
  and die with it.
\<close>

section \<open>State\<close>

record opm_remote =
  rem_ip :: string
  rem_port :: int
  rem_protocol :: opm_type
  rem_bytes_read :: int
  rem_data :: ptr

record scan_struct =
  ss_irc_nick :: "string option"
  ss_irc_username :: "string option"
  ss_irc_hostname :: "string option"
  ss_ip :: "string option"
  ss_proof :: "string option"
  ss_remote :: "opm_remote option"
  ss_scans :: ushort
  ss_positive :: ushort
  ss_manual_target :: "channel_conf option"

record scanner_struct =
  scs_name :: string
  scs_masks :: "string list"

record dnsbl_scan =
  ds_ss :: ptr
  ds_bl :: nat

record scan_st = fdns +
  SCANNERS :: "scanner_struct list"
  SS :: "scan_struct mem"
  DS :: "dnsbl_scan mem"
  nc_mem :: "cnode mem"
  nc_head :: ptr
  nc_counter :: int
  opm_active :: "(nat \<times> ptr) list"

definition scan_globals :: "int \<Rightarrow> env \<Rightarrow> conf \<Rightarrow> scan_st" where
  "scan_globals now e c = fdns.extend (fdns_globals now e c)
     (scan_st.fields [] mem_empty mem_empty mem_empty NULL 0 [])"

text \<open>What \<open>MyMalloc\<close> returns: a zeroed structure.\<close>

definition zero_ss :: scan_struct where
  "zero_ss = \<lparr>ss_irc_nick = None, ss_irc_username = None, ss_irc_hostname = None, ss_ip = None, ss_proof = None,
     ss_remote = None, ss_scans = 0, ss_positive = 0, ss_manual_target = None\<rparr>"

text \<open>\<open>opm_remote_create\<close> of libopm.\<close>

definition opm_remote_create :: "string \<Rightarrow> opm_remote" where
  "opm_remote_create ip = \<lparr>rem_ip = ip, rem_port = 0, rem_protocol = OPM_TYPE_OTHER 0, rem_bytes_read = 0, rem_data = NULL\<rparr>"

definition ss_get :: "ptr \<Rightarrow> 'a scan_st_scheme \<Rightarrow> scan_struct option" where
  "ss_get p w = mem_load (SS w) p"

definition ss_put :: "ptr \<Rightarrow> scan_struct \<Rightarrow> 'a scan_st_scheme \<Rightarrow> 'a scan_st_scheme option" where
  "ss_put p s w = map_option (\<lambda>m. w\<lparr>SS := m\<rparr>) (mem_store (SS w) p s)"

definition ss_modify :: "ptr \<Rightarrow> (scan_struct \<Rightarrow> scan_struct) \<Rightarrow> 'a scan_st_scheme \<Rightarrow> 'a scan_st_scheme option" where
  "ss_modify p f w = do { s \<leftarrow> ss_get p w; ss_put p (f s) w }"

section \<open>Creating and freeing\<close>

definition scan_create ::
  "string \<times> string \<times> string \<times> string \<Rightarrow> string \<Rightarrow> 'a scan_st_scheme \<Rightarrow> (ptr \<times> 'a scan_st_scheme) option" where
  "scan_create user msg w =
     (let (nick, username, hostname, ip) = user;
          (p, m) = MyMalloc (SS w) zero_ss
      in do {
        w \<leftarrow> ss_put p \<lparr>ss_irc_nick = Some nick, ss_irc_username = Some username, ss_irc_hostname = Some hostname,
               ss_ip = Some ip, ss_proof = Some msg, ss_remote = Some (opm_remote_create ip), ss_scans = 0,
               ss_positive = 0, ss_manual_target = None\<rparr> (w\<lparr>SS := m\<rparr>);
        Some (p, w) })"

definition scan_free :: "ptr \<Rightarrow> 'a scan_st_scheme \<Rightarrow> 'a scan_st_scheme option" where
  "scan_free p w =
     (if p = NULL then Some w else map_option (\<lambda>m. w\<lparr>SS := m\<rparr>) (MyFree (SS w) p))"

section \<open>Ending a scan\<close>

text \<open>The address as the negative cache gets it: in network order, read on a little-endian
  machine.\<close>

definition s_addr :: "uchar list \<Rightarrow> uint" where
  "s_addr bs = of_nat (horner_sum unat 256 bs)"

definition negcache_insert :: "string \<Rightarrow> 'a scan_st_scheme \<Rightarrow> 'a scan_st_scheme option" where
  "negcache_insert ipstr w =
     (case sys_pton (envir w) ipstr of
        None \<Rightarrow> Some w
      | Some bs \<Rightarrow>
          map_option (\<lambda>m. w\<lparr>nc_mem := m\<rparr>)
            (negcache_insert_ip (shift64 (envir w)) (nc_mem w) (nc_head w) (clock w) (ucast (s_addr bs))))"

definition scan_negative :: "ptr \<Rightarrow> 'a scan_st_scheme \<Rightarrow> 'a scan_st_scheme option" where
  "scan_negative p w = do {
     ss \<leftarrow> ss_get p w;
     if opt_negcache (OptionsItem (cfg w)) > 0 then do { ip \<leftarrow> ss_ip ss; negcache_insert ip w } else Some w }"

text \<open>What is done about a scan that is complete, and the check for it.\<close>

definition scan_conclude :: "ptr \<Rightarrow> scan_struct \<Rightarrow> 'a scan_st_scheme \<Rightarrow> 'a scan_st_scheme option" where
  "scan_conclude p ss w =
     (case ss_manual_target ss of
        Some target \<Rightarrow> irc_send ''PRIVMSG %s :CHECK -> All tests on %s completed.'' [Str (chan_name target), ArgStr (ss_ip ss)] w
      | None \<Rightarrow> if ss_positive ss = 0 then scan_negative p w else Some w)"

definition scan_checkfinished :: "ptr \<Rightarrow> 'a scan_st_scheme \<Rightarrow> 'a scan_st_scheme option" where
  "scan_checkfinished p w = do {
     ss \<leftarrow> ss_get p w;
     if ss_scans ss \<le> 0 then do { w \<leftarrow> scan_conclude p ss w; scan_free p w } else Some w }"

section \<open>A positive host\<close>

definition scan_types :: "(opm_type \<times> string) list" where
  "scan_types = [(OPM_TYPE_HTTP, ''HTTP''), (OPM_TYPE_HTTPPOST, ''HTTPPOST''), (OPM_TYPE_SOCKS4, ''SOCKS4''),
     (OPM_TYPE_SOCKS5, ''SOCKS5''), (OPM_TYPE_WINGATE, ''WINGATE''), (OPM_TYPE_ROUTER, ''ROUTER'')]"

definition scan_gettype :: "opm_type \<Rightarrow> string" where
  "scan_gettype protocol = (case map_of scan_types protocol of Some name \<Rightarrow> name | None \<Rightarrow> ''undefined'')"

text \<open>\<open>opm_end\<close> on every scanner.  The library only marks the scan; it reports its end later.\<close>

definition end_scans :: "ptr \<Rightarrow> 'a scan_st_scheme \<Rightarrow> 'a scan_st_scheme" where
  "end_scans p w = w\<lparr>out := out w @ map (\<lambda>i. Opm_end i p) [0..<length (SCANNERS w)]\<rparr>"

text \<open>The buffer of \<open>scan_irckline\<close> is not initialised; the strings of the table are those of a
  scan for a connected user.\<close>

definition scan_positive :: "ptr \<Rightarrow> string \<Rightarrow> string \<Rightarrow> 'a scan_st_scheme \<Rightarrow> 'a scan_st_scheme option" where
  "scan_positive p kline type w = do {
     ss \<leftarrow> ss_get p w;
     if ss_positive ss \<noteq> 0 then Some w
     else do {
       ip \<leftarrow> ss_ip ss;
       host \<leftarrow> ss_irc_hostname ss;
       user \<leftarrow> ss_irc_username ss;
       nick \<leftarrow> ss_irc_nick ss;
       w \<leftarrow> scan_irckline (strncpy_buf MSGLENMAX (stack_bytes (envir w) (out w))) kline (kline_table ip host user nick type) w;
       ss_modify p (\<lambda>s. s\<lparr>ss_positive := 1\<rparr>) (end_scans p w) } }"

section \<open>Exemptions\<close>

fun scan_checkexempt :: "string \<Rightarrow> string \<Rightarrow> string list \<Rightarrow> bool option" where
  "scan_checkexempt m ipmask [] = Some False"
| "scan_checkexempt m ipmask (e # es) = do {
     a \<leftarrow> match e m;
     if a then Some True
     else do {
       b \<leftarrow> match e ipmask;
       if b then Some True else scan_checkexempt m ipmask es } }"

end
