(* ===== verification/Dnsbl.thy ===== *)
theory Dnsbl
  imports Scan
begin

text \<open>
  dnsbl.c: the blacklist queries for a scan and what their results mean.
\<close>

unbundle bit_operations_syntax

section \<open>Queries\<close>

text \<open>The name that is looked up: the octets of the address in reverse, then the zone.\<close>

definition dnsbl_lookup :: "uchar list \<Rightarrow> string \<Rightarrow> string option" where
  "dnsbl_lookup addr zone =
     (let s = s_addr addr;
          d = (ucast (drop_bit 24 s) :: uchar);
          c = (ucast (drop_bit 16 s) :: uchar);
          b = (ucast (drop_bit 8 s) :: uchar);
          a = (ucast s :: uchar)
      in format_buffer 128 ''%d.%d.%d.%d.%s'' [ArgInt (ucast d), ArgInt (ucast c), ArgInt (ucast b), ArgInt (ucast a), Str zone])"

text \<open>The query to one blacklist, and the loop over them; \<open>i\<close> is the position of the first of
  \<open>bls\<close>.\<close>

definition dnsbl_query :: "ptr \<Rightarrow> uchar list \<Rightarrow> nat \<Rightarrow> blacklist_conf \<Rightarrow> 'a scan_st_scheme \<Rightarrow> 'a scan_st_scheme option" where
  "dnsbl_query p addr i bl w = do {
     lookup \<leftarrow> dnsbl_lookup addr (bl_name bl);
     let (ds, m) = MyMalloc (DS w) \<lparr>ds_ss = NULL, ds_bl = 0\<rparr>;
     m \<leftarrow> mem_store m ds \<lparr>ds_ss = p, ds_bl = i\<rparr>;
     (res, w) \<leftarrow> firedns_getip FDNS_QRY_A lookup ds (w\<lparr>DS := m\<rparr>);
     if res = -1 \<and> fdns_errno w \<noteq> FDNS_ERR_FDLIMIT then map_option (\<lambda>m. w\<lparr>DS := m\<rparr>) (MyFree (DS w) ds)
     else ss_modify p (\<lambda>s. s\<lparr>ss_scans := ss_scans s + 1\<rparr>) w }"

fun dnsbl_queries :: "ptr \<Rightarrow> uchar list \<Rightarrow> nat \<Rightarrow> blacklist_conf list \<Rightarrow> 'a scan_st_scheme \<Rightarrow> 'a scan_st_scheme option" where
  "dnsbl_queries p addr i [] w = Some w"
| "dnsbl_queries p addr i (bl # bls) w = do {
     w \<leftarrow> dnsbl_query p addr i bl w;
     dnsbl_queries p addr (i + 1) bls w }"

definition dnsbl_add :: "ptr \<Rightarrow> 'a scan_st_scheme \<Rightarrow> 'a scan_st_scheme option" where
  "dnsbl_add p w = do {
     ss \<leftarrow> ss_get p w;
     ip \<leftarrow> ss_ip ss;
     case sys_aton (envir w) ip of
       None \<Rightarrow> Some w
     | Some addr \<Rightarrow> dnsbl_queries p addr 0 (blacklists w) w }"

section \<open>Results\<close>

text \<open>
  The texts of a bit mask answer.  The length passed to the first \<open>strncat\<close> is a \<open>size_t\<close>:
  it wraps around when the text has filled the buffer.
\<close>

fun bitmask_text :: "uchar \<Rightarrow> blacklist_reply list \<Rightarrow> string \<Rightarrow> string option" where
  "bitmask_text type [] text = Some text"
| "bitmask_text type (item # items) text =
     (if reply_number item AND type \<noteq> 0 then do {
        text \<leftarrow> buf_strncat 128 text (reply_type item) (nat ((128 - int (length text) - 2) mod 2 ^ 64));
        let text = take 126 text;
        text \<leftarrow> buf_strncat 128 text '', '' (nat ((128 - int (length text) - 1) mod 2 ^ 64));
        bitmask_text type items (take 127 text) }
      else bitmask_text type items text)"

text \<open>\<open>*(strrchr(text, ',')) = 0\<close>.\<close>

definition cut_last_comma :: "string \<Rightarrow> string option" where
  "cut_last_comma s =
     (if CHR '','' \<in> set s then Some (rev (tl (dropWhile (\<lambda>c. c \<noteq> CHR '','') (rev s)))) else None)"

text \<open>
  The text of a reply, \<open>None\<close> inside when \<open>strncpy\<close> leaves the buffer without a NUL.  The
  configured number is a signed character, the answer is not.
\<close>

fun reply_text :: "uchar \<Rightarrow> blacklist_reply list \<Rightarrow> string option" where
  "reply_text type [] = Some []"
| "reply_text type (item # items) =
     (if sint (reply_number item) = uint type then read_cstr (strncpy_buf 128 (reply_type item))
      else reply_text type items)"

definition dnsbl_text :: "blacklist_conf \<Rightarrow> uchar \<Rightarrow> string option option" where
  "dnsbl_text bl type =
     (case bl_type bl of
        A_BITMASK \<Rightarrow> do {
          text \<leftarrow> bitmask_text type (bl_reply bl) [];
          text \<leftarrow> (if text \<noteq> [] then cut_last_comma text else Some text);
          Some (Some text) }
      | A_REPLY \<Rightarrow> Some (reply_text type (bl_reply bl)))"

text \<open>What is done about a listed address.\<close>

definition dnsbl_announce ::
  "ptr \<Rightarrow> scan_struct \<Rightarrow> blacklist_conf \<Rightarrow> string option \<Rightarrow> 'a scan_st_scheme \<Rightarrow> 'a scan_st_scheme option" where
  "dnsbl_announce p ss bl text_type w =
     (case ss_manual_target ss of
        Some target \<Rightarrow> do {
          text \<leftarrow> text_type;
          irc_send ''PRIVMSG %s :CHECK -> DNSBL -> %s appears in BL zone %s (%s)''
            [Str (chan_name target), ArgStr (ss_ip ss), Str (bl_name bl), Str text] w }
      | None \<Rightarrow>
          if ss_positive ss = 0 then do {
            text \<leftarrow> text_type;
            w \<leftarrow> scan_positive p (if bl_kline bl \<noteq> [] then bl_kline bl else irc_kline (IRCItem (cfg w))) text w;
            irc_send_channels ''DNSBL -> %s!%s@%s appears in BL zone %s (%s)''
              [ArgStr (ss_irc_nick ss), ArgStr (ss_irc_username ss), ArgStr (ss_irc_hostname ss), Str (bl_name bl), Str text] w }
          else Some w)"

definition dnsbl_positive :: "ptr \<Rightarrow> nat \<Rightarrow> uchar \<Rightarrow> 'a scan_st_scheme \<Rightarrow> 'a scan_st_scheme option" where
  "dnsbl_positive p i type w = do {
     ss \<leftarrow> ss_get p w;
     let bl = blacklists w ! i;
     text_type \<leftarrow> dnsbl_text bl type;
     if text_type = Some [] \<and> \<not> bl_ban_unknown bl then Some w
     else do {
       w \<leftarrow> dnsbl_announce p ss bl text_type w;
       Some (stats_dnsblrecv i w) } }"

text \<open>One query of a scan is done.\<close>

definition scan_done :: "ptr \<Rightarrow> 'a scan_st_scheme \<Rightarrow> 'a scan_st_scheme option" where
  "scan_done p w = do {
     w \<leftarrow> ss_modify p (\<lambda>s. s\<lparr>ss_scans := ss_scans s - 1\<rparr>) w;
     scan_checkfinished p w }"

definition ds_free :: "ptr \<Rightarrow> 'a scan_st_scheme \<Rightarrow> 'a scan_st_scheme option" where
  "ds_free d w = map_option (\<lambda>m. w\<lparr>DS := m\<rparr>) (MyFree (DS w) d)"

text \<open>The two kinds of results: the address is not listed, or there is an answer or an error.\<close>

definition dnsbl_unlisted :: "scan_struct \<Rightarrow> firedns_result \<Rightarrow> 'a scan_st_scheme \<Rightarrow> 'a scan_st_scheme option" where
  "dnsbl_unlisted ss res w =
     (case ss_manual_target ss of
        None \<Rightarrow> Some w
      | Some target \<Rightarrow> do {
          ip \<leftarrow> ss_ip ss;
          lookup \<leftarrow> read_cstr (r_lookup res);
          irc_send ''PRIVMSG %s :CHECK -> DNSBL -> %s does not appear in BL zone %s''
            [Str (chan_name target), Str ip,
             Str (if length ip < length lookup then drop (length ip + 1) lookup else lookup)] w })"

definition dnsbl_answer :: "dnsbl_scan \<Rightarrow> firedns_result \<Rightarrow> 'a scan_st_scheme \<Rightarrow> 'a scan_st_scheme option" where
  "dnsbl_answer ds res w =
     (if fdns_errno w = FDNS_ERR_NONE then dnsbl_positive (ds_ss ds) (ds_bl ds) (of_char (r_text res ! 3)) w
      else do {
        lookup \<leftarrow> read_cstr (r_lookup res);
        err \<leftarrow> firedns_strerror (fdns_errno w) w;
        if fdns_errno w \<noteq> FDNS_ERR_TIMEOUT
        then irc_send_channels ''DNSBL -> Lookup error on %s: %s'' [Str lookup, Str err] w
        else Some w })"

definition dnsbl_result :: "firedns_result \<Rightarrow> 'a scan_st_scheme \<Rightarrow> 'a scan_st_scheme option" where
  "dnsbl_result res w = do {
     ds \<leftarrow> mem_load (DS w) (r_info res);
     ss \<leftarrow> ss_get (ds_ss ds) w;
     if r_text res ! 0 = NUL \<and> fdns_errno w = FDNS_ERR_NXDOMAIN then do {
       w \<leftarrow> dnsbl_unlisted ss res w;
       w \<leftarrow> scan_done (ds_ss ds) w;
       ds_free (r_info res) w }
     else do {
       w \<leftarrow> dnsbl_answer ds res w;
       w \<leftarrow> scan_done (ds_ss ds) w;
       ds_free (r_info res) w } }"

definition dnsbl_cycle :: "'a scan_st_scheme \<Rightarrow> 'a scan_st_scheme option" where
  "dnsbl_cycle w = firedns_cycle dnsbl_result w"

section \<open>Reports\<close>

definition newline :: string where
  "newline = [CHR 0x0A]"

definition dnsbl_report :: "ptr \<Rightarrow> 'a scan_st_scheme \<Rightarrow> 'a scan_st_scheme option" where
  "dnsbl_report p w = do {
     ss \<leftarrow> ss_get p w;
     let oc = OpmItem (cfg w);
     if ss_ip ss = None then Some w
     else if opm_dnsbl_to oc = [] \<or> opm_dnsbl_from oc = [] \<or> opm_sendmail oc = [] then Some w
     else do {
       remote \<leftarrow> ss_remote ss;
       cmdbuf \<leftarrow> format_buffer 512 ''%s -t'' [Str (opm_sendmail oc)];
       buf \<leftarrow> format_buffer 4096
         (''From: %s <%s>'' @ newline @ ''To: %s'' @ newline @ ''Subject: BOPM Report'' @ newline @ ''X-BOPM-Version: %s'' @ newline @ newline @
          ''%s: %s:%d'' @ newline @ newline @ ''%s'' @ newline)
         [Str (irc_nick (IRCItem (cfg w))), Str (opm_dnsbl_from oc), Str (opm_dnsbl_to oc), Str (VERSION (envir w)),
          Str (scan_gettype (rem_protocol remote)), ArgStr (ss_ip ss), ArgInt (of_int (rem_port remote)), ArgStr (ss_proof ss)];
       let ok = pipe_ok (envir w) (out w);
       if \<not> ok then
         irc_send_channels (''I was trying to create a pipe to'' @ [CHR 0x27] @ ''%s'' @ [CHR 0x27] @
           '' to send a DNSBL report, and it failed! I'' @ [CHR 0x27] @ ''ll give up for now.'') [Str cmdbuf] w
       else Some (stats_dnsblsend (record_event (Mail cmdbuf buf) w)) } }"

section \<open>Lemmas\<close>

text \<open>The bytes of an address, on a little-endian machine.\<close>

lemma byte_lt: "unat (x :: uchar) < 256"
  using unsigned_less [of x, where 'a = nat] by simp

lemma s_addr_bytes:
  fixes a b c d :: uchar
  shows "(ucast (drop_bit 24 (s_addr [a, b, c, d])) :: uchar) = d" "(ucast (drop_bit 16 (s_addr [a, b, c, d])) :: uchar) = c"
    "(ucast (drop_bit 8 (s_addr [a, b, c, d])) :: uchar) = b" "(ucast (s_addr [a, b, c, d]) :: uchar) = a"
proof -
  note lt = byte_lt [of a] byte_lt [of b] byte_lt [of c] byte_lt [of d]
  define n where "n = unat a + 256 * (unat b + 256 * (unat c + 256 * unat d))"
  have n: "n < 2 ^ 32" using lt by (simp add: n_def)
  have "horner_sum unat 256 [a, b, c, d] = n" by (simp add: n_def)
  then have u: "unat (s_addr [a, b, c, d]) = n" unfolding s_addr_def unat_of_nat using n by simp
  have e: "(ucast (drop_bit k (s_addr [a, b, c, d])) :: uchar) = of_nat (n div 2 ^ k)" for k
  proof -
    have "unat (drop_bit k (s_addr [a, b, c, d])) = n div 2 ^ k" unfolding unat_drop_bit_eq u by (simp add: drop_bit_eq_div)
    then show ?thesis by (metis of_nat_unat)
  qed
  have d: "(x + 256 * y) div 256 = y" if "x < 256" for x y :: nat using that by simp
  have q: "n div 2 ^ 8 = unat b + 256 * (unat c + 256 * unat d)" "n div 2 ^ 16 = unat c + 256 * unat d" "n div 2 ^ 24 = unat d"
  proof -
    show 1: "n div 2 ^ 8 = unat b + 256 * (unat c + 256 * unat d)" using d [OF lt(1)] by (simp add: n_def)
    have "n div 2 ^ 16 = n div 2 ^ 8 div 256" by (simp add: div_mult2_eq [symmetric])
    then show 2: "n div 2 ^ 16 = unat c + 256 * unat d" using 1 d [OF lt(2)] by simp
    have "n div 2 ^ 24 = n div 2 ^ 16 div 256" by (simp add: div_mult2_eq [symmetric])
    then show "n div 2 ^ 24 = unat d" using 2 d [OF lt(3)] by simp
  qed
  have "(256 :: uchar) = 0" "(65536 :: uchar) = 0" "(16777216 :: uchar) = 0" by simp_all
  then have z: "256 * x = 0" "65536 * x = 0" "16777216 * x = 0" for x :: uchar by (simp_all only: mult_zero_left)
  show "(ucast (drop_bit 24 (s_addr [a, b, c, d])) :: uchar) = d" unfolding e q by simp
  show "(ucast (drop_bit 16 (s_addr [a, b, c, d])) :: uchar) = c" unfolding e q by (simp add: z)
  show "(ucast (drop_bit 8 (s_addr [a, b, c, d])) :: uchar) = b" unfolding e q by (simp add: z)
  show "(ucast (s_addr [a, b, c, d]) :: uchar) = a" using e [of 0] by (simp add: n_def z)
qed

lemma byte_text: "int_str (sint (ucast (x :: uchar) :: 32 word)) = num_str 10 False (unat x)"
proof -
  have l: "uint x < 2 ^ 8" using uint_lt2p [of x] by simp
  have "uint (ucast x :: 32 word) = uint x" unfolding unsigned_ucast_eq using l by (simp add: take_bit_int_eq_self)
  then have "sint (ucast x :: 32 word) = signed_take_bit 31 (uint x)" by (simp add: sint_uint)
  also have "\<dots> = uint x" using l by (intro signed_take_bit_int_eq_self order_trans [OF _ uint_ge_0]) simp_all
  finally show ?thesis by (simp add: int_str_def)
qed

lemma reply_text_high: "128 \<le> uint type \<Longrightarrow> reply_text type items = Some []"
proof (induction items)
  case (Cons item items)
  have "sint (reply_number item) < 128" using sint_lt [of "reply_number item"] by simp
  then show ?case using Cons by simp
qed simp

text \<open>The kinds of a bit mask answer.\<close>

definition mask_kinds :: "uchar \<Rightarrow> blacklist_reply list \<Rightarrow> string list" where
  "mask_kinds type items = map reply_type (filter (\<lambda>item. reply_number item AND type \<noteq> 0) items)"

fun commas :: "string list \<Rightarrow> string" where
  "commas [] = []"
| "commas [s] = s"
| "commas (s # t # ss) = s @ '', '' @ commas (t # ss)"

lemma bitmask_text_eq:
  "length t + length (concat (map (\<lambda>s. s @ '', '') (mask_kinds type items))) \<le> 127 \<Longrightarrow>
   bitmask_text type items t = Some (t @ concat (map (\<lambda>s. s @ '', '') (mask_kinds type items)))"
proof (induction items arbitrary: t)
  case (Cons item items)
  show ?case
  proof (cases "reply_number item AND type = 0")
    case False
    have l: "length t + length (reply_type item) \<le> 125" using Cons.prems False by (simp add: mask_kinds_def)
    have "nat ((128 - int (length t) - 2) mod 2 ^ 64) = 126 - length t" using l by simp
    moreover have "nat ((128 - int (length t + length (reply_type item)) - 1) mod 2 ^ 64) = 127 - (length t + length (reply_type item))"
      using l by simp
    ultimately have "bitmask_text type (item # items) t = bitmask_text type items (t @ reply_type item @ '', '')"
      using l False by (simp add: buf_strncat_def)
    then show ?thesis using Cons.IH [of "t @ reply_type item @ '', ''"] Cons.prems False by (simp add: mask_kinds_def)
  qed (use Cons in \<open>simp add: mask_kinds_def\<close>)
qed (simp add: mask_kinds_def)

text \<open>A kind that is too long fills the buffer, and then the next one does not fit.\<close>

lemma bitmask_fills:
  assumes "126 \<le> length (reply_type x)" "reply_number x AND type \<noteq> 0"
  shows "bitmask_text type (x # items) [] = bitmask_text type items (take 126 (reply_type x) @ '','')"
proof -
  have l: "length (take 126 (reply_type x)) = 126" using assms(1) by simp
  have "nat ((128 - int (length (take 126 (reply_type x))) - 1) mod 2 ^ 64) = 1" unfolding l by simp
  moreover have "nat ((128 - int (length ([] :: string)) - 2) mod 2 ^ 64) = 126" by simp
  ultimately show ?thesis using assms(2) l by (simp add: buf_strncat_def Let_def del: length_take)
qed

lemma bitmask_full:
  assumes "length t = 127" "reply_type y \<noteq> []" "reply_number y AND type \<noteq> 0"
  shows "bitmask_text type (y # items) t = None"
proof -
  have "nat ((128 - int (length t) - 2) mod 2 ^ 64) = 2 ^ 64 - 1" using assms(1) by simp
  moreover have "0 < length (take (2 ^ 64 - 1) (reply_type y))" using assms(2) by simp
  ultimately have "buf_strncat 128 t (reply_type y) (nat ((128 - int (length t) - 2) mod 2 ^ 64)) = None"
    using assms(1) by (simp add: buf_strncat_def Let_def del: length_take)
  then show ?thesis using assms(3) by simp
qed

lemma concat_commas: "ss \<noteq> [] \<Longrightarrow> concat (map (\<lambda>s. s @ '', '') ss) = commas ss @ '', ''"
  by (induction ss rule: commas.induct) auto

lemma cut_last_comma_eq: "cut_last_comma (s @ '', '') = Some s"
  by (simp add: cut_last_comma_def)

section \<open>Answers that go wrong\<close>

text \<open>Two kinds of a bit mask answer, the first of them longer than the buffer, make
  \<open>dnsbl_positive\<close> write behind its buffer: the size it computes for the second wraps around.\<close>

lemma bitmask_text_overflow:
  assumes "126 \<le> length (reply_type x)" "reply_type y \<noteq> []" "reply_number x AND type \<noteq> 0" "reply_number y AND type \<noteq> 0"
  shows "bitmask_text type (x # y # items) [] = None"
  using bitmask_fills [OF assms(1,3)] bitmask_full [OF _ assms(2,4)] assms(1) by simp

text \<open>A reply blacklist cannot recognise answers from 127.0.0.128 on: the configured number is
  a signed character, so nothing is done about a listed host unless unknown answers are banned.\<close>

lemma reply_above_127_ignored:
  assumes "i < length (blacklists w)" "bl_type (blacklists w ! i) = A_REPLY" "\<not> bl_ban_unknown (blacklists w ! i)"
    and "ss_get p w = Some ss" "128 \<le> uint type"
  shows "dnsbl_positive p i type w = Some w"
  using assms by (simp add: dnsbl_positive_def dnsbl_text_def reply_text_high Let_def)

section \<open>Properties\<close>

text \<open>C40: The name looked up for an address in a blacklist is the address with its octets in
  reverse order, in decimal, followed by the zone, cut to the 127 characters of the buffer.\<close>

theorem dnsbl_lookup_reverses:
  assumes "cstring zone" "length zone < 2 ^ 31"
  shows "dnsbl_lookup [a, b, c, d] zone = Some (take 127 (dotted [d, c, b, a] @ ''.'' @ zone))"
proof -
  let ?t = "dotted [d, c, b, a] @ ''.'' @ zone"
  have v: "vformat ''%d.%d.%d.%d.%s'' [ArgInt (ucast d), ArgInt (ucast c), ArgInt (ucast b), ArgInt (ucast a), Str zone] = Some ?t"
    using assms(2) by (simp add: fmt_simps byte_text dotted_def)
  have "cstring ?t" using assms(1) num_str_cstring [of False] by (simp add: dotted_def)
  from format_buffer_eq [OF v this, of 128] show ?thesis by (simp add: dnsbl_lookup_def s_addr_bytes Let_def)
qed

theorem dnsbl_lookup_reverses_witness:
  "dnsbl_lookup [192, 0, 2, 7] ''opm.example.net'' = Some ''7.2.0.192.opm.example.net''"
proof -
  have "take 127 (dotted [7, 2, 0, 192] @ ''.'' @ ''opm.example.net'') = ''7.2.0.192.opm.example.net''" by code_simp
  then show ?thesis using dnsbl_lookup_reverses [of "''opm.example.net''" 192 0 2 7] by simp
qed

text \<open>The answer of a bit mask blacklist is worded as the kinds of all bits that are set, in
  the order of the configuration and separated by commas, when that fits the buffer.\<close>

lemma dnsbl_text_kinds:
  assumes "bl_type bl = A_BITMASK" "length (commas (mask_kinds type (bl_reply bl))) \<le> 125"
  shows "dnsbl_text bl type = Some (Some (commas (mask_kinds type (bl_reply bl))))"
proof (cases "mask_kinds type (bl_reply bl) = []")
  case True
  then show ?thesis using assms(1) bitmask_text_eq [of "[]" type "bl_reply bl"] by (simp add: dnsbl_text_def)
next
  case False
  have "bitmask_text type (bl_reply bl) [] = Some (commas (mask_kinds type (bl_reply bl)) @ '', '')"
    using bitmask_text_eq [of "[]" type "bl_reply bl"] concat_commas [OF False] assms(2) by simp
  then show ?thesis using assms(1) cut_last_comma_eq by (simp add: dnsbl_text_def)
qed

text \<open>A response with a code from 10 to 15 finishes its query with that code as the error
  number, for which \<open>firedns_strerror\<close> has no text: it reads behind its table.\<close>

lemma rcode_out_of_bounds:
  assumes "find (\<lambda>c. c_fd c = fd) (CONNECTIONS w) = Some c" "dns_recv (envir w) (out w) = Some h" "12 \<le> length h"
    and "take 2 h = c_id c" "of_char (h ! 2) AND 0x80 \<noteq> (0 :: nat)" "of_char (h ! 2) AND 0x78 = (0 :: nat)"
    and "10 \<le> (of_char (h ! 3) AND 0x0F :: nat)"
  shows "\<exists>r w'. firedns_getresult fd w = Some (r, w') \<and> fdns_errno w' = of_char (h ! 3) AND 0x0F \<and>
    firedns_strerror (fdns_errno w') w' = None"
proof -
  have ne: "CONNECTIONS w \<noteq> []" using assms(1) by auto
  have "parse_answer c h = Some (Finish (of_char (h ! 3) AND 0x0F) [])" using assms(3-7) by (simp add: parse_answer_def)
  then show ?thesis using assms ne
    by (simp add: firedns_getresult_def Let_def record_event_def firedns_strerror_def errors_def fdns_consts)
qed

end
