(* ===== verification/Scanner.thy ===== *)
theory Scanner
  imports Dnsbl
begin

text \<open>
  scan.c, second part: starting scans for connecting users and on request, the callbacks libopm
  invokes, and the timer.  A scanner is known by its position in the list of scanners.
\<close>

section \<open>Initialisation\<close>

text \<open>The masks a \<open>user\<close> block gives to a scanner: all of them, when it names the scanner.\<close>

definition user_scanner_masks :: "string \<Rightarrow> user_conf \<Rightarrow> string list" where
  "user_scanner_masks name uc = (if list_ex (\<lambda>n. strcaseeq n name) (user_scanners uc) then user_masks uc else [])"

definition scan_init :: "'a scan_st_scheme \<Rightarrow> 'a scan_st_scheme option" where
  "scan_init w =
     (let w = w\<lparr>SCANNERS := map (\<lambda>sc. \<lparr>scs_name = sc_name sc, scs_masks = []\<rparr>) (ScannerItemList (cfg w))\<rparr>;
          w = w\<lparr>SCANNERS := map (\<lambda>scs. scs\<lparr>scs_masks := concat (map (user_scanner_masks (scs_name scs)) (UserItemList (cfg w)))\<rparr>)
                 (SCANNERS w)\<rparr>
      in if opt_negcache (OptionsItem (cfg w)) > 0
         then map_option (\<lambda>(h, m). w\<lparr>nc_head := h, nc_mem := m\<rparr>) (nc_init (nc_mem w) (nc_head w))
         else Some w)"

section \<open>Starting a scan\<close>

text \<open>\<open>opm_scan\<close>: the library accepts the scan or refuses it; it does not call back.\<close>

definition opm_scan :: "nat \<Rightarrow> ptr \<Rightarrow> 'a scan_st_scheme \<Rightarrow> opm_result \<times> 'a scan_st_scheme" where
  "opm_scan i p w =
     (let r = opm_scan_ret (envir w) (out w);
          w = record_event (Opm_scan i p) w
      in (r, if r = OPM_SUCCESS then w\<lparr>opm_active := opm_active w @ [(i, p)]\<rparr> else w))"

definition count_scan :: "ptr \<Rightarrow> 'a scan_st_scheme \<Rightarrow> 'a scan_st_scheme option" where
  "count_scan p w = ss_modify p (\<lambda>s. s\<lparr>ss_scans := ss_scans s + 1\<rparr>) w"

text \<open>The masks of one scanner: the first that matches decides, unless the scanner has no
  protocols.\<close>

fun connect_masks :: "nat \<Rightarrow> ptr \<Rightarrow> string \<Rightarrow> string list \<Rightarrow> 'a scan_st_scheme \<Rightarrow> 'a scan_st_scheme option" where
  "connect_masks i p m [] w = Some w"
| "connect_masks i p m (scsmask # masks) w = do {
     b \<leftarrow> match scsmask m;
     if b then
       let (ret, w) = opm_scan i p w in
       (case ret of
          OPM_SUCCESS \<Rightarrow> count_scan p w
        | OPM_ERR_NOPROTOCOLS \<Rightarrow> connect_masks i p m masks w
        | _ \<Rightarrow> Some w)
     else connect_masks i p m masks w }"

fun connect_scanners :: "nat \<Rightarrow> ptr \<Rightarrow> string \<Rightarrow> scanner_struct list \<Rightarrow> 'a scan_st_scheme \<Rightarrow> 'a scan_st_scheme option" where
  "connect_scanners i p m [] w = Some w"
| "connect_scanners i p m (scs # scss) w = do {
     w \<leftarrow> connect_masks i p m (scs_masks scs) w;
     connect_scanners (i + 1) p m scss w }"

text \<open>Whether \<open>scan_connect\<close> returns at once: the address is not valid or negatively cached.\<close>

definition connect_skips :: "string \<Rightarrow> 'a scan_st_scheme \<Rightarrow> bool option" where
  "connect_skips ip w =
     (let negcache = opt_negcache (OptionsItem (cfg w)) in
      if negcache > 0 then
        (case sys_pton (envir w) ip of
           None \<Rightarrow> Some True
         | Some bs \<Rightarrow> map_option (\<lambda>n. n \<noteq> NULL)
             (check_neg_cache (shift64 (envir w)) (nc_mem w) (nc_head w) negcache (clock w) (ucast (s_addr bs))))
      else Some False)"

definition scan_connect :: "string \<times> string \<times> string \<times> string \<Rightarrow> string \<Rightarrow> 'a scan_st_scheme \<Rightarrow> 'a scan_st_scheme option" where
  "scan_connect user msg w = do {
     let (nick, username, hostname, ip) = user;
     skip \<leftarrow> connect_skips ip w;
     if skip then Some w
     else do {
       m \<leftarrow> format_buffer MSGLENMAX ''%s!%s@%s'' [Str nick, Str username, Str hostname];
       ipmask \<leftarrow> format_buffer MSGLENMAX ''%s!%s@%s'' [Str nick, Str username, Str ip];
       exempt \<leftarrow> scan_checkexempt m ipmask (ExemptMasks (cfg w));
       if exempt then Some w
       else do {
         (p, w) \<leftarrow> scan_create user msg w;
         w \<leftarrow> ss_modify p (\<lambda>s. s\<lparr>ss_remote := map_option (\<lambda>r. r\<lparr>rem_data := p\<rparr>) (ss_remote s)\<rparr>) w;
         w \<leftarrow> (if blacklists w \<noteq> [] then dnsbl_add p w else Some w);
         w \<leftarrow> connect_scanners 0 p m (SCANNERS w) w;
         ss \<leftarrow> ss_get p w;
         if ss_scans ss = 0 then scan_free p w else Some w } } }"

text \<open>The scanners of a manual scan: all of them, or the one that was named.\<close>

definition manual_scanner ::
  "nat \<Rightarrow> ptr \<Rightarrow> channel_conf \<Rightarrow> scanner_struct \<Rightarrow> 'a scan_st_scheme \<Rightarrow> 'a scan_st_scheme option" where
  "manual_scanner i p target scs w =
     (let (ret, w) = opm_scan i p w in do {
        ss \<leftarrow> ss_get p w;
        case ret of
          OPM_SUCCESS \<Rightarrow> count_scan p w
        | OPM_ERR_NOPROTOCOLS \<Rightarrow> Some w
        | OPM_ERR_BADADDR \<Rightarrow> irc_send ''PRIVMSG %s :OPM -> Bad address %s [%s]''
            [Str (chan_name target), ArgStr (ss_ip ss), Str (scs_name scs)] w
        | OPM_ERR_OTHER \<Rightarrow> irc_send ''PRIVMSG %s :OPM -> Unknown error %s [%s]''
            [Str (chan_name target), ArgStr (ss_ip ss), Str (scs_name scs)] w })"

fun manual_scanners ::
  "nat \<Rightarrow> ptr \<Rightarrow> channel_conf \<Rightarrow> string option \<Rightarrow> scanner_struct list \<Rightarrow> 'a scan_st_scheme \<Rightarrow> 'a scan_st_scheme option" where
  "manual_scanners i p target scannername [] w = Some w"
| "manual_scanners i p target scannername (scs # scss) w =
     (if (case scannername of None \<Rightarrow> False | Some n \<Rightarrow> \<not> strcaseeq n (scs_name scs))
      then manual_scanners (i + 1) p target scannername scss w
      else do {
        w \<leftarrow> manual_scanner i p target scs w;
        manual_scanners (i + 1) p target scannername scss w })"

definition manual_none :: "ptr \<Rightarrow> channel_conf \<Rightarrow> string option \<Rightarrow> 'a scan_st_scheme \<Rightarrow> 'a scan_st_scheme option" where
  "manual_none p target scannername w = do {
     ss \<leftarrow> ss_get p w;
     w \<leftarrow> (case scannername of
             None \<Rightarrow> Some w
           | Some n \<Rightarrow> irc_send (''PRIVMSG %s :CHECK -> No such scanner '' @ [CHR 0x27] @ ''%s'' @ [CHR 0x27] @ '', or '' @
               [CHR 0x27] @ ''%s'' @ [CHR 0x27] @ '' has 0 protocols.'') [Str (chan_name target), Str n, Str n] w);
     w \<leftarrow> irc_send (''PRIVMSG %s :CHECK -> No scans active on '' @ [CHR 0x27] @ ''%s'' @ [CHR 0x27] @ '', aborting scan.'')
            [Str (chan_name target), ArgStr (ss_ip ss)] w;
     scan_free p w }"

definition manual_greet :: "channel_conf \<Rightarrow> string \<Rightarrow> string option \<Rightarrow> 'a scan_st_scheme \<Rightarrow> 'a scan_st_scheme option" where
  "manual_greet target ip scannername w =
     (case scannername of
        Some n \<Rightarrow> irc_send (''PRIVMSG %s :CHECK -> Checking '' @ [CHR 0x27] @ ''%s'' @ [CHR 0x27] @
          '' for open proxies [%s]'') [Str (chan_name target), Str ip, Str n] w
      | None \<Rightarrow> irc_send (''PRIVMSG %s :CHECK -> Checking '' @ [CHR 0x27] @ ''%s'' @ [CHR 0x27] @
          '' for open proxies on all scanners'') [Str (chan_name target), Str ip] w)"

definition scan_manual :: "string option \<Rightarrow> channel_conf \<Rightarrow> 'a scan_st_scheme \<Rightarrow> 'a scan_st_scheme option" where
  "scan_manual param target w =
     (case param of
        None \<Rightarrow> irc_send ''PRIVMSG %s :OPM -> Invalid parameters.'' [Str (chan_name target)] w
      | Some param \<Rightarrow> do {
          let host = takeWhile (\<lambda>c. c \<noteq> CHR '' '') param;
          let scannername = map_option tl (strchr param (CHR '' ''));
          let (p, m) = MyMalloc (SS w) zero_ss;
          (addr, w) \<leftarrow> firedns_resolveip4 host (w\<lparr>SS := m\<rparr>);
          case addr of
            None \<Rightarrow> do {
              err \<leftarrow> firedns_strerror (fdns_errno w) w;
              irc_send (''PRIVMSG %s :CHECK -> Error resolving host '' @ [CHR 0x27] @ ''%s'' @ [CHR 0x27] @ '': %s'')
                [Str (chan_name target), Str host, Str err] w }
          | Some bs \<Rightarrow> do {
              let ip = dotted bs;
              w \<leftarrow> ss_put p (zero_ss\<lparr>ss_ip := Some ip, ss_remote := Some ((opm_remote_create ip)\<lparr>rem_data := p\<rparr>),
                              ss_manual_target := Some target\<rparr>) w;
              w \<leftarrow> manual_greet target ip scannername w;
              w \<leftarrow> (if blacklists w \<noteq> [] then dnsbl_add p w else Some w);
              w \<leftarrow> manual_scanners 0 p target scannername (SCANNERS w) w;
              ss \<leftarrow> ss_get p w;
              if ss_scans ss = 0 then manual_none p target scannername w else Some w } })"

section \<open>Callbacks\<close>

definition scan_log :: "ptr \<Rightarrow> 'a scan_st_scheme \<Rightarrow> 'a scan_st_scheme option" where
  "scan_log p w = do {
     ss \<leftarrow> ss_get p w;
     if \<not> (opt_scanlog (OptionsItem (cfg w)) \<noteq> None \<and> scanlogfile (envir w) (out w)) then Some w
     else do {
       remote \<leftarrow> ss_remote ss;
       Some (record_event (Scanlog (rem_ip remote) (rem_port remote) (scan_gettype (rem_protocol remote)) (ss_proof ss)) w) } }"

definition scan_open_proxy :: "nat \<Rightarrow> ptr \<Rightarrow> 'a scan_st_scheme \<Rightarrow> 'a scan_st_scheme option" where
  "scan_open_proxy i p w = do {
     w \<leftarrow> scan_log p w;
     ss \<leftarrow> ss_get p w;
     remote \<leftarrow> ss_remote ss;
     let name = scs_name (SCANNERS w ! i);
     let type = scan_gettype (rem_protocol remote);
     let port = ArgInt (of_int (rem_port remote));
     w \<leftarrow> (case ss_manual_target ss of
             None \<Rightarrow> do {
               w \<leftarrow> scan_positive p (irc_kline (IRCItem (cfg w))) type w;
               w \<leftarrow> dnsbl_report p w;
               irc_send_channels ''OPEN PROXY -> %s!%s@%s %s:%d (%s) [%s]''
                 [ArgStr (ss_irc_nick ss), ArgStr (ss_irc_username ss), ArgStr (ss_irc_hostname ss), Str (rem_ip remote), port,
                  Str type, Str name] w }
           | Some target \<Rightarrow>
               irc_send ''PRIVMSG %s :CHECK -> OPEN PROXY %s:%d (%s) [%s]''
                 [Str (chan_name target), Str (rem_ip remote), port, Str type, Str name] w);
     Some (stats_openproxy (rem_protocol remote) w) }"

definition scan_negotiation_failed :: "nat \<Rightarrow> ptr \<Rightarrow> 'a scan_st_scheme \<Rightarrow> 'a scan_st_scheme option" where
  "scan_negotiation_failed i p w = scan_log p w"

definition scan_timeout :: "nat \<Rightarrow> ptr \<Rightarrow> 'a scan_st_scheme \<Rightarrow> 'a scan_st_scheme option" where
  "scan_timeout i p w = scan_log p w"

definition scan_end :: "nat \<Rightarrow> ptr \<Rightarrow> 'a scan_st_scheme \<Rightarrow> 'a scan_st_scheme option" where
  "scan_end i p w = scan_done p w"

datatype opm_err = OPM_ERR_MAX_READ | OPM_ERR_BIND | OPM_ERR_NOFD | OPM_ERR_UNKNOWN

definition scan_handle_error :: "nat \<Rightarrow> ptr \<Rightarrow> opm_err \<Rightarrow> 'a scan_st_scheme \<Rightarrow> 'a scan_st_scheme option" where
  "scan_handle_error i p err w = do {
     ss \<leftarrow> ss_get p w;
     remote \<leftarrow> ss_remote ss;
     let name = scs_name (SCANNERS w ! i);
     let type = scan_gettype (rem_protocol remote);
     let port = ArgInt (of_int (rem_port remote));
     case (err, ss_manual_target ss) of
       (OPM_ERR_MAX_READ, Some target) \<Rightarrow>
         irc_send ''PRIVMSG %s :CHECK -> Negotiation failed %s:%d (%s) [%s] (%d bytes read)''
           [Str (chan_name target), Str (rem_ip remote), port, Str type, Str name, ArgInt (of_int (rem_bytes_read remote))] w
     | (OPM_ERR_NOFD, Some target) \<Rightarrow>
         irc_send ''PRIVMSG %s :CHECK -> Scan failed %s:%d (%s) [%s] (file descriptor allocation error)''
           [Str (chan_name target), Str (rem_ip remote), port, Str type, Str name] w
     | _ \<Rightarrow> Some w }"

section \<open>Timer\<close>

definition scan_timer :: "'a scan_st_scheme \<Rightarrow> 'a scan_st_scheme option" where
  "scan_timer w =
     (let negcache = opt_negcache (OptionsItem (cfg w)) in
      if negcache > 0 then
        if nc_counter w \<ge> NEG_CACHE_REBUILD then
          map_option (\<lambda>(h, m). w\<lparr>nc_head := h, nc_mem := m, nc_counter := 0\<rparr>)
            (negcache_rebuild (shift64 (envir w)) negcache (nc_mem w) (nc_head w) (clock w))
        else Some (w\<lparr>nc_counter := nc_counter w + 1\<rparr>)
      else Some w)"

section \<open>What libopm does\<close>

text \<open>
  The callbacks libopm invokes for a scan it has accepted.  Before a callback it sets the port,
  the protocol and the number of bytes read in the remote structure.  After the end of a scan
  there are no more callbacks for it.
\<close>

datatype opm_callback = Open_proxy | Negotiation_failed | Timed_out | Failed opm_err | Ended

record opm_report =
  rep_port :: int
  rep_protocol :: opm_type
  rep_bytes_read :: int

definition set_remote :: "ptr \<Rightarrow> opm_report \<Rightarrow> 'a scan_st_scheme \<Rightarrow> 'a scan_st_scheme option" where
  "set_remote p rep w =
     ss_modify p (\<lambda>s. s\<lparr>ss_remote := map_option (\<lambda>r. r\<lparr>rem_port := rep_port rep, rem_protocol := rep_protocol rep,
       rem_bytes_read := rep_bytes_read rep\<rparr>) (ss_remote s)\<rparr>) w"

definition opm_call :: "nat \<Rightarrow> ptr \<Rightarrow> opm_report \<Rightarrow> opm_callback \<Rightarrow> 'a scan_st_scheme \<Rightarrow> 'a scan_st_scheme option" where
  "opm_call i p rep cb w = do {
     w \<leftarrow> set_remote p rep w;
     case cb of
       Open_proxy \<Rightarrow> scan_open_proxy i p w
     | Negotiation_failed \<Rightarrow> scan_negotiation_failed i p w
     | Timed_out \<Rightarrow> scan_timeout i p w
     | Failed err \<Rightarrow> scan_handle_error i p err w
     | Ended \<Rightarrow> scan_end i p (w\<lparr>opm_active := remove1 (i, p) (opm_active w)\<rparr>) }"

end
