(* ===== verification/Scan_Refs.thy ===== *)
theory Scan_Refs
  imports Scanner
begin

text \<open>
  The bookkeeping of scans as a data structure of its own: who still refers to a scan structure,
  and that its counter says how many.  A query a result has just been taken for is in the set
  \<open>D\<close>; \<open>q\<close> is the scan that has one test finished but not yet counted down.
\<close>

definition refs :: "ptr \<Rightarrow> dnsbl_scan mem \<Rightarrow> ptr list \<Rightarrow> (nat \<times> ptr) list \<Rightarrow> nat" where
  "refs p DM as act =
     length (filter (\<lambda>d. map_option ds_ss (cells DM d) = Some p) as) + length (filter (\<lambda>x. snd x = p) act)"

definition targets :: "ptr option \<Rightarrow> dnsbl_scan mem \<Rightarrow> ptr list \<Rightarrow> (nat \<times> ptr) list \<Rightarrow> ptr set" where
  "targets q DM as act = {ds_ss ds | ds d. d \<in> set as \<and> cells DM d = Some ds} \<union> snd ` set act \<union> set_option q"

definition owed :: "ptr option \<Rightarrow> ptr \<Rightarrow> nat" where
  "owed q p = (if q = Some p then 1 else 0)"

definition counted :: "scan_struct mem \<Rightarrow> (ptr \<Rightarrow> nat) \<Rightarrow> bool" where
  "counted S n \<longleftrightarrow> (\<forall>p ss. cells S p = Some ss \<longrightarrow> unat (ss_scans ss) = n p)"

definition ds_shape :: "ptr set \<Rightarrow> dnsbl_scan mem \<Rightarrow> ptr list \<Rightarrow> bool" where
  "ds_shape D DM as \<longleftrightarrow> distinct as \<and> set as \<inter> D = {} \<and> set as \<union> D = dom (cells DM)"

definition links_ok ::
  "ptr set \<Rightarrow> ptr option \<Rightarrow> scan_struct mem \<Rightarrow> dnsbl_scan mem \<Rightarrow> ptr list \<Rightarrow> (nat \<times> ptr) list \<Rightarrow> bool" where
  "links_ok D q S DM as act \<longleftrightarrow>
     mem_wf S \<and> mem_wf DM \<and> ds_shape D DM as \<and> targets q DM as act \<subseteq> dom (cells S) \<and>
     counted S (\<lambda>p. refs p DM as act + owed q p)"

lemma links_wf: "links_ok D q S DM as act \<Longrightarrow> mem_wf S" "links_ok D q S DM as act \<Longrightarrow> mem_wf DM"
  by (simp_all add: links_ok_def)

lemma links_count:
  "links_ok D q S DM as act \<Longrightarrow> cells S p = Some ss \<Longrightarrow> unat (ss_scans ss) = refs p DM as act + owed q p"
  by (simp add: links_ok_def counted_def)

lemma refs_untargeted: "p \<notin> targets q DM as act \<Longrightarrow> refs p DM as act = 0 \<and> owed q p = 0"
  by (auto simp: refs_def targets_def owed_def filter_empty_conv)

lemma refs_targeted: "refs p DM as act + owed q p = 0 \<Longrightarrow> p \<notin> targets q DM as act"
  by (auto simp: refs_def targets_def owed_def filter_empty_conv split: if_splits)

lemma counted_upd: "counted S n \<Longrightarrow> unat (ss_scans ss) = n' p \<Longrightarrow> (\<And>x. x \<noteq> p \<Longrightarrow> n' x = n x) \<Longrightarrow>
   counted (S\<lparr>cells := (cells S)(p \<mapsto> ss), brk := b\<rparr>) n'"
  by (simp add: counted_def)

lemma counted_upd': "counted S n \<Longrightarrow> unat (ss_scans ss) = n' p \<Longrightarrow> (\<And>x. x \<noteq> p \<Longrightarrow> n' x = n x) \<Longrightarrow>
   counted (S\<lparr>cells := (cells S)(p \<mapsto> ss)\<rparr>) n'"
  by (simp add: counted_def)

text \<open>Allocating a structure, and changing one without touching its counter.\<close>

lemma links_alloc:
  assumes l: "links_ok D q S DM as act" and m: "MyMalloc S z = (p, S')" and z: "ss_scans z = 0"
  shows "links_ok D q S' DM as act \<and> cells S' p = Some z \<and> p \<noteq> NULL \<and> cells S p = None \<and> (\<forall>x. x \<noteq> p \<longrightarrow> cells S' x = cells S x)"
proof -
  have p: "p = brk S" "S' = S\<lparr>cells := (cells S)(p \<mapsto> z), brk := Suc (brk S)\<rparr>" using m by (auto simp: MyMalloc_def)
  have n: "cells S p = None" "0 < p" using links_wf(1) [OF l] p(1) by (auto simp: mem_wf_def)
  have t: "p \<notin> targets q DM as act" using l n(1) by (auto simp: links_ok_def)
  have w: "mem_wf S'" using links_wf(1) [OF l] m by (rule mem_wf_malloc)
  have "counted S' (\<lambda>p. refs p DM as act + owed q p)"
    unfolding p(2) using l z refs_untargeted [OF t] by (intro counted_upd) (simp_all add: links_ok_def)
  moreover have "targets q DM as act \<subseteq> dom (cells S')" using l p(2) by (auto simp: links_ok_def)
  ultimately have "links_ok D q S' DM as act" using l w by (simp add: links_ok_def)
  then show ?thesis using p n by simp
qed

lemma links_modify:
  assumes l: "links_ok D q S DM as act" and s: "cells S p = Some ss" "ss_scans ss' = ss_scans ss"
  shows "links_ok D q (S\<lparr>cells := (cells S)(p \<mapsto> ss')\<rparr>) DM as act"
proof -
  have w: "mem_wf (S\<lparr>cells := (cells S)(p \<mapsto> ss')\<rparr>)" using links_wf(1) [OF l] s(1) by (rule mem_wf_upd)
  have "counted (S\<lparr>cells := (cells S)(p \<mapsto> ss')\<rparr>) (\<lambda>p. refs p DM as act + owed q p)"
    using l links_count [OF l s(1)] s(2) by (intro counted_upd') (simp_all add: links_ok_def)
  moreover have "dom ((cells S)(p \<mapsto> ss')) = dom (cells S)" using s(1) by auto
  ultimately show ?thesis using l w by (simp add: links_ok_def)
qed

text \<open>One more reference, counted.\<close>

lemma unat_inc: "unat (x :: ushort) < 65535 \<Longrightarrow> unat (x + 1) = unat x + 1"
  by (simp add: unat_word_ariths)

lemma unat_dec: "0 < unat (x :: ushort) \<Longrightarrow> unat (x - 1) = unat x - 1"
  by (metis less_numeral_extra(3) unat_0 unat_minus_one)

lemma links_change:
  assumes l: "links_ok D q S DM as act" and s: "cells S p = Some ss"
    and t: "ds_shape D' DM' as'" "mem_wf DM'" "targets q' DM' as' act' \<subseteq> insert p (targets q DM as act)"
    and n: "unat (ss_scans ss') = refs p DM' as' act' + owed q' p"
    and r: "\<And>x. x \<noteq> p \<Longrightarrow> refs x DM' as' act' + owed q' x = refs x DM as act + owed q x"
  shows "links_ok D' q' (S\<lparr>cells := (cells S)(p \<mapsto> ss')\<rparr>) DM' as' act'"
proof -
  have w: "mem_wf (S\<lparr>cells := (cells S)(p \<mapsto> ss')\<rparr>)" using links_wf(1) [OF l] s(1) by (rule mem_wf_upd)
  have "counted S (\<lambda>p. refs p DM as act + owed q p)" using l by (simp add: links_ok_def)
  then have "counted (S\<lparr>cells := (cells S)(p \<mapsto> ss')\<rparr>) (\<lambda>p. refs p DM' as' act' + owed q' p)"
    using n r by (rule counted_upd')
  moreover have "dom ((cells S)(p \<mapsto> ss')) = dom (cells S)" "p \<in> dom (cells S)" using s(1) by auto
  ultimately show ?thesis using l t w by (auto simp: links_ok_def)
qed

lemma links_add_opm:
  assumes l: "links_ok D q S DM as act" and s: "cells S p = Some ss" "unat (ss_scans ss) < 65535"
  shows "links_ok D q (S\<lparr>cells := (cells S)(p \<mapsto> ss\<lparr>ss_scans := ss_scans ss + 1\<rparr>)\<rparr>) DM as (act @ [(i, p)])"
proof (rule links_change [OF l s(1)])
  show "ds_shape D DM as" "mem_wf DM" using l by (simp_all add: links_ok_def)
  show "targets q DM as (act @ [(i, p)]) \<subseteq> insert p (targets q DM as act)" by (auto simp: targets_def)
  show "unat (ss_scans (ss\<lparr>ss_scans := ss_scans ss + 1\<rparr>)) = refs p DM as (act @ [(i, p)]) + owed q p"
    using links_count [OF l s(1)] unat_inc [OF s(2)] by (simp add: refs_def)
qed (simp add: refs_def)

lemma filter_upd_notin: "d \<notin> set as \<Longrightarrow> filter (\<lambda>x. P ((m(d := v)) x)) as = filter (\<lambda>x. P (m x)) as"
  by (rule filter_cong) auto

lemma links_add_dns:
  assumes l: "links_ok D q S DM as act" and s: "cells S p = Some ss" "unat (ss_scans ss) < 65535"
    and d: "cells DM d = None" "DM' = DM\<lparr>cells := (cells DM)(d \<mapsto> \<lparr>ds_ss = p, ds_bl = i\<rparr>), brk := b\<rparr>" "mem_wf DM'"
  shows "links_ok D q (S\<lparr>cells := (cells S)(p \<mapsto> ss\<lparr>ss_scans := ss_scans ss + 1\<rparr>)\<rparr>) DM' (as @ [d]) act"
proof (rule links_change [OF l s(1) _ d(3)])
  have a: "d \<notin> set as" "d \<notin> D" using l d(1) by (auto simp: links_ok_def ds_shape_def)
  have r: "refs x DM' (as @ [d]) act = refs x DM as act + (if x = p then 1 else 0)" for x
    using filter_upd_notin [OF a(1), of "\<lambda>v. map_option ds_ss v = Some x" "cells DM" "Some \<lparr>ds_ss = p, ds_bl = i\<rparr>"]
    by (simp add: refs_def d(2))
  show "ds_shape D DM' (as @ [d])" using l a d(2) by (auto simp: links_ok_def ds_shape_def)
  show "targets q DM' (as @ [d]) act \<subseteq> insert p (targets q DM as act)"
    using a by (auto simp: targets_def d(2) split: if_splits)
  show "unat (ss_scans (ss\<lparr>ss_scans := ss_scans ss + 1\<rparr>)) = refs p DM' (as @ [d]) act + owed q p"
    using links_count [OF l s(1)] unat_inc [OF s(2)] r by simp
  show "\<And>x. x \<noteq> p \<Longrightarrow> refs x DM' (as @ [d]) act + owed q x = refs x DM as act + owed q x" using r by simp
qed

text \<open>Taking a reference away, before the counter follows.\<close>

lemma links_move:
  assumes l: "links_ok D q S DM as act" and t: "ds_shape D' DM as'"
    and "targets q' DM as' act' \<subseteq> targets q DM as act"
    and "\<And>x. refs x DM as' act' + owed q' x = refs x DM as act + owed q x"
  shows "links_ok D' q' S DM as' act'"
  using assms by (auto simp: links_ok_def)

lemma filter_remove1_len: "y \<in> set ys \<Longrightarrow> P y \<Longrightarrow> Suc (length (filter P (remove1 y ys))) = length (filter P ys)"
  by (induction ys) auto

lemma filter_remove1_other: "\<not> P y \<Longrightarrow> filter P (remove1 y ys) = filter P ys"
  by (induction ys) auto

lemma links_take_opm:
  assumes l: "links_ok D None S DM as act" and a: "(i, p) \<in> set act"
  shows "links_ok D (Some p) S DM as (remove1 (i, p) act)"
proof (rule links_move [OF l])
  show "ds_shape D DM as" using l by (simp add: links_ok_def)
  have "set (remove1 (i, p) act) \<subseteq> set act" by (rule set_remove1_subset)
  moreover have "p \<in> snd ` set act" using a by force
  ultimately show "targets (Some p) DM as (remove1 (i, p) act) \<subseteq> targets None DM as act" by (auto simp: targets_def)
  show "refs x DM as (remove1 (i, p) act) + owed (Some p) x = refs x DM as act + owed None x" for x
    using filter_remove1_len [OF a, of "\<lambda>y. snd y = x"] filter_remove1_other [of "\<lambda>y. snd y = x" "(i, p)" act]
    by (cases "x = p") (simp_all add: refs_def owed_def)
qed

lemma links_take_dns:
  assumes l: "links_ok D None S DM (as @ d # bs) act" and d: "cells DM d = Some ds"
  shows "links_ok (insert d D) (Some (ds_ss ds)) S DM (as @ bs) act"
proof (rule links_move [OF l])
  show "ds_shape (insert d D) DM (as @ bs)" using l by (auto simp: links_ok_def ds_shape_def)
  show "targets (Some (ds_ss ds)) DM (as @ bs) act \<subseteq> targets None DM (as @ d # bs) act"
    using d by (auto simp: targets_def)
  show "refs x DM (as @ bs) act + owed (Some (ds_ss ds)) x = refs x DM (as @ d # bs) act + owed None x" for x
    using d by (simp add: refs_def owed_def)
qed

text \<open>Counting down, and freeing what is not needed any more.\<close>

lemma links_done:
  assumes l: "links_ok D (Some p) S DM as act" and s: "cells S p = Some ss"
  shows "links_ok D None (S\<lparr>cells := (cells S)(p \<mapsto> ss\<lparr>ss_scans := ss_scans ss - 1\<rparr>)\<rparr>) DM as act"
proof (rule links_change [OF l s(1)])
  show "ds_shape D DM as" "mem_wf DM" using l by (simp_all add: links_ok_def)
  show "targets None DM as act \<subseteq> insert p (targets (Some p) DM as act)" by (auto simp: targets_def)
  have "unat (ss_scans ss) = refs p DM as act + 1" using links_count [OF l s(1)] by (simp add: owed_def)
  then show "unat (ss_scans (ss\<lparr>ss_scans := ss_scans ss - 1\<rparr>)) = refs p DM as act + owed None p"
    using unat_dec [of "ss_scans ss"] by (simp add: owed_def)
qed (simp add: owed_def)

lemma links_free:
  assumes l: "links_ok D None S DM as act" and s: "cells S p = Some ss" "ss_scans ss = 0"
  shows "\<exists>S'. MyFree S p = Some S' \<and> cells S' = (cells S)(p := None) \<and> links_ok D None S' DM as act"
proof -
  have "refs p DM as act + owed None p = 0" using links_count [OF l s(1)] s(2) by simp
  then have t: "p \<notin> targets None DM as act" by (rule refs_targeted)
  have p: "p \<noteq> NULL" using mem_wf_null [OF links_wf(1) [OF l]] s(1) by (cases "p = 0") auto
  define S' where "S' = S\<lparr>cells := (cells S)(p := None)\<rparr>"
  have f: "MyFree S p = Some S'" using s(1) p by (simp add: MyFree_def S'_def)
  have w: "mem_wf S'" using links_wf(1) [OF l] f by (rule mem_wf_free)
  have "targets None DM as act \<subseteq> dom (cells S')" using l t by (auto simp: links_ok_def S'_def)
  moreover have "counted S' (\<lambda>p. refs p DM as act + owed None p)"
    using l by (simp add: links_ok_def S'_def counted_def)
  ultimately have "links_ok D None S' DM as act" using l w by (simp add: links_ok_def)
  then show ?thesis using f by (simp add: S'_def)
qed

lemma links_free_ds:
  assumes l: "links_ok D q S DM as act" and d: "d \<in> D"
  shows "\<exists>DM'. MyFree DM d = Some DM' \<and> cells DM' = (cells DM)(d := None) \<and> links_ok (D - {d}) q S DM' as act"
proof -
  have a: "d \<notin> set as" "cells DM d \<noteq> None" using l d by (auto simp: links_ok_def ds_shape_def)
  have p: "d \<noteq> NULL" using mem_wf_null [OF links_wf(2) [OF l]] a(2) by (cases "d = 0") auto
  define DM' where "DM' = DM\<lparr>cells := (cells DM)(d := None)\<rparr>"
  have f: "MyFree DM d = Some DM'" using a(2) p by (simp add: MyFree_def DM'_def)
  have w: "mem_wf DM'" using links_wf(2) [OF l] f by (rule mem_wf_free)
  have r: "refs x DM' as act = refs x DM as act" for x
    using filter_upd_notin [OF a(1), of "\<lambda>v. map_option ds_ss v = Some x" "cells DM" None] by (simp add: refs_def DM'_def)
  have "targets q DM' as act \<subseteq> targets q DM as act" by (auto simp: targets_def DM'_def split: if_splits)
  moreover have "ds_shape (D - {d}) DM' as" using l a(1) by (auto simp: links_ok_def ds_shape_def DM'_def)
  ultimately have "links_ok (D - {d}) q S DM' as act" using l w r by (auto simp: links_ok_def)
  then show ?thesis using f by (auto simp: DM'_def)
qed

end
