(* ===== verification/Dns_Client.thy ===== *)
theory Dns_Client
  imports Firedns
begin

text \<open>
  The cycle of the resolver and what its client has to provide.  The locale \<open>dns_client\<close> is the
  interface between firedns.c and the code that waits for results: a state invariant that the
  resolver's own steps keep, a predicate for a result that is due, and the promise that handling
  such a result restores the invariant and leaves the list of queries alone.
\<close>

section \<open>Queries in the list\<close>

definition lookups_ok :: "'a fdns_scheme \<Rightarrow> bool" where
  "lookups_ok w \<longleftrightarrow> (\<forall>c \<in> set (CONNECTIONS w). read_cstr (c_lookup c) \<noteq> None)"

text \<open>The response codes \<open>firedns_strerror\<close> has a text for.\<close>

definition known_rcodes :: "env \<Rightarrow> bool" where
  "known_rcodes e \<longleftrightarrow> (\<forall>t h. dns_recv e t = Some h \<longrightarrow> 12 \<le> length h \<longrightarrow> of_char (h ! 3) AND 0x0F < (10 :: nat))"

lemma conn_find_Some: "conn_find k w = Some p \<Longrightarrow> p \<in> set (CONNECTIONS w) \<and> c_key p = k"
  by (auto simp: conn_find_def dest: find_in)

lemma find_exists: "x \<in> set xs \<Longrightarrow> P x \<Longrightarrow> \<exists>y. find P xs = Some y"
  by (induction xs) auto

lemma conn_find_key: "k \<in> c_key ` set (CONNECTIONS w) \<Longrightarrow> \<exists>p. conn_find k w = Some p"
  unfolding conn_find_def using find_exists [of _ "CONNECTIONS w" "\<lambda>c. c_key c = k"] by blast

lemma find_own_fd:
  assumes "conns_ok w" "p \<in> set (CONNECTIONS w)" "c_fd p \<noteq> -1"
  shows "find (\<lambda>c. c_fd c = c_fd p) (CONNECTIONS w) = Some p"
proof -
  obtain y where y: "find (\<lambda>c. c_fd c = c_fd p) (CONNECTIONS w) = Some y" using find_exists [of p "CONNECTIONS w" "\<lambda>c. c_fd c = c_fd p"] assms(2) by auto
  then have m: "y \<in> set (CONNECTIONS w)" "c_fd y = c_fd p" using find_in [OF y] by simp_all
  have "distinct (map c_fd (filter (\<lambda>c. c_fd c \<noteq> -1) (CONNECTIONS w)))"
    using assms(1) by (simp add: conns_ok_def conns_inv_def)
  then have "inj_on c_fd (set (filter (\<lambda>c. c_fd c \<noteq> -1) (CONNECTIONS w)))" by (simp add: distinct_map)
  then have "y = p" by (rule inj_onD) (use m assms(2,3) in simp_all)
  then show ?thesis using y by simp
qed

lemma parse_answer_errno:
  assumes "parse_answer c h = Some (Finish e t)" "12 \<le> length h \<Longrightarrow> of_char (h ! 3) AND 0x0F < (10 :: nat)"
  shows "e < 10"
  using assms by (auto simp: parse_answer_def fdns_consts Let_def split: if_splits option.splits)

lemma getresult_errno:
  assumes "firedns_getresult fd w = Some (r, w')" "known_rcodes (envir w)"
  shows "fdns_errno w' < 10"
proof (cases "find (\<lambda>c. c_fd c = fd) (CONNECTIONS w)")
  case None
  then show ?thesis using getresult_spec [OF assms(1)] by (auto simp: fdns_consts)
next
  case (Some c)
  then have ne: "CONNECTIONS w \<noteq> []" by auto
  obtain a where a: "(case dns_recv (envir w) (out w) of None \<Rightarrow> Some (Finish FDNS_ERR_NETWORK [])
      | Some h \<Rightarrow> parse_answer c h) = Some a"
    using assms(1) Some ne by (auto simp: firedns_getresult_def Let_def bind_Some_iff)
  show ?thesis
  proof (cases a)
    case Keep
    then show ?thesis using assms(1) Some a ne
      by (auto simp: firedns_getresult_def Let_def record_event_def fdns_consts)
  next
    case (Finish e t)
    have "fdns_errno w' = e" using assms(1) Some a ne Finish by (auto simp: firedns_getresult_def Let_def record_event_def)
    moreover have "e < 10"
      using a Finish assms(2) parse_answer_errno [of c _ e t] by (auto simp: known_rcodes_def fdns_consts split: option.splits)
    ultimately show ?thesis by simp
  qed
qed

text \<open>Sending a query that has waited.\<close>

lemma conns_inv_resend:
  assumes i: "conns_inv (as @ p # bs) b n lim fds" and p: "c_fd p = -1"
    and p': "c_key p' = c_key p" "c_fd p' = fd" "0 < fd" "fd \<notin> fds" "n < lim"
  shows "conns_inv (as @ p' # bs) b (Suc n) lim (insert fd fds)"
proof -
  have all: "\<forall>c \<in> set (as @ p # bs). c_fd c = -1 \<or> c_fd c \<in> fds" using i unfolding conns_inv_def by blast
  have "c_fd x \<noteq> fd" if "x \<in> set (as @ bs)" for x
  proof -
    have "c_fd x = -1 \<or> c_fd x \<in> fds" using all that by simp
    then show ?thesis using p'(3,4) by auto
  qed
  then have "fd \<notin> c_fd ` set (filter (\<lambda>c. c_fd c \<noteq> -1) (as @ bs))" by auto
  then show ?thesis using i p p' by (auto simp: conns_inv_def)
qed

lemma map_update_key:
  assumes "distinct (map c_key (as @ p # bs))" "c_key p' = c_key p"
  shows "map (\<lambda>c. if c_key c = c_key p' then p' else c) (as @ p # bs) = as @ p' # bs"
proof -
  have "c_key p \<notin> c_key ` (set as \<union> set bs)" using assms(1) by (simp add: image_Un)
  then have "c_key x \<noteq> c_key p" if "x \<in> set as \<union> set bs" for x using that by (metis imageI)
  then have "map (\<lambda>c. if c_key c = c_key p then p' else c) as = as" "map (\<lambda>c. if c_key c = c_key p then p' else c) bs = bs"
    by (simp_all add: map_idI)
  then show ?thesis using assms(2) by simp
qed

lemma resend_ok:
  assumes ok: "conns_ok w" "lookups_ok w" and p: "p \<in> set (CONNECTIONS w)" "c_fd p = -1" and n: "unat (fdns_fdinuse w) < fd_limit w"
  shows "\<exists>w'. do { ((fd, p), w) \<leftarrow> firedns_doquery p w; Some (conn_update p w) } = Some w' \<and>
    conns_ok w' \<and> lookups_ok w' \<and> fdns_frame w w' \<and> map c_key (CONNECTIONS w') = map c_key (CONNECTIONS w) \<and>
    map c_info (asked w') = map c_info (asked w)"
proof -
  have l: "read_cstr (c_lookup p) \<noteq> None" using ok(2) p(1) by (simp add: lookups_ok_def)
  obtain fd p' w1 where d: "firedns_doquery p w = Some ((fd, p'), w1)" using doquery_total [OF l, of w] by fastforce
  have sf: "sockets_fresh (envir w)" and lim: "fd_limit w < 2 ^ 32"
    and inv: "conns_inv (CONNECTIONS w) (conn_brk w) (unat (fdns_fdinuse w)) (fd_limit w) (open_fds (out w))"
    using ok(1) by (simp_all add: conns_ok_def)
  note spec = doquery_spec [OF d p(2) sf]
  obtain st where p': "p' = p\<lparr>c_fd := fd, c_start := st\<rparr>" using spec by blast
  obtain as bs where cs: "CONNECTIONS w = as @ p # bs" using p(1) by (meson split_list)
  have f1: "envir w1 = envir w" "cfg w1 = cfg w" "CONNECTIONS w1 = CONNECTIONS w" "conn_brk w1 = conn_brk w" "fdns_frame w w1"
    using spec by (auto simp: fdns_frame_fields)
  define w2 where "w2 = conn_update p' w1"
  have c2: "CONNECTIONS w2 = as @ p' # bs"
  proof -
    have "distinct (map c_key (as @ p # bs))" using inv cs unfolding conns_inv_def by simp
    from map_update_key [OF this, of p'] show ?thesis using p' f1(3) cs by (simp only: w2_def conn_update_def) simp
  qed
  have f2: "envir w2 = envir w" "cfg w2 = cfg w" "conn_brk w2 = conn_brk w" "fdns_fdinuse w2 = fdns_fdinuse w1" "out w2 = out w1"
      "fdns_frame w1 w2"
    using f1 by (simp_all add: w2_def conn_update_def fdns_frame_def)
  have "conns_inv (as @ p' # bs) (conn_brk w) (unat (fdns_fdinuse w1)) (fd_limit w) (open_fds (out w1))"
  proof (cases "fd = -1")
    case True
    then show ?thesis using spec inv p(2) p' cs by (auto simp: conns_inv_def)
  next
    case False
    then show ?thesis
      using spec conns_inv_resend [OF inv [unfolded cs] p(2), of p' fd] p' n unat_plus_1 [OF n lim] by auto
  qed
  then have "conns_ok w2" using c2 f2 sf lim by (simp add: conns_ok_def fd_limit_def)
  moreover have "lookups_ok w2" using ok(2) c2 cs p' by (auto simp: lookups_ok_def)
  moreover have "fdns_frame w w2" using f1(5) f2(6) by (rule fdns_frame_trans)
  moreover have "map c_key (CONNECTIONS w2) = map c_key (CONNECTIONS w)" using c2 cs p' by simp
  moreover have "map c_info (asked w2) = map c_info (asked w)" using c2 cs p' by (simp add: asked_def)
  ultimately show ?thesis using d by (auto simp: w2_def)
qed

section \<open>The interface\<close>

locale dns_client =
  fixes inv :: "'a fdns_scheme \<Rightarrow> bool"
    and due :: "firedns_result \<Rightarrow> 'a fdns_scheme \<Rightarrow> bool"
    and handle :: "firedns_result \<Rightarrow> 'a fdns_scheme \<Rightarrow> 'a fdns_scheme option"
  assumes inv_resolver: "inv w \<Longrightarrow> conns_ok w \<and> lookups_ok w \<and> recv_bounded (envir w) \<and> known_rcodes (envir w)"
    and inv_taken: "inv w \<Longrightarrow> c \<in> set (CONNECTIONS w) \<Longrightarrow> c_info c \<noteq> NULL \<Longrightarrow> r_info r = c_info c \<Longrightarrow>
      r_lookup r = c_lookup c \<Longrightarrow> fdns_frame w w' \<Longrightarrow> CONNECTIONS w' = conn_remove (c_key c) (CONNECTIONS w) \<Longrightarrow>
      conns_ok w' \<Longrightarrow> fdns_errno w' < 10 \<Longrightarrow> due r w'"
    and inv_quiet: "inv w \<Longrightarrow> fdns_frame w w' \<Longrightarrow> map c_info (asked w') = map c_info (asked w) \<Longrightarrow>
      conns_ok w' \<Longrightarrow> lookups_ok w' \<Longrightarrow> inv w'"
    and handled: "due r w \<Longrightarrow> \<exists>w'. handle r w = Some w' \<and> inv w' \<and> CONNECTIONS w' = CONNECTIONS w"
begin

text \<open>A query that leaves the list, with or without somebody waiting for it.\<close>

lemma removed_inv:
  assumes "inv w" "c \<in> set (CONNECTIONS w)" "fdns_frame w w'" "CONNECTIONS w' = conn_remove (c_key c) (CONNECTIONS w)"
    "conns_ok w'" "fdns_errno w' < 10" "r_info r = c_info c" "r_lookup r = c_lookup c"
  shows "\<exists>w''. (if r_info r \<noteq> NULL then handle r w' else Some w') = Some w'' \<and> inv w'' \<and> CONNECTIONS w'' = CONNECTIONS w'"
proof (cases "c_info c = NULL")
  case True
  have d: "distinct (map c_key (CONNECTIONS w))" using inv_resolver [OF assms(1)] by (simp add: conns_ok_def conns_inv_def)
  obtain as bs where cs: "CONNECTIONS w = as @ c # bs" using assms(2) by (meson split_list)
  then have "CONNECTIONS w' = as @ bs" using conn_remove_split [of as c bs] d assms(4) by simp
  then have "asked w' = asked w" "lookups_ok w'"
    using True cs inv_resolver [OF assms(1)] by (auto simp: asked_def lookups_ok_def)
  then have "inv w'" using inv_quiet [OF assms(1,3) _ assms(5)] by simp
  then show ?thesis using True assms(7) by simp
next
  case False
  have "due r w'" using inv_taken [OF assms(1,2) False assms(7,8,3,4,5,6)] .
  then show ?thesis using handled False assms(7) by simp
qed

lemma conn_timeout_inv:
  assumes "inv w" "p \<in> set (CONNECTIONS w)" "c_fd p > 0"
  shows "\<exists>w'. conn_timeout handle p w = Some w' \<and> inv w' \<and> CONNECTIONS w' = conn_remove (c_key p) (CONNECTIONS w)"
proof -
  define w1 where "w1 = w\<lparr>CONNECTIONS := conn_remove (c_key p) (CONNECTIONS w), out := out w @ [Dns_closed (c_fd p)],
    fdns_fdinuse := fdns_fdinuse w - 1, fdns_errno := FDNS_ERR_TIMEOUT\<rparr>"
  define r where "r = \<lparr>r_text = replicate 1024 NUL, r_lookup = c_lookup p, r_info = c_info p\<rparr>"
  have f: "fdns_frame w w1" "CONNECTIONS w1 = conn_remove (c_key p) (CONNECTIONS w)" "fdns_errno w1 < 10"
    by (simp_all add: w1_def fdns_frame_def fdns_consts)
  have fd: "c_fd p \<noteq> -1" using assms(3) by simp
  have "conns_ok w1"
    using inv_resolver [OF assms(1)] assms(2) fd by (intro conns_ok_remove [of w p w1]) (simp_all add: w1_def)
  then obtain w2 where w2: "(if r_info r \<noteq> NULL then handle r w1 else Some w1) = Some w2" "inv w2" "CONNECTIONS w2 = CONNECTIONS w1"
    using removed_inv [OF assms(1,2) f(1,2) _ f(3), of r] by (auto simp: r_def)
  have "conn_timeout handle p w = (if r_info r \<noteq> NULL then handle r w1 else Some w1)"
    by (simp add: conn_timeout_def w1_def r_def record_event_def Let_def)
  then show ?thesis using w2 f(2) by simp
qed

lemma remove_keys: "k \<notin> set ks \<Longrightarrow> set ks \<subseteq> c_key ` set cs \<Longrightarrow> set ks \<subseteq> c_key ` set (conn_remove k cs)"
  by (fastforce simp: conn_remove_def)

lemma cycle_timeouts_inv:
  assumes "inv w" "distinct ks" "set ks \<subseteq> c_key ` set (CONNECTIONS w)"
  shows "\<exists>u w'. cycle_timeouts handle ks ufds w = Some (u, w') \<and> inv w'"
  using assms
proof (induction ks arbitrary: ufds w)
  case (Cons k ks)
  obtain p where p: "conn_find k w = Some p" using conn_find_key [of k w] Cons.prems(3) by auto
  have m: "p \<in> set (CONNECTIONS w)" "c_key p = k" using conn_find_Some [OF p] by simp_all
  have rest: "\<exists>u w'. cycle_timeouts handle ks u' w = Some (u, w') \<and> inv w'" for u'
    using Cons.prems by (intro Cons.IH) auto
  show ?case
  proof (cases "length ufds \<ge> opt_dns_fdlimit (OptionsItem (cfg w)) \<or> c_fd p < 0 \<or> \<not> (c_fd p > 0 \<and> c_start p + FDNS_TIMEOUT < clock w)")
    case True
    then show ?thesis using p rest Cons.prems(1) by (auto simp: not_less)
  next
    case False
    obtain w1 where w1: "conn_timeout handle p w = Some w1" "inv w1" "CONNECTIONS w1 = conn_remove k (CONNECTIONS w)"
      using conn_timeout_inv [OF Cons.prems(1) m(1)] False m(2) by auto
    have "\<exists>u w'. cycle_timeouts handle ks ufds w1 = Some (u, w') \<and> inv w'"
      using Cons.prems(2,3) w1(2,3) remove_keys [of k ks "CONNECTIONS w"] by (intro Cons.IH) auto
    then show ?thesis using p False w1(1) by auto
  qed
qed simp

lemma conn_ready_inv:
  assumes "inv w" "p \<in> set (CONNECTIONS w)" "c_fd p > 0"
  shows "\<exists>w'. conn_ready handle p w = Some w' \<and> inv w' \<and>
    CONNECTIONS w' \<in> {CONNECTIONS w, conn_remove (c_key p) (CONNECTIONS w)}"
proof -
  note res = inv_resolver [OF assms(1)]
  have fd: "c_fd p \<noteq> -1" using assms(3) by simp
  have "firedns_getresult (c_fd p) w \<noteq> None" using getresult_total assms(2) res by force
  then obtain r w1 where g: "firedns_getresult (c_fd p) w = Some (r, w1)" by auto
  have own: "find (\<lambda>c. c_fd c = c_fd p) (CONNECTIONS w) = Some p" using find_own_fd [OF _ assms(2) fd] res by blast
  have ok1: "conns_ok w1" using getresult_conns_ok [OF _ fd g] res by blast
  have e1: "fdns_errno w1 < 10" using getresult_errno [OF g] res by blast
  note spec = getresult_spec [OF g]
  have fr: "fdns_frame w w1" using spec by blast
  show ?thesis
  proof (cases r)
    case None
    then have c1: "CONNECTIONS w1 = CONNECTIONS w" using spec own by auto
    then have "inv w1" using inv_quiet [OF assms(1) fr _ ok1] res by (simp add: asked_def lookups_ok_def)
    then show ?thesis using g None c1 by (simp add: conn_ready_def)
  next
    case (Some r')
    then have r': "r_info r' = c_info p" "r_lookup r' = c_lookup p" "CONNECTIONS w1 = conn_remove (c_key p) (CONNECTIONS w)"
      using spec own by auto
    obtain w2 where "(if r_info r' \<noteq> NULL then handle r' w1 else Some w1) = Some w2" "inv w2" "CONNECTIONS w2 = CONNECTIONS w1"
      using removed_inv [OF assms(1,2) fr r'(3) ok1 e1 r'(1,2)] by blast
    then show ?thesis using g Some r'(3) by (simp add: conn_ready_def)
  qed
qed

lemma cycle_answers_inv:
  assumes "inv w" "distinct ks" "set ks \<subseteq> c_key ` set (CONNECTIONS w)"
  shows "\<exists>w'. cycle_answers handle ks ready w = Some w' \<and> inv w'"
  using assms
proof (induction ks arbitrary: w)
  case (Cons k ks)
  obtain p where p: "conn_find k w = Some p" using conn_find_key [of k w] Cons.prems(3) by auto
  have m: "p \<in> set (CONNECTIONS w)" "c_key p = k" using conn_find_Some [OF p] by simp_all
  note res = inv_resolver [OF Cons.prems(1)]
  define body where "body = (if c_fd p > 0 then if c_fd p \<in> set ready then conn_ready handle p w else Some w
     else if unat (fdns_fdinuse w) < opt_dns_fdlimit (OptionsItem (cfg w)) then
       do { ((fd, p), w) \<leftarrow> firedns_doquery p w; Some (conn_update p w) }
     else Some w)"
  have "\<exists>w1. body = Some w1 \<and> inv w1 \<and> set ks \<subseteq> c_key ` set (CONNECTIONS w1)"
  proof (cases "c_fd p > 0")
    case True
    show ?thesis
    proof (cases "c_fd p \<in> set ready")
      case r: True
      obtain w1 where w1: "conn_ready handle p w = Some w1" "inv w1"
          "CONNECTIONS w1 \<in> {CONNECTIONS w, conn_remove (c_key p) (CONNECTIONS w)}"
        using conn_ready_inv [OF Cons.prems(1) m(1) True] by blast
      have "set ks \<subseteq> c_key ` set (CONNECTIONS w1)"
        using w1(3) Cons.prems(2,3) m(2) remove_keys [of k ks "CONNECTIONS w"] by auto
      then show ?thesis using True r w1 by (simp add: body_def)
    qed (use True Cons.prems in \<open>auto simp: body_def\<close>)
  next
    case False
    then have fd: "c_fd p = -1" using res m(1) by (auto simp: conns_ok_def conns_inv_def)
    show ?thesis
    proof (cases "unat (fdns_fdinuse w) < opt_dns_fdlimit (OptionsItem (cfg w))")
      case n: True
      obtain w1 where w1: "do { ((fd, p), w) \<leftarrow> firedns_doquery p w; Some (conn_update p w) } = Some w1"
          "conns_ok w1" "lookups_ok w1" "fdns_frame w w1" "map c_key (CONNECTIONS w1) = map c_key (CONNECTIONS w)"
          "map c_info (asked w1) = map c_info (asked w)"
        using resend_ok [of w p] res m(1) fd n by (auto simp: fd_limit_def)
      have "set ks \<subseteq> c_key ` set (CONNECTIONS w1)" using Cons.prems(3) w1(5) by (metis insert_subset list.simps(15) list.set_map)
      then show ?thesis using False n w1 inv_quiet [OF Cons.prems(1) w1(4,6,2,3)] by (simp add: body_def)
    qed (use False Cons.prems in \<open>auto simp: body_def\<close>)
  qed
  then obtain w1 where w1: "body = Some w1" "inv w1" "set ks \<subseteq> c_key ` set (CONNECTIONS w1)" by blast
  have "\<exists>w'. cycle_answers handle ks ready w1 = Some w' \<and> inv w'" using Cons.prems(2) w1(2,3) by (intro Cons.IH) auto
  then show ?case using p w1(1) by (simp add: body_def)
qed simp

lemma firedns_cycle_inv:
  assumes "inv w"
  shows "\<exists>w'. firedns_cycle handle w = Some w' \<and> inv w'"
proof (cases "CONNECTIONS w = []")
  case False
  have d: "distinct (map c_key (CONNECTIONS w))" if "inv w" for w
    using inv_resolver [OF that] by (simp add: conns_ok_def conns_inv_def)
  obtain u w1 where w1: "cycle_timeouts handle (map c_key (CONNECTIONS w)) [] w = Some (u, w1)" "inv w1"
    using cycle_timeouts_inv [OF assms d [OF assms], of "[]"] by auto
  define w2 where "w2 = record_event (Polled u) w1"
  have "inv w2" using inv_resolver [OF w1(2)]
    by (intro inv_quiet [OF w1(2)]) (simp_all add: w2_def record_event_def fdns_frame_def asked_def conns_ok_def fd_limit_def lookups_ok_def)
  moreover obtain w3 where "cycle_answers handle (map c_key (CONNECTIONS w2)) (filter (\<lambda>fd. fd \<in> set u) (dns_poll (envir w1) (out w1))) w2 = Some w3"
      "inv w3" using cycle_answers_inv [OF \<open>inv w2\<close> d [OF \<open>inv w2\<close>]] by auto
  ultimately show ?thesis using False w1(1) by (auto simp: firedns_cycle_def w2_def Let_def)
qed (use assms in \<open>simp add: firedns_cycle_def\<close>)

end

end
