(* ===== verification/Scan_Inv.thy ===== *)
theory Scan_Inv
  imports Scan_Refs Dns_Client
begin

text \<open>
  The invariant of the scanner and of the blacklist queries, and that ending a scan, reporting a
  positive host and handling the result of a query keep it.
\<close>

section \<open>The invariant\<close>

definition good_str :: "string \<Rightarrow> bool" where
  "good_str s \<longleftrightarrow> cstring s \<and> length s < 65536"

definition ss_ok :: "scan_struct \<Rightarrow> bool" where
  "ss_ok ss \<longleftrightarrow> (\<exists>ip. ss_ip ss = Some ip \<and> good_str ip) \<and> ss_remote ss \<noteq> None \<and>
     (ss_manual_target ss = None \<longrightarrow>
        (\<exists>nick user host. ss_irc_nick ss = Some nick \<and> ss_irc_username ss = Some user \<and> ss_irc_hostname ss = Some host \<and>
           good_str nick \<and> good_str user \<and> good_str host))"

definition kline_ok :: "string \<Rightarrow> bool" where
  "kline_ok t \<longleftrightarrow> cstring t \<and> length t < 2 ^ 16 - 2 \<and> keys_only t \<and> t \<noteq> [] \<and> hd t \<noteq> CHR ''%''"

definition bl_ok :: "blacklist_conf \<Rightarrow> bool" where
  "bl_ok bl \<longleftrightarrow> good_str (bl_name bl) \<and> (bl_kline bl = [] \<or> kline_ok (bl_kline bl)) \<and>
     (\<forall>type. \<exists>t. dnsbl_text bl type = Some (Some t) \<and> good_str t)"

definition mask_ok :: "string \<Rightarrow> bool" where
  "mask_ok m \<longleftrightarrow> m \<noteq> [] \<and> cstring m"

definition conf_ok :: "conf \<Rightarrow> bool" where
  "conf_ok c \<longleftrightarrow> kline_ok (irc_kline (IRCItem c)) \<and> (\<forall>bl \<in> set (opm_blacklists (OpmItem c)). bl_ok bl) \<and>
     (\<forall>m \<in> set (ExemptMasks c). mask_ok m)"

text \<open>What is asked of the surroundings: a shift that gives zero, addresses of four bytes, and
  datagrams the resolver can read, with an error code it knows.\<close>

definition env_ok :: "env \<Rightarrow> bool" where
  "env_ok e \<longleftrightarrow> shift64 e = shift_zero \<and> (\<forall>s bs. sys_aton e s = Some bs \<longrightarrow> length bs = 4) \<and> recv_bounded e \<and>
     known_rcodes e"

definition cache_fine :: "'a scan_st_scheme \<Rightarrow> bool" where
  "cache_fine w \<longleftrightarrow> (opt_negcache (OptionsItem (cfg w)) > 0 \<longrightarrow> cache_ok (nc_mem w, nc_head w))"

definition static_ok :: "'a scan_st_scheme \<Rightarrow> bool" where
  "static_ok w \<longleftrightarrow> conf_ok (cfg w) \<and> (\<forall>scs \<in> set (SCANNERS w). \<forall>m \<in> set (scs_masks scs). mask_ok m) \<and>
     length (blacklists w) + length (SCANNERS w) < 65536 \<and> env_ok (envir w)"

definition contents_ok :: "scan_struct mem \<Rightarrow> bool" where
  "contents_ok S \<longleftrightarrow> (\<forall>p ss. cells S p = Some ss \<longrightarrow> ss = zero_ss \<or> ss_ok ss)"

definition indices_ok :: "'a scan_st_scheme \<Rightarrow> bool" where
  "indices_ok w \<longleftrightarrow> (\<forall>d ds. cells (DS w) d = Some ds \<longrightarrow> ds_bl ds < length (blacklists w)) \<and>
     (\<forall>x \<in> set (opm_active w). fst x < length (SCANNERS w))"

definition scan_inv :: "ptr set \<Rightarrow> ptr option \<Rightarrow> 'a scan_st_scheme \<Rightarrow> bool" where
  "scan_inv D q w \<longleftrightarrow> conns_ok w \<and> lookups_ok w \<and> static_ok w \<and> cache_fine w \<and>
     links_ok D q (SS w) (DS w) (map c_info (asked w)) (opm_active w) \<and> contents_ok (SS w) \<and> indices_ok w"

lemma scan_invD:
  assumes "scan_inv D q w"
  shows "conns_ok w" "lookups_ok w" "static_ok w" "cache_fine w" "contents_ok (SS w)" "indices_ok w"
    "links_ok D q (SS w) (DS w) (map c_info (asked w)) (opm_active w)" "env_ok (envir w)" "conf_ok (cfg w)"
  using assms by (simp_all add: scan_inv_def static_ok_def)

section \<open>Changes that keep it\<close>

text \<open>The configuration up to the counters of the blacklists.\<close>

definition strip_conf :: "conf \<Rightarrow> conf" where
  "strip_conf c = c\<lparr>OpmItem := (OpmItem c)\<lparr>opm_blacklists :=
     map (bl_stats_recv_update (\<lambda>_. 0)) (opm_blacklists (OpmItem c))\<rparr>\<rparr>"

lemma dnsbl_text_strip [simp]: "dnsbl_text (bl_stats_recv_update f bl) type = dnsbl_text bl type"
  by (cases "bl_type bl") (simp_all add: dnsbl_text_def)

lemma bl_ok_strip [simp]: "bl_ok (bl_stats_recv_update f bl) = bl_ok bl"
  by (simp add: bl_ok_def)

lemma strip_conf_fields:
  assumes "strip_conf c' = strip_conf c"
  shows "OptionsItem c' = OptionsItem c" "IRCItem c' = IRCItem c" "ExemptMasks c' = ExemptMasks c"
    "length (opm_blacklists (OpmItem c')) = length (opm_blacklists (OpmItem c))" "conf_ok c' = conf_ok c"
proof -
  have f: "OptionsItem (strip_conf c) = OptionsItem c" "IRCItem (strip_conf c) = IRCItem c"
    "ExemptMasks (strip_conf c) = ExemptMasks c" "length (opm_blacklists (OpmItem (strip_conf c))) = length (opm_blacklists (OpmItem c))"
    "conf_ok (strip_conf c) = conf_ok c" for c
    by (simp_all add: strip_conf_def conf_ok_def)
  show "OptionsItem c' = OptionsItem c" "IRCItem c' = IRCItem c" "ExemptMasks c' = ExemptMasks c"
    "length (opm_blacklists (OpmItem c')) = length (opm_blacklists (OpmItem c))" "conf_ok c' = conf_ok c"
    using f [of c] f [of c'] assms by simp_all
qed

text \<open>What every handler leaves alone: the resolver, the library and the queries.\<close>

definition frames :: "'a scan_st_scheme \<Rightarrow> 'a scan_st_scheme \<Rightarrow> bool" where
  "frames w w' \<longleftrightarrow> clock w' = clock w \<and> STATS_UPTIME w' = STATS_UPTIME w \<and> envir w' = envir w \<and> strip_conf (cfg w') = strip_conf (cfg w) \<and>
     SCANNERS w' = SCANNERS w \<and> CONNECTIONS w' = CONNECTIONS w \<and> conn_brk w' = conn_brk w \<and>
     fdns_fdinuse w' = fdns_fdinuse w \<and> fdns_errno w' = fdns_errno w \<and> open_fds (out w') = open_fds (out w) \<and>
     opm_active w' = opm_active w \<and> DS w' = DS w \<and> scan_st.more w' = scan_st.more w"

lemma frames_refl [simp]: "frames w w"
  by (simp add: frames_def)

lemma frames_trans: "frames w w' \<Longrightarrow> frames w' w'' \<Longrightarrow> frames w w''"
  by (simp add: frames_def)

text \<open>The structures that wait for no test.  A handler leaves none behind.\<close>

definition idle :: "scan_struct mem \<Rightarrow> ptr set" where
  "idle S = {p. \<exists>ss. cells S p = Some ss \<and> ss \<noteq> zero_ss \<and> ss_scans ss = 0}"

lemma idle_free: "cells S' = (cells S)(p := None) \<Longrightarrow> idle S' = idle S - {p}"
  by (auto simp: idle_def)

lemma idle_upd: "ss_scans s \<noteq> 0 \<Longrightarrow> idle (S\<lparr>cells := (cells S)(p \<mapsto> s)\<rparr>) = idle S - {p}"
  by (auto simp: idle_def)

lemma idle_upd_subset: "idle (S\<lparr>cells := (cells S)(p \<mapsto> s)\<rparr>) \<subseteq> insert p (idle S)"
  by (auto simp: idle_def)

lemma idle_modify:
  assumes "cells S p = Some ss" "ss \<noteq> zero_ss" "ss_scans s = ss_scans ss"
  shows "idle (S\<lparr>cells := (cells S)(p \<mapsto> s)\<rparr>) \<subseteq> idle S"
  using assms by (auto simp: idle_def)

definition keeps :: "'a scan_st_scheme \<Rightarrow> 'a scan_st_scheme \<Rightarrow> bool" where
  "keeps w w' \<longleftrightarrow> frames w w' \<and> idle (SS w') \<subseteq> idle (SS w)"

lemma keeps_refl [simp]: "keeps w w"
  by (simp add: keeps_def)

lemma keeps_trans: "keeps w w' \<Longrightarrow> keeps w' w'' \<Longrightarrow> keeps w w''"
  using frames_trans by (auto simp: keeps_def)

lemma keeps_frames: "keeps w w' \<Longrightarrow> frames w w'"
  by (simp add: keeps_def)

lemma ss_ok_nonzero: "ss_ok ss \<Longrightarrow> ss \<noteq> zero_ss"
  by (auto simp: ss_ok_def zero_ss_def)

text \<open>Talking to the server changes nothing else.\<close>

definition talks :: "'a scan_st_scheme \<Rightarrow> 'a scan_st_scheme \<Rightarrow> bool" where
  "talks w w' \<longleftrightarrow> keeps w w' \<and> SS w' = SS w \<and> nc_mem w' = nc_mem w \<and> nc_head w' = nc_head w \<and> cfg w' = cfg w"

lemma talks_refl [simp]: "talks w w"
  by (simp add: talks_def)

lemma talks_trans: "talks w w' \<Longrightarrow> talks w' w'' \<Longrightarrow> talks w w''"
  by (auto simp: talks_def intro: keeps_trans)

lemma talks_keeps: "talks w w' \<Longrightarrow> keeps w w'"
  by (simp add: talks_def)

lemma scan_inv_frames:
  assumes i: "scan_inv D q w" and k: "frames w w'"
    and l: "links_ok D' q' (SS w') (DS w) (map c_info (asked w)) (opm_active w)" "contents_ok (SS w')"
    and c: "cache_fine w \<Longrightarrow> cache_fine w'"
  shows "scan_inv D' q' w'"
proof -
  have s: "OptionsItem (cfg w') = OptionsItem (cfg w)" "length (blacklists w') = length (blacklists w)"
      "conf_ok (cfg w') = conf_ok (cfg w)"
    using strip_conf_fields [of "cfg w'" "cfg w"] k by (simp_all add: frames_def blacklists_def)
  have "conns_ok w'" using i k s(1) by (simp add: scan_inv_def frames_def conns_ok_def fd_limit_def)
  moreover have "lookups_ok w'" using i k by (simp add: scan_inv_def frames_def lookups_ok_def)
  moreover have "static_ok w'" using i k s by (simp add: scan_inv_def frames_def static_ok_def)
  moreover have "indices_ok w'" using i k s by (simp add: scan_inv_def frames_def indices_ok_def)
  moreover have "asked w' = asked w" using k by (simp add: frames_def asked_def)
  ultimately show ?thesis using i k l c by (simp add: scan_inv_def frames_def)
qed

lemma scan_inv_talks: "scan_inv D q w \<Longrightarrow> talks w w' \<Longrightarrow> scan_inv D q w'"
  by (rule scan_inv_frames) (auto simp: talks_def keeps_def scan_inv_def cache_fine_def)

section \<open>Sending\<close>

lemma irc_transmit_talks: "talks w (irc_transmit s w)"
  by (simp add: talks_def keeps_def frames_def irc_transmit_def irc_reconnect_def record_event_def Let_def open_fds_def)

lemma irc_send_talks:
  assumes "vformat data ap \<noteq> None"
  shows "\<exists>w'. irc_send data ap w = Some w' \<and> talks w w'"
  using irc_send_total [OF assms, of w] irc_transmit_talks by blast

lemma irc_send_channels_talks:
  assumes "vformat data ap \<noteq> None"
  shows "\<exists>w'. irc_send_channels data ap w = Some w' \<and> talks w w'"
  using irc_send_channels_total [OF assms, of w] irc_transmit_talks by blast

section \<open>Ending a scan\<close>

lemma ss_modify_eq:
  "cells (SS w) p = Some s \<Longrightarrow> ss_modify p f w = Some (w\<lparr>SS := (SS w)\<lparr>cells := (cells (SS w))(p \<mapsto> f s)\<rparr>\<rparr>)"
  by (simp add: ss_modify_def ss_get_def ss_put_def mem_load_def mem_store_def)

lemma ss_get_eq: "ss_get p w = cells (SS w) p"
  by (simp add: ss_get_def mem_load_def)

lemma frames_SS [simp]: "frames w (w\<lparr>SS := m\<rparr>)"
  by (simp add: frames_def)

lemma contents_upd: "contents_ok S \<Longrightarrow> ss_ok s \<Longrightarrow> contents_ok (S\<lparr>cells := (cells S)(p \<mapsto> s)\<rparr>)"
  by (simp add: contents_ok_def)

lemma negcache_insert_inv:
  assumes "scan_inv D q w" "opt_negcache (OptionsItem (cfg w)) > 0"
  shows "\<exists>w'. negcache_insert ip w = Some w' \<and> keeps w w' \<and> SS w' = SS w \<and> scan_inv D q w'"
proof (cases "sys_pton (envir w) ip")
  case None
  then show ?thesis using assms by (simp add: negcache_insert_def)
next
  case (Some bs)
  have c: "cache_ok (nc_mem w, nc_head w)" using assms by (simp add: scan_inv_def cache_fine_def)
  have z: "shift64 (envir w) = shift_zero" using scan_invD(8) [OF assms(1)] by (simp add: env_ok_def)
  obtain m where m: "negcache_insert_ip shift_zero (nc_mem w) (nc_head w) (clock w) (ucast (s_addr bs)) = Some m"
      "cache_ok (m, nc_head w)"
    using cache_insert_spec [OF c, of "clock w" "ucast (s_addr bs)"] by (auto simp: cache_insert_def)
  have k: "keeps w (w\<lparr>nc_mem := m\<rparr>)" by (simp add: keeps_def frames_def)
  have "scan_inv D q (w\<lparr>nc_mem := m\<rparr>)"
    using m(2) scan_invD [OF assms(1)] by (intro scan_inv_frames [OF assms(1) keeps_frames [OF k]]) (simp_all add: cache_fine_def)
  then show ?thesis using Some m z k by (auto simp: negcache_insert_def)
qed

lemma scan_free_inv:
  assumes "scan_inv D None w" "cells (SS w) p = Some ss" "ss_scans ss = 0"
  shows "\<exists>w'. scan_free p w = Some w' \<and> keeps w w' \<and> scan_inv D None w' \<and> cells (SS w') = (cells (SS w))(p := None)"
proof -
  obtain S' where s: "MyFree (SS w) p = Some S'" "cells S' = (cells (SS w))(p := None)"
      "links_ok D None S' (DS w) (map c_info (asked w)) (opm_active w)"
    using links_free [OF scan_invD(7) [OF assms(1)] assms(2,3)] by blast
  have p: "p \<noteq> NULL" using mem_wf_null [OF links_wf(1) [OF scan_invD(7) [OF assms(1)]]] assms(2) by (cases "p = 0") auto
  have "scan_inv D None (w\<lparr>SS := S'\<rparr>)"
    using s scan_invD(4,5) [OF assms(1)] by (intro scan_inv_frames [OF assms(1)]) (simp_all add: contents_ok_def cache_fine_def)
  moreover have "keeps w (w\<lparr>SS := S'\<rparr>)" using idle_free [OF s(2)] by (auto simp: keeps_def)
  ultimately show ?thesis using s p by (auto simp: scan_free_def)
qed

lemma scan_conclude_inv:
  assumes i: "scan_inv D q w" and s: "cells (SS w) p = Some ss" "ss_ok ss"
  shows "\<exists>w'. scan_conclude p ss w = Some w' \<and> keeps w w' \<and> SS w' = SS w \<and> scan_inv D q w'"
proof (cases "ss_manual_target ss")
  case None
  have "\<exists>w1. scan_negative p w = Some w1 \<and> keeps w w1 \<and> SS w1 = SS w \<and> scan_inv D q w1"
  proof (cases "opt_negcache (OptionsItem (cfg w)) > 0")
    case neg: True
    obtain ip where "ss_ip ss = Some ip" using s(2) by (auto simp: ss_ok_def)
    then show ?thesis using negcache_insert_inv [OF i neg, of ip] neg s(1) by (auto simp: scan_negative_def ss_get_eq)
  qed (use i s(1) in \<open>simp add: scan_negative_def ss_get_eq\<close>)
  then show ?thesis using None i by (simp add: scan_conclude_def)
next
  case (Some target)
  obtain w1 where w1: "irc_send ''PRIVMSG %s :CHECK -> All tests on %s completed.'' [Str (chan_name target), ArgStr (ss_ip ss)] w = Some w1"
      "talks w w1"
    using irc_send_talks [of "''PRIVMSG %s :CHECK -> All tests on %s completed.''" "[Str (chan_name target), ArgStr (ss_ip ss)]" w] by auto
  then show ?thesis using Some scan_inv_talks [OF i w1(2)] by (auto simp: talks_def scan_conclude_def)
qed

lemma scan_checkfinished_inv:
  assumes i: "scan_inv D None w" and s: "cells (SS w) p = Some ss" "ss_ok ss"
  shows "\<exists>w'. scan_checkfinished p w = Some w' \<and> keeps w w' \<and> scan_inv D None w' \<and>
    (if ss_scans ss = 0 then cells (SS w') = (cells (SS w))(p := None) else w' = w)"
proof (cases "ss_scans ss = 0")
  case True
  obtain w1 where w1: "scan_conclude p ss w = Some w1" "keeps w w1" "SS w1 = SS w" "scan_inv D None w1"
    using scan_conclude_inv [OF i s] by blast
  obtain w2 where w2: "scan_free p w1 = Some w2" "keeps w1 w2" "scan_inv D None w2" "cells (SS w2) = (cells (SS w1))(p := None)"
    using scan_free_inv [OF w1(4), of p ss] s(1) w1(3) True by auto
  have "scan_checkfinished p w = Some w2" using s(1) True w1(1) w2(1) by (simp add: scan_checkfinished_def ss_get_eq)
  then show ?thesis using True w1 w2 keeps_trans by auto
next
  case False
  then have "\<not> ss_scans ss \<le> 0" by simp
  then show ?thesis using s(1) i False by (simp add: scan_checkfinished_def ss_get_eq)
qed

text \<open>The count of a scan that is owed a test is not zero, so it is not a structure that was lost.\<close>

lemma owed_ok:
  assumes "scan_inv D (Some p) w"
  shows "\<exists>ss. cells (SS w) p = Some ss \<and> ss_ok ss \<and> 0 < unat (ss_scans ss)"
proof -
  note l = scan_invD(7) [OF assms]
  have "p \<in> targets (Some p) (DS w) (map c_info (asked w)) (opm_active w)" by (simp add: targets_def)
  then obtain ss where ss: "cells (SS w) p = Some ss" using l by (auto simp: links_ok_def)
  have c: "0 < unat (ss_scans ss)" using links_count [OF l ss] by (simp add: owed_def)
  then have "ss \<noteq> zero_ss" by (auto simp: zero_ss_def)
  then show ?thesis using ss c scan_invD(5) [OF assms] by (auto simp: contents_ok_def)
qed

text \<open>Counting a test down: the structure is freed with the last one.\<close>

lemma scan_done_spec:
  assumes i: "scan_inv D (Some p) w" and s: "cells (SS w) p = Some ss"
  shows "\<exists>w'. scan_done p w = Some w' \<and> keeps w w' \<and> scan_inv D None w' \<and>
    (if ss_scans ss = 1 then cells (SS w') = (cells (SS w))(p := None)
     else cells (SS w') = (cells (SS w))(p \<mapsto> ss\<lparr>ss_scans := ss_scans ss - 1\<rparr>))"
proof -
  define ss' where "ss' = ss\<lparr>ss_scans := ss_scans ss - 1\<rparr>"
  define w1 where "w1 = w\<lparr>SS := (SS w)\<lparr>cells := (cells (SS w))(p \<mapsto> ss')\<rparr>\<rparr>"
  have ok: "ss_ok ss'" using owed_ok [OF i] s by (auto simp: ss'_def ss_ok_def)
  have m: "ss_modify p (\<lambda>s. s\<lparr>ss_scans := ss_scans s - 1\<rparr>) w = Some w1" using ss_modify_eq [OF s] by (simp add: w1_def ss'_def)
  have k: "frames w w1" by (simp add: w1_def)
  have i1: "scan_inv D None w1"
    using links_done [OF scan_invD(7) [OF i] s] contents_upd [OF scan_invD(5) [OF i] ok]
    by (intro scan_inv_frames [OF i k]) (simp_all add: w1_def ss'_def cache_fine_def)
  have s1: "cells (SS w1) p = Some ss'" by (simp add: w1_def)
  obtain w2 where w2: "scan_checkfinished p w1 = Some w2" "keeps w1 w2" "scan_inv D None w2"
      "if ss_scans ss' = 0 then cells (SS w2) = (cells (SS w1))(p := None) else w2 = w1"
    using scan_checkfinished_inv [OF i1 s1 ok] by blast
  have "idle (SS w2) \<subseteq> idle (SS w)"
  proof (cases "ss_scans ss' = 0")
    case True
    then have "idle (SS w2) = idle (SS w1) - {p}" using w2(4) by (simp add: idle_free)
    then show ?thesis using idle_upd_subset [of "SS w" p ss'] by (auto simp: w1_def)
  next
    case False
    then show ?thesis using w2(4) idle_upd [of ss' "SS w" p] by (auto simp: w1_def)
  qed
  then have "keeps w w2" using frames_trans [OF k] w2(2) by (simp add: keeps_def)
  moreover have "ss_scans ss' = 0 \<longleftrightarrow> ss_scans ss = 1" by (simp add: ss'_def)
  ultimately show ?thesis using m w2 by (cases "ss_scans ss = 1") (auto simp: scan_done_def w1_def ss'_def)
qed

lemma scan_done_inv:
  assumes "scan_inv D (Some p) w"
  shows "\<exists>w'. scan_done p w = Some w' \<and> keeps w w' \<and> scan_inv D None w'"
  using owed_ok [OF assms] scan_done_spec [OF assms] by blast

section \<open>A positive host\<close>

lemma scan_inv_modify:
  assumes i: "scan_inv D q w" and s: "cells (SS w) p = Some ss" "ss_ok ss'" "ss_scans ss' = ss_scans ss"
  shows "scan_inv D q (w\<lparr>SS := (SS w)\<lparr>cells := (cells (SS w))(p \<mapsto> ss')\<rparr>\<rparr>)"
  using links_modify [OF scan_invD(7) [OF i] s(1,3)] contents_upd [OF scan_invD(5) [OF i] s(2)]
  by (intro scan_inv_frames [OF i]) (simp_all add: cache_fine_def)

lemma end_scans_talks: "talks w (end_scans p w)"
proof -
  have "open_fds (out w @ map (\<lambda>i. Opm_end i p) xs) = open_fds (out w)" for xs
    by (induction xs rule: rev_induct) (simp_all add: append_assoc [symmetric] del: append_assoc)
  then show ?thesis by (simp add: talks_def keeps_def frames_def end_scans_def)
qed

lemma kline_table_ok:
  "good_str ip \<Longrightarrow> good_str host \<Longrightarrow> good_str user \<Longrightarrow> good_str nick \<Longrightarrow> good_str type \<Longrightarrow>
   table_ok (kline_table ip host user nick type)"
  by (simp add: table_ok_def kline_table_def good_str_def)

lemma scan_positive_inv:
  assumes i: "scan_inv D q w" and s: "cells (SS w) p = Some ss" "ss_ok ss" "ss_manual_target ss = None"
    and k: "kline_ok kline" "good_str type"
  shows "\<exists>w'. scan_positive p kline type w = Some w' \<and> keeps w w' \<and> cfg w' = cfg w \<and> scan_inv D q w' \<and>
    cells (SS w') = (cells (SS w))(p \<mapsto> ss\<lparr>ss_positive := if ss_positive ss = 0 then 1 else ss_positive ss\<rparr>)"
proof (cases "ss_positive ss = 0")
  case True
  obtain ip host user nick where f: "ss_ip ss = Some ip" "ss_irc_hostname ss = Some host" "ss_irc_username ss = Some user"
      "ss_irc_nick ss = Some nick" "good_str ip" "good_str host" "good_str user" "good_str nick"
    using s(2,3) by (auto simp: ss_ok_def)
  define b where "b = strncpy_buf MSGLENMAX (stack_bytes (envir w) (out w))"
  have "length b = 513" by (simp add: b_def strncpy_buf_def MSGLENMAX_def)
  then obtain t where t: "scan_irckline b kline (kline_table ip host user nick type) w = Some (irc_transmit t w)"
    using scan_irckline_text [of kline "kline_table ip host user nick type" b w] k kline_table_ok f(5-8) k(2)
    by (auto simp: kline_ok_def)
  define w1 where "w1 = end_scans p (irc_transmit t w)"
  have t1: "talks w w1" using talks_trans [OF irc_transmit_talks end_scans_talks] by (simp add: w1_def)
  have s1: "cells (SS w1) p = Some ss" "SS w1 = SS w" "cfg w1 = cfg w" using t1 s(1) by (simp_all add: talks_def)
  define w2 where "w2 = w1\<lparr>SS := (SS w1)\<lparr>cells := (cells (SS w1))(p \<mapsto> ss\<lparr>ss_positive := 1\<rparr>)\<rparr>\<rparr>"
  have "ss_ok (ss\<lparr>ss_positive := 1\<rparr>)" using s(2) by (simp add: ss_ok_def)
  then have i2: "scan_inv D q w2"
    unfolding w2_def by (intro scan_inv_modify [OF scan_inv_talks [OF i t1] s1(1)]) simp_all
  have "ss_modify p (\<lambda>s. s\<lparr>ss_positive := 1\<rparr>) w1 = Some w2" using ss_modify_eq [OF s1(1)] by (simp add: w2_def)
  then have "scan_positive p kline type w = Some w2"
    using s(1) True f(1-4) t by (simp add: scan_positive_def ss_get_eq b_def w1_def)
  moreover have "keeps w1 w2" using idle_modify [OF s1(1) ss_ok_nonzero [OF s(2)], of "ss\<lparr>ss_positive := 1\<rparr>"]
    by (simp add: w2_def keeps_def)
  then have "keeps w w2" using keeps_trans [OF talks_keeps [OF t1]] by blast
  ultimately show ?thesis using i2 True s1 by (auto simp: w2_def)
next
  case False
  then have "(cells (SS w))(p \<mapsto> ss\<lparr>ss_positive := if ss_positive ss = 0 then 1 else ss_positive ss\<rparr>) = cells (SS w)"
    using s(1) by (auto simp: fun_upd_idem_iff)
  then show ?thesis using False s(1) i by (simp add: scan_positive_def ss_get_eq)
qed

section \<open>The result of a query\<close>

lemma stats_dnsblrecv_keeps: "keeps w (stats_dnsblrecv i w)"
proof -
  have "map f (xs[i := f' (xs ! i)]) = map f xs" if "\<And>x. f (f' x) = f x" for f f' :: "blacklist_conf \<Rightarrow> blacklist_conf" and xs
    using that by (cases "i < length xs") (simp_all add: map_update list_update_beyond list_update_same_conv)
  from this [of "bl_stats_recv_update (\<lambda>_. 0)" "\<lambda>bl. bl\<lparr>bl_stats_recv := bl_stats_recv bl + 1\<rparr>"]
  show ?thesis by (simp add: keeps_def frames_def stats_dnsblrecv_def strip_conf_def blacklists_def Let_def)
qed

lemma stats_dnsblrecv_inv: "scan_inv D q w \<Longrightarrow> scan_inv D q (stats_dnsblrecv i w)"
proof -
  assume i: "scan_inv D q w"
  have f: "SS (stats_dnsblrecv i w) = SS w" "nc_mem (stats_dnsblrecv i w) = nc_mem w" "nc_head (stats_dnsblrecv i w) = nc_head w"
      "OptionsItem (cfg (stats_dnsblrecv i w)) = OptionsItem (cfg w)"
    by (simp_all add: stats_dnsblrecv_def Let_def)
  show ?thesis using scan_invD [OF i] f
    by (intro scan_inv_frames [OF i keeps_frames [OF stats_dnsblrecv_keeps]]) (simp_all add: cache_fine_def)
qed

lemma dnsbl_announce_inv:
  assumes i: "scan_inv D q w" and s: "cells (SS w) p = Some ss" "ss_ok ss" and bl: "bl_ok bl" and t: "good_str t"
  shows "\<exists>w'. dnsbl_announce p ss bl (Some t) w = Some w' \<and> keeps w w' \<and> scan_inv D q w'"
proof (cases "ss_manual_target ss")
  case None
  have k: "kline_ok (if bl_kline bl \<noteq> [] then bl_kline bl else irc_kline (IRCItem (cfg w)))"
    using bl scan_invD(9) [OF i] by (auto simp: bl_ok_def conf_ok_def)
  show ?thesis
  proof (cases "ss_positive ss = 0")
    case True
    obtain w1 where w1: "scan_positive p (if bl_kline bl \<noteq> [] then bl_kline bl else irc_kline (IRCItem (cfg w))) t w = Some w1"
        "keeps w w1" "scan_inv D q w1"
      using scan_positive_inv [OF i s None k t] by blast
    obtain w2 where w2: "irc_send_channels ''DNSBL -> %s!%s@%s appears in BL zone %s (%s)''
         [ArgStr (ss_irc_nick ss), ArgStr (ss_irc_username ss), ArgStr (ss_irc_hostname ss), Str (bl_name bl), Str t] w1 = Some w2" "talks w1 w2"
      using irc_send_channels_talks [of "''DNSBL -> %s!%s@%s appears in BL zone %s (%s)''"
        "[ArgStr (ss_irc_nick ss), ArgStr (ss_irc_username ss), ArgStr (ss_irc_hostname ss), Str (bl_name bl), Str t]" w1] by auto
    show ?thesis using None True w1 w2 keeps_trans [OF w1(2) talks_keeps [OF w2(2)]] scan_inv_talks [OF w1(3) w2(2)]
      by (auto simp: dnsbl_announce_def)
  qed (use None i in \<open>simp add: dnsbl_announce_def\<close>)
next
  case (Some target)
  obtain w1 where "irc_send ''PRIVMSG %s :CHECK -> DNSBL -> %s appears in BL zone %s (%s)''
                 [Str (chan_name target), ArgStr (ss_ip ss), Str (bl_name bl), Str t] w = Some w1" "talks w w1"
    using irc_send_talks [of "''PRIVMSG %s :CHECK -> DNSBL -> %s appears in BL zone %s (%s)''"
        "[Str (chan_name target), ArgStr (ss_ip ss), Str (bl_name bl), Str t]" w] by auto
  then show ?thesis using Some scan_inv_talks [OF i] talks_keeps by (auto simp: dnsbl_announce_def)
qed

lemma dnsbl_positive_inv:
  assumes i: "scan_inv D q w" and s: "cells (SS w) p = Some ss" "ss_ok ss" and n: "n < length (blacklists w)"
  shows "\<exists>w'. dnsbl_positive p n type w = Some w' \<and> keeps w w' \<and> scan_inv D q w'"
proof -
  define bl where "bl = blacklists w ! n"
  have "bl \<in> set (blacklists w)" using n by (simp add: bl_def)
  then have bl: "bl_ok bl" using scan_invD(9) [OF i] by (auto simp: conf_ok_def blacklists_def)
  obtain t where t: "dnsbl_text bl type = Some (Some t)" "good_str t" using bl by (auto simp: bl_ok_def)
  obtain w1 where w1: "dnsbl_announce p ss bl (Some t) w = Some w1" "keeps w w1" "scan_inv D q w1"
    using dnsbl_announce_inv [OF i s bl t(2)] by blast
  have "dnsbl_positive p n type w =
      (if t = [] \<and> \<not> bl_ban_unknown bl then Some w else Some (stats_dnsblrecv n w1))"
    using s(1) t(1) w1(1) by (simp add: dnsbl_positive_def ss_get_eq bl_def Let_def)
  then show ?thesis using i w1 stats_dnsblrecv_inv keeps_trans [OF _ stats_dnsblrecv_keeps]
    by (cases "t = [] \<and> \<not> bl_ban_unknown bl") (auto intro!: stats_dnsblrecv_inv intro: keeps_trans [OF _ stats_dnsblrecv_keeps])
qed

text \<open>Between two events no structure is idle.\<close>

definition quiet :: "'a scan_st_scheme \<Rightarrow> bool" where
  "quiet w \<longleftrightarrow> scan_inv {} None w \<and> idle (SS w) = {}"

text \<open>A result that has been taken from the resolver: its query is in hand, and its scan is owed
  a test.\<close>

definition due :: "firedns_result \<Rightarrow> 'a scan_st_scheme \<Rightarrow> bool" where
  "due r w \<longleftrightarrow> (\<exists>ds. cells (DS w) (r_info r) = Some ds \<and> scan_inv {r_info r} (Some (ds_ss ds)) w) \<and>
     read_cstr (r_lookup r) \<noteq> None \<and> fdns_errno w < 10 \<and> idle (SS w) = {}"

lemma dnsbl_answer_inv:
  assumes i: "scan_inv D q w" and ds: "cells (DS w) d = Some ds" "cells (SS w) (ds_ss ds) = Some ss" "ss_ok ss"
    and r: "read_cstr (r_lookup r) \<noteq> None" "fdns_errno w < 10"
  shows "\<exists>w'. dnsbl_answer ds r w = Some w' \<and> keeps w w' \<and> scan_inv D q w'"
proof (cases "fdns_errno w = FDNS_ERR_NONE")
  case True
  have "ds_bl ds < length (blacklists w)" using scan_invD(6) [OF i] ds(1) by (simp add: indices_ok_def)
  then show ?thesis using dnsbl_positive_inv [OF i ds(2,3)] True by (simp add: dnsbl_answer_def)
next
  case False
  have "firedns_strerror (fdns_errno w) w \<noteq> None" using r(2) by (simp add: firedns_strerror_def errors_def)
  then obtain lookup err where l: "read_cstr (r_lookup r) = Some lookup" "firedns_strerror (fdns_errno w) w = Some err"
    using r(1) by blast
  obtain w1 where w1: "irc_send_channels ''DNSBL -> Lookup error on %s: %s'' [Str lookup, Str err] w = Some w1" "talks w w1"
    using irc_send_channels_talks [of "''DNSBL -> Lookup error on %s: %s''" "[Str lookup, Str err]" w] by auto
  show ?thesis using False l w1 i scan_inv_talks [OF i w1(2)] talks_keeps [OF w1(2)]
    by (cases "fdns_errno w = FDNS_ERR_TIMEOUT") (auto simp: dnsbl_answer_def)
qed

lemma dnsbl_unlisted_inv:
  assumes i: "scan_inv D q w" and s: "ss_ok ss" and r: "read_cstr (r_lookup r) \<noteq> None"
  shows "\<exists>w'. dnsbl_unlisted ss r w = Some w' \<and> keeps w w' \<and> scan_inv D q w'"
proof (cases "ss_manual_target ss")
  case (Some target)
  obtain ip lookup where l: "ss_ip ss = Some ip" "read_cstr (r_lookup r) = Some lookup"
    using s r by (auto simp: ss_ok_def)
  let ?z = "if length ip < length lookup then drop (length ip + 1) lookup else lookup"
  obtain w1 where w1: "irc_send ''PRIVMSG %s :CHECK -> DNSBL -> %s does not appear in BL zone %s''
      [Str (chan_name target), Str ip, Str ?z] w = Some w1" "talks w w1"
    using irc_send_talks [of "''PRIVMSG %s :CHECK -> DNSBL -> %s does not appear in BL zone %s''"
        "[Str (chan_name target), Str ip, Str ?z]" w] by auto
  then show ?thesis using Some l scan_inv_talks [OF i w1(2)] talks_keeps [OF w1(2)] by (auto simp: dnsbl_unlisted_def)
qed (use i in \<open>simp add: dnsbl_unlisted_def\<close>)

lemma ds_free_inv:
  assumes i: "scan_inv {d} q w"
  shows "\<exists>w'. ds_free d w = Some w' \<and> scan_inv {} q w' \<and> (\<exists>m. w' = w\<lparr>DS := m\<rparr>)"
proof -
  obtain m where m: "MyFree (DS w) d = Some m" "cells m = (cells (DS w))(d := None)"
      "links_ok {} q (SS w) m (map c_info (asked w)) (opm_active w)"
    using links_free_ds [OF scan_invD(7) [OF i], of d] by auto
  have "scan_inv {} q (w\<lparr>DS := m\<rparr>)"
    using i m unfolding scan_inv_def
    by (auto simp: conns_ok_def fd_limit_def lookups_ok_def static_ok_def blacklists_def cache_fine_def indices_ok_def asked_def split: if_splits)
  then show ?thesis using m(1) by (auto simp: ds_free_def)
qed

lemma dnsbl_result_inv:
  assumes "due r w"
  shows "\<exists>w'. dnsbl_result r w = Some w' \<and> quiet w' \<and> (\<exists>w1. keeps w w1 \<and> (\<exists>m. w' = w1\<lparr>DS := m\<rparr>))"
proof -
  obtain ds where ds: "cells (DS w) (r_info r) = Some ds" and i: "scan_inv {r_info r} (Some (ds_ss ds)) w"
      and r: "read_cstr (r_lookup r) \<noteq> None" "fdns_errno w < 10" and e: "idle (SS w) = {}"
    using assms by (auto simp: due_def)
  obtain ss where ss: "cells (SS w) (ds_ss ds) = Some ss" "ss_ok ss" using owed_ok [OF i] by blast
  define first where "first = (if r_text r ! 0 = NUL \<and> fdns_errno w = FDNS_ERR_NXDOMAIN then dnsbl_unlisted ss r w
     else dnsbl_answer ds r w)"
  obtain w1 where w1: "first = Some w1" "keeps w w1" "scan_inv {r_info r} (Some (ds_ss ds)) w1"
    using dnsbl_unlisted_inv [OF i ss(2) r(1)] dnsbl_answer_inv [OF i ds ss r] unfolding first_def
    by (cases "r_text r ! 0 = NUL \<and> fdns_errno w = FDNS_ERR_NXDOMAIN") auto
  obtain w2 where w2: "scan_done (ds_ss ds) w1 = Some w2" "keeps w1 w2" "scan_inv {r_info r} None w2"
    using scan_done_inv [OF w1(3)] by blast
  obtain w3 where w3: "ds_free (r_info r) w2 = Some w3" "scan_inv {} None w3" "\<exists>m. w3 = w2\<lparr>DS := m\<rparr>"
    using ds_free_inv [OF w2(3)] by blast
  have "dnsbl_result r w = do { w \<leftarrow> first; w \<leftarrow> scan_done (ds_ss ds) w; ds_free (r_info r) w }"
    using ds ss(1) by (simp add: dnsbl_result_def mem_load_def ss_get_eq first_def)
  then have "dnsbl_result r w = Some w3" using w1 w2 w3 by simp
  moreover have "idle (SS w3) = {}" using w3(3) keeps_trans [OF w1(2) w2(2)] e by (auto simp: keeps_def)
  ultimately show ?thesis using w3 keeps_trans [OF w1(2) w2(2)] by (auto simp: quiet_def)
qed

end
