(* ===== verification/Scan_Safe.thy ===== *)
theory Scan_Safe
  imports Scan_Inv
begin

text \<open>
  The operations that start scans and the events that drive them keep the invariant of
  \<open>Scan_Inv\<close>: none of them reads freed memory or leaves a scan miscounted.
\<close>

section \<open>The resolver's client\<close>

lemma frame_scan_fields:
  assumes "fdns_frame w (w' :: 'a scan_st_scheme)"
  shows "SCANNERS w' = SCANNERS w" "SS w' = SS w" "DS w' = DS w" "nc_mem w' = nc_mem w" "nc_head w' = nc_head w"
    "nc_counter w' = nc_counter w" "opm_active w' = opm_active w" "envir w' = envir w" "cfg w' = cfg w" "clock w' = clock w"
    "STATS_UPTIME w' = STATS_UPTIME w" "scan_st.more w' = scan_st.more w"
  by (subst assms [unfolded fdns_frame_def]; simp)+

lemma scan_inv_frame:
  assumes "scan_inv D q w" "fdns_frame w w'" "conns_ok w'" "lookups_ok w'"
    "links_ok D' q' (SS w) (DS w) (map c_info (asked w')) (opm_active w)"
  shows "scan_inv D' q' w'"
  using assms(1,3-5) frame_scan_fields [OF assms(2)]
  by (simp add: scan_inv_def static_ok_def cache_fine_def indices_ok_def blacklists_def)

lemma taken_due:
  assumes q: "quiet w" and c: "c \<in> set (CONNECTIONS w)" "c_info c \<noteq> NULL"
    and r: "r_info r = c_info c" "r_lookup r = c_lookup c"
    and w': "fdns_frame w w'" "CONNECTIONS w' = conn_remove (c_key c) (CONNECTIONS w)" "conns_ok w'" "fdns_errno w' < 10"
  shows "due r w'"
proof -
  have i: "scan_inv {} None w" and e: "idle (SS w) = {}" using q by (simp_all add: quiet_def)
  obtain as bs where cs: "CONNECTIONS w = as @ c # bs" using c(1) by (meson split_list)
  have "distinct (map c_key (as @ c # bs))" using scan_invD(1) [OF i] cs by (simp add: conns_ok_def conns_inv_def)
  then have cs': "CONNECTIONS w' = as @ bs" using conn_remove_split [of as c bs] w'(2) cs by simp
  have l: "links_ok {} None (SS w) (DS w) (map c_info (filter (\<lambda>c. c_info c \<noteq> NULL) as) @ c_info c #
      map c_info (filter (\<lambda>c. c_info c \<noteq> NULL) bs)) (opm_active w)"
    using scan_invD(7) [OF i] c(2) by (simp add: asked_def cs)
  then have "c_info c \<in> dom (cells (DS w))" by (auto simp: links_ok_def ds_shape_def)
  then obtain ds where ds: "cells (DS w) (c_info c) = Some ds" by blast
  have lk: "lookups_ok w'" "read_cstr (c_lookup c) \<noteq> None" using scan_invD(2) [OF i] cs cs' by (auto simp: lookups_ok_def)
  have "scan_inv {c_info c} (Some (ds_ss ds)) w'"
    using links_take_dns [OF l ds] by (intro scan_inv_frame [OF i w'(1,3) lk(1)]) (simp add: asked_def cs')
  then show ?thesis using ds r w'(4) lk(2) e frame_scan_fields(2,3) [OF w'(1)] by (simp add: due_def)
qed

text \<open>What no event changes: the time, and whatever the rest of the program keeps.\<close>

definition calm :: "'a scan_st_scheme \<Rightarrow> 'a scan_st_scheme \<Rightarrow> bool" where
  "calm w w' \<longleftrightarrow> clock w' = clock w \<and> STATS_UPTIME w' = STATS_UPTIME w \<and> scan_st.more w' = scan_st.more w"

lemma calm_refl [simp]: "calm w w"
  by (simp add: calm_def)

lemma calm_trans: "calm w w' \<Longrightarrow> calm w' w'' \<Longrightarrow> calm w w''"
  by (simp add: calm_def)

lemma frames_calm: "frames w w' \<Longrightarrow> calm w w'"
  by (simp add: frames_def calm_def)

lemma keeps_calm: "keeps w w' \<Longrightarrow> calm w w'"
  by (simp add: keeps_def frames_calm)

interpretation dnsbl: dns_client "\<lambda>w. quiet w \<and> calm v w" "\<lambda>r w. due r w \<and> calm v w" dnsbl_result for v
proof
  fix w :: "'a scan_st_scheme" and c w' r
  assume qc: "quiet w \<and> calm v w"
  then have q: "quiet w" and c: "calm v w" by simp_all
  have i: "scan_inv {} None w" and e: "idle (SS w) = {}" using q by (simp_all add: quiet_def)
  have c': "calm v w'" if "fdns_frame w w'" using frame_scan_fields [OF that] c by (simp add: calm_def)
  show "conns_ok w \<and> lookups_ok w \<and> recv_bounded (envir w) \<and> known_rcodes (envir w)"
    using scan_invD [OF i] by (simp add: env_ok_def)
  show "due r w' \<and> calm v w'"
    if "c \<in> set (CONNECTIONS w)" "c_info c \<noteq> NULL" "r_info r = c_info c" "r_lookup r = c_lookup c" "fdns_frame w w'"
      "CONNECTIONS w' = conn_remove (c_key c) (CONNECTIONS w)" "conns_ok w'" "fdns_errno w' < 10"
    using taken_due [OF q] c' that by blast
  show "quiet w' \<and> calm v w'"
    if "fdns_frame w w'" "map c_info (asked w') = map c_info (asked w)" "conns_ok w'" "lookups_ok w'"
    using scan_invD(7) [OF i] that e c' frame_scan_fields(2) [OF that(1)] scan_inv_frame [OF i that(1), of "{}" None] by (simp add: quiet_def)
next
  fix r and w :: "'a scan_st_scheme"
  assume d: "due r w \<and> calm v w"
  then obtain w' w1 m where w': "dnsbl_result r w = Some w'" "quiet w'" "keeps w w1" "w' = w1\<lparr>DS := m\<rparr>"
    using dnsbl_result_inv [of r w] by blast
  have "calm w1 w'" using w'(4) by (simp add: calm_def)
  then have "calm v w'" using d calm_trans [OF _ calm_trans [OF keeps_calm [OF w'(3)]]] by blast
  then show "\<exists>w'. dnsbl_result r w = Some w' \<and> (quiet w' \<and> calm v w') \<and> CONNECTIONS w' = CONNECTIONS w"
    using w' by (auto simp: keeps_def frames_def)
qed

lemma dnsbl_cycle_inv:
  "quiet w \<Longrightarrow> \<exists>w'. dnsbl_cycle w = Some w' \<and> quiet w' \<and> calm w w'"
  using dnsbl.firedns_cycle_inv [of w w] by (simp add: dnsbl_cycle_def)

section \<open>Asking the blacklists\<close>

text \<open>A scan that is being set up: it has at most \<open>k\<close> tests so far.\<close>

definition counting :: "ptr \<Rightarrow> nat \<Rightarrow> 'a scan_st_scheme \<Rightarrow> bool" where
  "counting p k w \<longleftrightarrow> scan_inv {} None w \<and> idle (SS w) \<subseteq> {p} \<and> (\<exists>ss. cells (SS w) p = Some ss \<and> ss_ok ss \<and> unat (ss_scans ss) \<le> k)"

text \<open>What setting up a scan does not change.\<close>

definition steady :: "'a scan_st_scheme \<Rightarrow> 'a scan_st_scheme \<Rightarrow> bool" where
  "steady w w' \<longleftrightarrow> SCANNERS w' = SCANNERS w \<and> cfg w' = cfg w \<and> envir w' = envir w \<and> clock w' = clock w \<and>
     STATS_UPTIME w' = STATS_UPTIME w \<and> scan_st.more w' = scan_st.more w"

lemma steady_refl [simp]: "steady w w"
  by (simp add: steady_def)

lemma steady_trans: "steady w w' \<Longrightarrow> steady w' w'' \<Longrightarrow> steady w w''"
  by (simp add: steady_def)

lemma steady_calm: "steady w w' \<Longrightarrow> calm w w'"
  by (simp add: steady_def calm_def)

lemma talks_steady: "talks w w' \<Longrightarrow> steady w w'"
  by (simp add: talks_def keeps_def frames_def steady_def)

lemma countingD:
  assumes "counting p k w"
  obtains ss where "cells (SS w) p = Some ss" "ss_ok ss" "unat (ss_scans ss) \<le> k"
  using assms by (auto simp: counting_def)

lemma counting_mono: "counting p k w \<Longrightarrow> k \<le> k' \<Longrightarrow> counting p k' w"
  by (auto simp: counting_def)

lemma quiet_talks: "quiet w \<Longrightarrow> talks w w' \<Longrightarrow> quiet w'"
  using scan_inv_talks by (auto simp: quiet_def talks_def)

lemma quiet_keeps: "quiet w \<Longrightarrow> keeps w w' \<Longrightarrow> scan_inv {} None w' \<Longrightarrow> quiet w'"
  by (auto simp: quiet_def keeps_def)

lemma counting_talks: "counting p k w \<Longrightarrow> talks w w' \<Longrightarrow> counting p k w'"
  by (auto simp: counting_def talks_def intro: scan_inv_talks [unfolded talks_def])

lemma int_str_nonul: "NUL \<notin> set (int_str k)"
  using num_str_cstring [of False] by (simp add: int_str_def cstring_def)

lemma dnsbl_lookup_ok:
  assumes "good_str zone"
  shows "\<exists>l. dnsbl_lookup addr zone = Some l \<and> cstring l \<and> length l < 256"
proof -
  define out where "out a b c d = int_str (sint a) @ ''.'' @ int_str (sint b) @ ''.'' @ int_str (sint c) @ ''.'' @
    int_str (sint d) @ ''.'' @ zone" for a b c d :: "32 word"
  have v: "vformat ''%d.%d.%d.%d.%s'' [ArgInt a, ArgInt b, ArgInt c, ArgInt d, Str zone] = Some (out a b c d)" for a b c d
    using assms by (simp add: fmt_simps out_def good_str_def)
  have c: "cstring (out a b c d)" for a b c d using assms int_str_nonul by (simp add: out_def good_str_def cstring_def)
  then show ?thesis using format_buffer_eq [OF v c, of 128] by (simp add: dnsbl_lookup_def Let_def)
qed

lemma links_ok_cells:
  "links_ok D q S DM as act \<Longrightarrow> cells DM' = cells DM \<Longrightarrow> mem_wf DM' \<Longrightarrow> links_ok D q S DM' as act"
  by (simp add: links_ok_def ds_shape_def targets_def refs_def)

text \<open>The two ends of a query: it is in the list and counted, or it could not be sent and its
  structure is freed.\<close>

lemma query_counted:
  assumes c: "counting p k w" "k < 65535" and d: "d = brk (DS w)" and n: "i < length (blacklists w)"
    and w2: "fdns_frame (w\<lparr>DS := m\<rparr>) w2" "conns_ok w2" "lookups_ok w2" "asked w2 = asked w @ [s]" "c_info s = d"
    and m: "m = (DS w)\<lparr>cells := (cells (DS w))(d \<mapsto> \<lparr>ds_ss = p, ds_bl = i\<rparr>), brk := Suc (brk (DS w))\<rparr>"
  shows "\<exists>w'. count_scan p w2 = Some w' \<and> counting p (k + 1) w' \<and> steady w w'"
proof -
  obtain ss where ss: "cells (SS w) p = Some ss" "ss_ok ss" "unat (ss_scans ss) \<le> k" using c(1) by (rule countingD)
  have i: "scan_inv {} None w" using c(1) by (simp add: counting_def)
  note f = frame_scan_fields [OF w2(1)]
  let ?ss = "ss\<lparr>ss_scans := ss_scans ss + 1\<rparr>"
  define w' where "w' = w2\<lparr>SS := (SS w)\<lparr>cells := (cells (SS w))(p \<mapsto> ?ss)\<rparr>\<rparr>"
  have b: "cells (DS w) d = None" "mem_wf m"
    using links_wf(2) [OF scan_invD(7) [OF i]] mem_wf_malloc [of "DS w" "\<lparr>ds_ss = p, ds_bl = i\<rparr>" d m] d m
    by (auto simp: MyMalloc_def mem_wf_def)
  have u: "unat (ss_scans ss) < 65535" using ss(3) c(2) by simp
  have l: "links_ok {} None (SS w') (DS w') (map c_info (asked w')) (opm_active w')"
    using links_add_dns [OF scan_invD(7) [OF i] ss(1) u b(1) m b(2)] f w2(4,5) by (simp add: w'_def asked_def)
  have o: "ss_ok ?ss" using ss(2) by (simp add: ss_ok_def)
  have "contents_ok (SS w')" using contents_upd [OF scan_invD(5) [OF i] o] by (simp add: w'_def)
  moreover have "indices_ok w'" using scan_invD(6) [OF i] f n by (auto simp: indices_ok_def w'_def m blacklists_def)
  moreover have "static_ok w'" "cache_fine w'" using scan_invD(3,4) [OF i] f by (simp_all add: w'_def static_ok_def cache_fine_def blacklists_def)
  moreover have "conns_ok w'" "lookups_ok w'" using w2(2,3) by (simp_all add: w'_def conns_ok_def fd_limit_def lookups_ok_def)
  ultimately have "scan_inv {} None w'" using l by (simp add: scan_inv_def)
  moreover have "unat (ss_scans ?ss) \<le> k + 1" using unat_inc [OF u] ss(3) by simp
  moreover have "idle (SS w') \<subseteq> {p}" using idle_upd_subset [of "SS w" p ?ss] c(1) by (auto simp: counting_def w'_def)
  ultimately have "counting p (k + 1) w'" using o by (simp add: counting_def w'_def)
  moreover have "count_scan p w2 = Some w'" using ss_modify_eq [of w2 p ss "\<lambda>s. s\<lparr>ss_scans := ss_scans s + 1\<rparr>"] ss(1) f(2)
    by (simp add: count_scan_def w'_def)
  moreover have "steady w w'" using f by (simp add: steady_def w'_def)
  ultimately show ?thesis by blast
qed

lemma query_unsent:
  assumes c: "counting p k w" and d: "d = brk (DS w)"
    and w2: "fdns_frame (w\<lparr>DS := m\<rparr>) w2" "conns_ok w2" "CONNECTIONS w2 = CONNECTIONS w"
    and m: "m = (DS w)\<lparr>cells := (cells (DS w))(d \<mapsto> \<lparr>ds_ss = p, ds_bl = i\<rparr>), brk := Suc (brk (DS w))\<rparr>"
  shows "\<exists>w'. map_option (\<lambda>m. w2\<lparr>DS := m\<rparr>) (MyFree (DS w2) d) = Some w' \<and> counting p k w' \<and> steady w w'"
proof -
  have i: "scan_inv {} None w" using c by (simp add: counting_def)
  note f = frame_scan_fields [OF w2(1)]
  have b: "cells (DS w) d = None" "mem_wf m" "d \<noteq> NULL"
    using links_wf(2) [OF scan_invD(7) [OF i]] mem_wf_malloc [of "DS w" "\<lparr>ds_ss = p, ds_bl = i\<rparr>" d m] d m
    by (auto simp: MyMalloc_def mem_wf_def)
  define m' where "m' = m\<lparr>cells := (cells m)(d := None)\<rparr>"
  have fr: "MyFree m d = Some m'" using b(3) by (simp add: MyFree_def m m'_def)
  have m': "cells m' = cells (DS w)" "mem_wf m'" using mem_wf_free [OF b(2) fr] b(1) by (auto simp: m'_def m)
  define w' where "w' = w2\<lparr>DS := m'\<rparr>"
  have "links_ok {} None (SS w') (DS w') (map c_info (asked w')) (opm_active w')"
    using links_ok_cells [OF scan_invD(7) [OF i] m'] f w2(3) by (simp add: w'_def asked_def)
  moreover have "contents_ok (SS w')" "indices_ok w'" "static_ok w'" "cache_fine w'"
    using scan_invD(3-6) [OF i] f m'(1) by (simp_all add: w'_def indices_ok_def static_ok_def cache_fine_def blacklists_def)
  moreover have "conns_ok w'" "lookups_ok w'" using w2 scan_invD(2) [OF i]
    by (simp_all add: w'_def conns_ok_def fd_limit_def lookups_ok_def)
  ultimately have "scan_inv {} None w'" by (simp add: scan_inv_def)
  then have "counting p k w'" using c f(2) by (simp add: counting_def w'_def)
  moreover have "steady w w'" using f by (simp add: steady_def w'_def)
  ultimately show ?thesis using fr f(3) by (simp add: w'_def)
qed

lemma dnsbl_query_inv:
  assumes c: "counting p k w" "k < 65535" and n: "i < length (blacklists w)" and bl: "good_str (bl_name bl)"
  shows "\<exists>w'. dnsbl_query p addr i bl w = Some w' \<and> counting p (k + 1) w' \<and> steady w w'"
proof -
  obtain l where l: "dnsbl_lookup addr (bl_name bl) = Some l" "cstring l" "length l < 256" using dnsbl_lookup_ok [OF bl] by blast
  have i: "scan_inv {} None w" using c(1) by (simp add: counting_def)
  define d where "d = brk (DS w)"
  define m where "m = (DS w)\<lparr>cells := (cells (DS w))(d \<mapsto> \<lparr>ds_ss = p, ds_bl = i\<rparr>), brk := Suc (brk (DS w))\<rparr>"
  obtain fd w2 where g: "firedns_getip FDNS_QRY_A l d (w\<lparr>DS := m\<rparr>) = Some (fd, w2)" using getip_total [OF l(2,3)] by blast
  have ok: "conns_ok (w\<lparr>DS := m\<rparr>)" "sockets_fresh (envir (w\<lparr>DS := m\<rparr>))"
    using scan_invD(1) [OF i] by (simp_all add: conns_ok_def fd_limit_def)
  note spec = getip_spec [OF g ok(2)]
  have fr: "fdns_frame (w\<lparr>DS := m\<rparr>) w2" using spec by blast
  have ok2: "conns_ok w2" using getip_conns_ok [OF ok(1) g] .
  have d0: "d \<noteq> NULL" using links_wf(2) [OF scan_invD(7) [OF i]] by (auto simp: d_def mem_wf_def)
  obtain m0 where st: "MyMalloc (DS w) \<lparr>ds_ss = NULL, ds_bl = 0\<rparr> = (d, m0)" "mem_store m0 d \<lparr>ds_ss = p, ds_bl = i\<rparr> = Some m"
    by (simp add: MyMalloc_def mem_store_def d_def m_def)
  have q: "dnsbl_query p addr i bl w = (if fd = -1 \<and> fdns_errno w2 \<noteq> FDNS_ERR_FDLIMIT
      then map_option (\<lambda>m. w2\<lparr>DS := m\<rparr>) (MyFree (DS w2) d) else count_scan p w2)"
    using l(1) g st by (simp add: dnsbl_query_def count_scan_def)
  show ?thesis
  proof (cases "fd = -1 \<and> fdns_errno w2 \<noteq> FDNS_ERR_FDLIMIT")
    case True
    then have "CONNECTIONS w2 = CONNECTIONS w" using spec by auto
    then show ?thesis using query_unsent [OF c(1) d_def fr ok2 _ m_def] True q counting_mono [of p k _ "k + 1"] by force
  next
    case False
    then obtain s where s: "CONNECTIONS w2 = CONNECTIONS w @ [s]" "c_info s = d" "c_lookup s = strncpy_buf 256 l"
      using spec d0 by (auto simp: fdns_consts)
    have "asked w2 = asked w @ [s]" "lookups_ok w2"
      using s d0 scan_invD(2) [OF i] strncpy_buf_read [OF l(2,3)] by (auto simp: asked_def lookups_ok_def)
    then show ?thesis using query_counted [OF c d_def n fr ok2 _ _ s(2) m_def] q unfolding if_not_P [OF False] by simp
  qed
qed

lemma dnsbl_queries_inv:
  assumes "counting p k w" "k + length bls < 65536" "i + length bls \<le> length (blacklists w)" "\<forall>bl \<in> set bls. good_str (bl_name bl)"
  shows "\<exists>w'. dnsbl_queries p addr i bls w = Some w' \<and> counting p (k + length bls) w' \<and> steady w w'"
  using assms
proof (induction bls arbitrary: k i w)
  case (Cons bl bls)
  obtain w1 where w1: "dnsbl_query p addr i bl w = Some w1" "counting p (k + 1) w1" "steady w w1"
    using dnsbl_query_inv [OF Cons.prems(1), of i bl addr] Cons.prems by auto
  have "\<exists>w'. dnsbl_queries p addr (i + 1) bls w1 = Some w' \<and> counting p (k + 1 + length bls) w' \<and> steady w1 w'"
    using Cons.prems w1(3) by (intro Cons.IH [OF w1(2)]) (simp_all add: steady_def blacklists_def)
  then show ?case using w1 steady_trans by fastforce
qed simp

lemma dnsbl_add_inv:
  assumes "counting p 0 w"
  shows "\<exists>w'. dnsbl_add p w = Some w' \<and> counting p (length (blacklists w)) w' \<and> steady w w'"
proof -
  obtain ss where ss: "cells (SS w) p = Some ss" "ss_ok ss" using assms by (auto elim: countingD)
  obtain ip where ip: "ss_ip ss = Some ip" using ss(2) by (auto simp: ss_ok_def)
  have i: "scan_inv {} None w" using assms by (simp add: counting_def)
  have n: "length (blacklists w) < 65536" "\<forall>bl \<in> set (blacklists w). good_str (bl_name bl)"
    using scan_invD(3,9) [OF i] by (auto simp: static_ok_def conf_ok_def bl_ok_def blacklists_def)
  show ?thesis
  proof (cases "sys_aton (envir w) ip")
    case None
    then show ?thesis using ss(1) ip assms counting_mono by (auto simp: dnsbl_add_def ss_get_eq)
  next
    case (Some addr)
    then show ?thesis using dnsbl_queries_inv [OF assms _ _ n(2), of 0 addr] n(1) ss(1) ip by (simp add: dnsbl_add_def ss_get_eq)
  qed
qed

section \<open>Starting the proxy tests\<close>

lemma open_fds_record: "(\<forall>fd. e \<noteq> Dns_socket fd) \<Longrightarrow> (\<forall>fd. e \<noteq> Dns_closed fd) \<Longrightarrow> open_fds (t @ [e]) = open_fds t"
  by (cases e) (simp_all add: open_fds_def)

lemma opm_record_talks: "talks w (record_event (Opm_scan i p) w)"
  by (simp add: talks_def keeps_def frames_def record_event_def open_fds_record)

text \<open>One request to the library: refused, nothing changes; accepted, the test is counted.\<close>

lemma opm_scan_refused: "opm_scan i p w = (r, w') \<Longrightarrow> r \<noteq> OPM_SUCCESS \<Longrightarrow> talks w w'"
  using opm_record_talks by (auto simp: opm_scan_def Let_def)

lemma opm_scan_counted:
  assumes c: "counting p k w" "k < 65535" and i: "i < length (SCANNERS w)" and o: "opm_scan i p w = (OPM_SUCCESS, w1)"
  shows "\<exists>w'. count_scan p w1 = Some w' \<and> counting p (k + 1) w' \<and> steady w w'"
proof -
  obtain ss where ss: "cells (SS w) p = Some ss" "ss_ok ss" "unat (ss_scans ss) \<le> k" using c(1) by (rule countingD)
  have inv: "scan_inv {} None w" using c(1) by (simp add: counting_def)
  define w0 where "w0 = record_event (Opm_scan i p) w"
  have w1: "w1 = w0\<lparr>opm_active := opm_active w0 @ [(i, p)]\<rparr>" using o by (auto simp: opm_scan_def Let_def w0_def split: if_splits)
  have t: "talks w w0" using opm_record_talks by (simp add: w0_def)
  have inv0: "scan_inv {} None w0" using scan_inv_talks [OF inv t] .
  have f: "SS w0 = SS w" "steady w w0" "SCANNERS w0 = SCANNERS w" using t by (simp_all add: talks_def talks_steady keeps_def frames_def)
  let ?ss = "ss\<lparr>ss_scans := ss_scans ss + 1\<rparr>"
  define w' where "w' = w1\<lparr>SS := (SS w)\<lparr>cells := (cells (SS w))(p \<mapsto> ?ss)\<rparr>\<rparr>"
  have u: "unat (ss_scans ss) < 65535" using ss(3) c(2) by simp
  have l: "links_ok {} None (SS w') (DS w') (map c_info (asked w')) (opm_active w')"
    using links_add_opm [OF scan_invD(7) [OF inv0] _ u, of p i] ss(1) f(1) by (simp add: w'_def w1 asked_def)
  have ok: "ss_ok ?ss" using ss(2) by (simp add: ss_ok_def)
  have "contents_ok (SS w')" using contents_upd [OF scan_invD(5) [OF inv] ok] by (simp add: w'_def)
  moreover have "indices_ok w'" using scan_invD(6) [OF inv0] i f(3) by (auto simp: indices_ok_def w'_def w1 blacklists_def)
  moreover have "static_ok w'" "cache_fine w'" "conns_ok w'" "lookups_ok w'" using scan_invD(1-4) [OF inv0]
    by (simp_all add: w'_def w1 static_ok_def cache_fine_def blacklists_def conns_ok_def fd_limit_def lookups_ok_def)
  ultimately have "scan_inv {} None w'" using l by (simp add: scan_inv_def)
  moreover have "unat (ss_scans ?ss) \<le> k + 1" using unat_inc [OF u] ss(3) by simp
  moreover have "idle (SS w') \<subseteq> {p}" using idle_upd_subset [of "SS w" p ?ss] c(1) by (auto simp: counting_def w'_def)
  ultimately have "counting p (k + 1) w'" using ok by (simp add: counting_def w'_def)
  moreover have "count_scan p w1 = Some w'" using ss_modify_eq [of w1 p ss "\<lambda>s. s\<lparr>ss_scans := ss_scans s + 1\<rparr>"] ss(1) f(1)
    by (simp add: count_scan_def w'_def w1)
  moreover have "steady w w'" using f(2) by (simp add: steady_def w'_def w1)
  ultimately show ?thesis by blast
qed

lemma opm_scan_cases:
  obtains w1 where "opm_scan i p w = (OPM_SUCCESS, w1)" | r w1 where "opm_scan i p w = (r, w1)" "r \<noteq> OPM_SUCCESS" "talks w w1"
  using opm_scan_refused [of i p w] by (cases "opm_scan i p w") metis

lemma connect_masks_inv:
  assumes "counting p k w" "k < 65535" "i < length (SCANNERS w)" "cstring m" "\<forall>msk \<in> set masks. mask_ok msk"
  shows "\<exists>w'. connect_masks i p m masks w = Some w' \<and> counting p (k + 1) w' \<and> steady w w'"
  using assms
proof (induction masks arbitrary: w)
  case Nil
  then show ?case using counting_mono [of p k w "k + 1"] by auto
next
  case (Cons msk masks)
  obtain b where b: "match msk m = Some b" using match_total [of msk m] Cons.prems(4,5) by (auto simp: mask_ok_def)
  show ?case
  proof (cases b)
    case False
    then show ?thesis using b Cons by simp
  next
    case True
    show ?thesis
    proof (rule opm_scan_cases [of i p w])
      fix w1 assume o: "opm_scan i p w = (OPM_SUCCESS, w1)"
      then show ?thesis using opm_scan_counted [OF Cons.prems(1-3) o] b True by simp
    next
      fix r w1 assume o: "opm_scan i p w = (r, w1)" "r \<noteq> OPM_SUCCESS" "talks w w1"
      have c1: "counting p k w1" "steady w w1" using counting_talks [OF Cons.prems(1) o(3)] talks_steady [OF o(3)] by simp_all
      have "\<exists>w'. connect_masks i p m masks w1 = Some w' \<and> counting p (k + 1) w' \<and> steady w1 w'"
        using Cons.prems c1 by (intro Cons.IH) (simp_all add: steady_def)
      then show ?thesis using o(1,2) c1 b True steady_trans [OF c1(2)] counting_mono [OF c1(1), of "k + 1"]
        by (cases r) auto
    qed
  qed
qed

lemma connect_scanners_inv:
  assumes "counting p k w" "k + length scss < 65536" "i + length scss \<le> length (SCANNERS w)" "cstring m"
    "\<forall>scs \<in> set scss. \<forall>msk \<in> set (scs_masks scs). mask_ok msk"
  shows "\<exists>w'. connect_scanners i p m scss w = Some w' \<and> counting p (k + length scss) w' \<and> steady w w'"
  using assms
proof (induction scss arbitrary: k i w)
  case (Cons scs scss)
  obtain w1 where w1: "connect_masks i p m (scs_masks scs) w = Some w1" "counting p (k + 1) w1" "steady w w1"
    using connect_masks_inv [OF Cons.prems(1), of i m "scs_masks scs"] Cons.prems by auto
  have "\<exists>w'. connect_scanners (i + 1) p m scss w1 = Some w' \<and> counting p (k + 1 + length scss) w' \<and> steady w1 w'"
    using Cons.prems w1(3) by (intro Cons.IH [OF w1(2)]) (simp_all add: steady_def)
  then show ?case using w1 steady_trans by fastforce
qed simp

section \<open>A user connects\<close>

lemma connect_skips_total:
  assumes "scan_inv {} None w"
  shows "\<exists>b. connect_skips ip w = Some b"
proof (cases "opt_negcache (OptionsItem (cfg w)) > 0")
  case True
  then have c: "cache_ok (nc_mem w, nc_head w)" using scan_invD(4) [OF assms] by (simp add: cache_fine_def)
  have z: "shift64 (envir w) = shift_zero" using scan_invD(8) [OF assms] by (simp add: env_ok_def)
  show ?thesis using check_neg_cache_spec [OF c True, of "clock w"] True z
    by (cases "sys_pton (envir w) ip") (auto simp: connect_skips_def Let_def)
qed (auto simp: connect_skips_def)

lemma user_mask_ok:
  assumes "good_str nick" "good_str username" "good_str host"
  shows "\<exists>m. format_buffer MSGLENMAX ''%s!%s@%s'' [Str nick, Str username, Str host] = Some m \<and> cstring m"
proof -
  have v: "vformat ''%s!%s@%s'' [Str nick, Str username, Str host] = Some (nick @ ''!'' @ username @ ''@'' @ host)"
    using assms by (simp add: fmt_simps good_str_def)
  have c: "cstring (nick @ ''!'' @ username @ ''@'' @ host)" using assms by (simp add: good_str_def)
  show ?thesis using format_buffer_eq [OF v c, of MSGLENMAX] c by (simp add: MSGLENMAX_def)
qed

lemma scan_checkexempt_total:
  assumes "cstring m" "cstring ipm" "\<forall>e \<in> set es. mask_ok e"
  shows "\<exists>b. scan_checkexempt m ipm es = Some b"
  using assms(3)
proof (induction es)
  case (Cons e es)
  have "\<exists>b. match e m = Some b" "\<exists>b. match e ipm = Some b"
    using match_total [of e] assms(1,2) Cons.prems by (auto simp: mask_ok_def)
  then show ?case using Cons by auto
qed auto

text \<open>A new structure, filled in at once.\<close>

lemma alloc_zero_inv:
  assumes q: "quiet w" and m: "MyMalloc (SS w) zero_ss = (p, m)"
  shows "quiet (w\<lparr>SS := m\<rparr>)" "cells m p = Some zero_ss"
proof -
  have i: "scan_inv {} None w" using q by (simp add: quiet_def)
  note a = links_alloc [OF scan_invD(7) [OF i] m]
  show c: "cells m p = Some zero_ss" using a by (simp add: zero_ss_def)
  have l: "links_ok {} None m (DS w) (map c_info (asked w)) (opm_active w)" and o: "\<forall>x. x \<noteq> p \<longrightarrow> cells m x = cells (SS w) x"
    using a by (simp_all add: zero_ss_def)
  have "contents_ok m" using scan_invD(5) [OF i] o c unfolding contents_ok_def by (metis option.inject)
  then have "scan_inv {} None (w\<lparr>SS := m\<rparr>)" using l by (intro scan_inv_frames [OF i]) (simp_all add: cache_fine_def)
  moreover have "idle m \<subseteq> idle (SS w)"
  proof
    fix x assume "x \<in> idle m"
    then show "x \<in> idle (SS w)" using o c by (cases "x = p") (auto simp: idle_def)
  qed
  ultimately show "quiet (w\<lparr>SS := m\<rparr>)" using q by (simp add: quiet_def)
qed

lemma fill_counting:
  assumes q: "quiet w" and p: "cells (SS w) p = Some zero_ss" and s: "ss_ok s" "ss_scans s = 0"
  shows "\<exists>w'. ss_put p s w = Some w' \<and> counting p 0 w' \<and> steady w w'"
proof -
  have i: "scan_inv {} None w" using q by (simp add: quiet_def)
  have "scan_inv {} None (w\<lparr>SS := (SS w)\<lparr>cells := (cells (SS w))(p \<mapsto> s)\<rparr>\<rparr>)"
    using scan_inv_modify [OF i p s(1)] s(2) by (simp add: zero_ss_def)
  then show ?thesis using p s q idle_upd_subset [of "SS w" p s] by (simp add: quiet_def ss_put_def mem_store_def counting_def steady_def)
qed

lemma counting_modify:
  assumes c: "counting p k w" and f: "\<And>s. ss_ok s \<Longrightarrow> ss_ok (f s)" "\<And>s. ss_scans (f s) = ss_scans s"
  shows "\<exists>w'. ss_modify p f w = Some w' \<and> counting p k w' \<and> steady w w'"
proof -
  obtain ss where ss: "cells (SS w) p = Some ss" "ss_ok ss" "unat (ss_scans ss) \<le> k" using c by (rule countingD)
  have i: "scan_inv {} None w" "idle (SS w) \<subseteq> {p}" using c by (simp_all add: counting_def)
  have "scan_inv {} None (w\<lparr>SS := (SS w)\<lparr>cells := (cells (SS w))(p \<mapsto> f ss)\<rparr>\<rparr>)"
    using scan_inv_modify [OF i(1) ss(1) f(1) [OF ss(2)] f(2)] .
  moreover have "idle ((SS w)\<lparr>cells := (cells (SS w))(p \<mapsto> f ss)\<rparr>) \<subseteq> {p}" using idle_upd_subset [of "SS w" p "f ss"] i(2) by auto
  ultimately show ?thesis using ss_modify_eq [OF ss(1), of f] ss f by (simp add: counting_def steady_def)
qed

lemma maybe_dnsbl_inv:
  assumes "counting p 0 w"
  shows "\<exists>w'. (if blacklists w \<noteq> [] then dnsbl_add p w else Some w) = Some w' \<and> counting p (length (blacklists w)) w' \<and> steady w w'"
  using dnsbl_add_inv [OF assms] assms by (cases "blacklists w = []") auto

lemma counting_bound: "counting p k w \<Longrightarrow> length (blacklists w) + length (SCANNERS w) < 65536"
  by (simp add: counting_def scan_inv_def static_ok_def)

text \<open>The set-up is over: the structure is freed when no test was started.\<close>

lemma counting_quiet: "counting p k w \<Longrightarrow> ss_get p w = Some ss \<Longrightarrow> ss_scans ss \<noteq> 0 \<Longrightarrow> quiet w"
  by (auto simp: counting_def quiet_def idle_def ss_get_eq)

lemma scan_free_steady: "scan_free p w = Some w' \<Longrightarrow> steady w w'"
  by (auto simp: scan_free_def steady_def split: if_splits)

lemma counting_free:
  assumes c: "counting p k w" and s: "ss_get p w = Some ss" "ss_scans ss = 0"
  shows "\<exists>w'. scan_free p w = Some w' \<and> quiet w'"
proof -
  obtain w' where "scan_free p w = Some w'" "scan_inv {} None w'" "cells (SS w') = (cells (SS w))(p := None)"
    using scan_free_inv [of "{}" w p ss] c s by (auto simp: counting_def ss_get_eq)
  then show ?thesis using c idle_free [of "SS w'" "SS w" p] by (auto simp: quiet_def counting_def)
qed

lemma counting_get:
  assumes "counting p k w"
  obtains ss where "ss_get p w = Some ss"
  using assms by (auto simp: counting_def ss_get_eq)

lemma finish_setup:
  assumes c: "counting p k w" and s: "ss_get p w = Some ss"
  shows "\<exists>w'. (if ss_scans ss = 0 then scan_free p w else Some w) = Some w' \<and> quiet w'"
  using counting_free [OF c s] counting_quiet [OF c s] by simp

definition user_ok :: "string \<times> string \<times> string \<times> string \<Rightarrow> bool" where
  "user_ok u = (case u of (nick, username, hostname, ip) \<Rightarrow> good_str nick \<and> good_str username \<and> good_str hostname \<and> good_str ip)"

lemma scan_create_inv:
  assumes i: "quiet w" and u: "user_ok user"
  shows "\<exists>p w'. scan_create user msg w = Some (p, w') \<and> counting p 0 w' \<and> steady w w'"
proof -
  obtain nick username hostname ip where us: "user = (nick, username, hostname, ip)" by (cases user)
  obtain p m where m: "MyMalloc (SS w) zero_ss = (p, m)" by fastforce
  define s where "s = \<lparr>ss_irc_nick = Some nick, ss_irc_username = Some username, ss_irc_hostname = Some hostname,
     ss_ip = Some ip, ss_proof = Some msg, ss_remote = Some (opm_remote_create ip), ss_scans = 0,
     ss_positive = 0, ss_manual_target = None\<rparr>"
  have "ss_ok s" "ss_scans s = 0" using u by (simp_all add: s_def ss_ok_def us user_ok_def)
  then show ?thesis using fill_counting [OF alloc_zero_inv(1) [OF i m], of p s] alloc_zero_inv(2) [OF i m] m
    by (auto simp: scan_create_def us s_def steady_def)
qed

lemma scan_connect_inv:
  assumes q: "quiet w" and u: "user_ok user"
  shows "\<exists>w'. scan_connect user msg w = Some w' \<and> quiet w' \<and> calm w w'"
proof -
  have i: "scan_inv {} None w" using q by (simp add: quiet_def)
  obtain nick username hostname ip where us: "user = (nick, username, hostname, ip)" by (cases user)
  have g: "good_str nick" "good_str username" "good_str hostname" "good_str ip" using u by (simp_all add: us user_ok_def)
  obtain skip where skip: "connect_skips ip w = Some skip" using connect_skips_total [OF i] by blast
  obtain m where m: "format_buffer MSGLENMAX ''%s!%s@%s'' [Str nick, Str username, Str hostname] = Some m" "cstring m"
    using user_mask_ok [OF g(1-3)] by blast
  obtain im where im: "format_buffer MSGLENMAX ''%s!%s@%s'' [Str nick, Str username, Str ip] = Some im" "cstring im"
    using user_mask_ok [OF g(1,2,4)] by blast
  obtain ex where ex: "scan_checkexempt m im (ExemptMasks (cfg w)) = Some ex"
    using scan_checkexempt_total [OF m(2) im(2), of "ExemptMasks (cfg w)"] scan_invD(9) [OF i] by (auto simp: conf_ok_def)
  obtain p w1 where w1: "scan_create user msg w = Some (p, w1)" "counting p 0 w1" "steady w w1"
    using scan_create_inv [OF q u] by blast
  let ?f = "\<lambda>s. s\<lparr>ss_remote := map_option (\<lambda>r. r\<lparr>rem_data := p\<rparr>) (ss_remote s)\<rparr>"
  obtain w2 where w2: "ss_modify p ?f w1 = Some w2" "counting p 0 w2" "steady w1 w2"
    using counting_modify [OF w1(2), of ?f] by (auto simp: ss_ok_def)
  obtain w3 where w3: "(if blacklists w2 \<noteq> [] then dnsbl_add p w2 else Some w2) = Some w3"
      "counting p (length (blacklists w2)) w3" "steady w2 w3" using maybe_dnsbl_inv [OF w2(2)] by blast
  have masks: "\<forall>scs \<in> set (SCANNERS w3). \<forall>msk \<in> set (scs_masks scs). mask_ok msk" using w3(2)
    by (simp add: counting_def scan_inv_def static_ok_def)
  have b: "length (blacklists w2) + length (SCANNERS w3) < 65536" using counting_bound [OF w3(2)] w3(3) by (simp add: steady_def blacklists_def)
  obtain w4 where w4: "connect_scanners 0 p m (SCANNERS w3) w3 = Some w4"
      "counting p (length (blacklists w2) + length (SCANNERS w3)) w4" "steady w3 w4"
    using connect_scanners_inv [OF w3(2) b _ m(2) masks, of 0] by auto
  obtain ss where ss: "ss_get p w4 = Some ss" using w4(2) by (rule counting_get)
  obtain w5 where w5: "(if ss_scans ss = 0 then scan_free p w4 else Some w4) = Some w5" "quiet w5"
    using finish_setup [OF w4(2) ss] by blast
  have "steady w4 w5" using w5(1) scan_free_steady by (cases "ss_scans ss = 0") auto
  then have k: "calm w w5"
    using steady_trans [OF w1(3) steady_trans [OF w2(3) steady_trans [OF w3(3) steady_trans [OF w4(3)]]]] by (blast intro: steady_calm)
  have "scan_connect user msg w = (if skip then Some w else if ex then Some w else Some w5)"
    using skip m(1) im(1) ex w1(1) w2(1) w3(1) w4(1) ss w5(1) by (simp add: scan_connect_def us [symmetric]) (simp add: us)
  then show ?thesis using q w5(2) k by (cases "skip \<or> ex") auto
qed

section \<open>A scan on request\<close>

lemma manual_scanner_inv:
  fixes w :: "'a scan_st_scheme"
  assumes "counting p k w" "k < 65535" "i < length (SCANNERS w)"
  shows "\<exists>w'. manual_scanner i p target scs w = Some w' \<and> counting p (k + 1) w' \<and> steady w w'"
proof -
  have get: "\<exists>ss. ss_get p w1 = Some ss" if "SS w1 = SS w" for w1 :: "'a scan_st_scheme" using assms(1) that by (auto simp: ss_get_eq counting_def)
  show ?thesis
  proof (rule opm_scan_cases [of i p w])
    fix w1 assume o: "opm_scan i p w = (OPM_SUCCESS, w1)"
    have "SS w1 = SS w" using o by (auto simp: opm_scan_def Let_def record_event_def)
    then show ?thesis using opm_scan_counted [OF assms o] get [of w1] o by (auto simp: manual_scanner_def)
  next
    fix r w1 assume o: "opm_scan i p w = (r, w1)" "r \<noteq> OPM_SUCCESS" "talks w w1"
    obtain ss where ss: "ss_get p w1 = Some ss" using get [of w1] o(3) by (auto simp: talks_def)
    have "\<exists>w'. (case r of OPM_ERR_NOPROTOCOLS \<Rightarrow> Some w1
        | OPM_ERR_BADADDR \<Rightarrow> irc_send ''PRIVMSG %s :OPM -> Bad address %s [%s]''
            [Str (chan_name target), ArgStr (ss_ip ss), Str (scs_name scs)] w1
        | OPM_ERR_OTHER \<Rightarrow> irc_send ''PRIVMSG %s :OPM -> Unknown error %s [%s]''
            [Str (chan_name target), ArgStr (ss_ip ss), Str (scs_name scs)] w1
        | OPM_SUCCESS \<Rightarrow> count_scan p w1) = Some w' \<and> talks w1 w'"
      using o(2) by (cases r) (simp_all add: irc_send_talks)
    then obtain w2 where "manual_scanner i p target scs w = Some w2" "talks w1 w2"
      using o(1) ss by (cases r) (auto simp: manual_scanner_def)
    then show ?thesis using talks_trans [OF o(3)] talks_steady counting_talks [OF assms(1)] counting_mono [of p k _ "k + 1"] by fastforce
  qed
qed

lemma manual_scanners_inv:
  assumes "counting p k w" "k + length scss < 65536" "i + length scss \<le> length (SCANNERS w)"
  shows "\<exists>w'. manual_scanners i p target name scss w = Some w' \<and> counting p (k + length scss) w' \<and> steady w w'"
  using assms
proof (induction scss arbitrary: k i w)
  case (Cons scs scss)
  show ?case
  proof (cases "case name of None \<Rightarrow> False | Some n \<Rightarrow> \<not> strcaseeq n (scs_name scs)")
    case True
    have "\<exists>w'. manual_scanners (i + 1) p target name scss w = Some w' \<and> counting p (k + length scss) w' \<and> steady w w'"
      using Cons.prems by (intro Cons.IH) simp_all
    then show ?thesis using True counting_mono [of p "k + length scss" _ "k + length (scs # scss)"] by auto
  next
    case False
    obtain w1 where w1: "manual_scanner i p target scs w = Some w1" "counting p (k + 1) w1" "steady w w1"
      using manual_scanner_inv [OF Cons.prems(1), of i target scs] Cons.prems by auto
    have "\<exists>w'. manual_scanners (i + 1) p target name scss w1 = Some w' \<and> counting p (k + 1 + length scss) w' \<and> steady w1 w'"
      using Cons.prems w1(3) by (intro Cons.IH [OF w1(2)]) (simp_all add: steady_def)
    then show ?thesis using False w1 steady_trans by fastforce
  qed
qed simp

lemma manual_none_inv:
  assumes c: "counting p k w" and z: "ss_get p w = Some ss" "ss_scans ss = 0"
  shows "\<exists>w'. manual_none p target name w = Some w' \<and> quiet w' \<and> steady w w'"
proof -
  have "\<exists>w1. (case name of None \<Rightarrow> Some w
      | Some n \<Rightarrow> irc_send (''PRIVMSG %s :CHECK -> No such scanner '' @ [CHR 0x27] @ ''%s'' @ [CHR 0x27] @ '', or '' @
          [CHR 0x27] @ ''%s'' @ [CHR 0x27] @ '' has 0 protocols.'') [Str (chan_name target), Str n, Str n] w) = Some w1 \<and> talks w w1"
    by (cases name) (simp_all add: irc_send_talks)
  then obtain w1 where w1: "(case name of None \<Rightarrow> Some w
      | Some n \<Rightarrow> irc_send (''PRIVMSG %s :CHECK -> No such scanner '' @ [CHR 0x27] @ ''%s'' @ [CHR 0x27] @ '', or '' @
          [CHR 0x27] @ ''%s'' @ [CHR 0x27] @ '' has 0 protocols.'') [Str (chan_name target), Str n, Str n] w) = Some w1" "talks w w1"
    by blast
  let ?t = "''PRIVMSG %s :CHECK -> No scans active on '' @ [CHR 0x27] @ ''%s'' @ [CHR 0x27] @ '', aborting scan.''"
  have "vformat ?t [Str (chan_name target), ArgStr (ss_ip ss)] \<noteq> None" by simp
  from irc_send_talks [OF this, of w1]
  obtain w2 where w2: "irc_send ?t [Str (chan_name target), ArgStr (ss_ip ss)] w1 = Some w2" "talks w1 w2" by blast
  have t: "talks w w2" using talks_trans [OF w1(2) w2(2)] .
  have "counting p k w2" "ss_get p w2 = Some ss" using counting_talks [OF c t] z(1) t by (auto simp: talks_def ss_get_eq)
  then have "\<exists>w3. scan_free p w2 = Some w3 \<and> quiet w3" using counting_free z(2) by blast
  then obtain w3 where "scan_free p w2 = Some w3" "quiet w3" by blast
  moreover have "steady w w3" using steady_trans [OF talks_steady [OF t] scan_free_steady] calculation(1) by blast
  ultimately show ?thesis using z(1) w1(1) w2(1) by (auto simp: manual_none_def)
qed

section \<open>Looking a host up\<close>

lemma resolve_lookups:
  assumes "conns_ok w" "lookups_ok w" "known_rcodes (envir w)" "t = 0 \<Longrightarrow> fdns_errno w < 10"
    and "resolve_tries t type name w = Some (r, w')" and n: "cstring name" "length name < 256"
  shows "lookups_ok w' \<and> fdns_errno w' < 10"
  using assms(1-5)
proof (induction t arbitrary: w)
  case 0
  then show ?case by (auto simp: lookups_ok_def fdns_consts split: if_splits)
next
  case (Suc t)
  obtain fd w1 where g: "firedns_getip type name NULL w = Some (fd, w1)" using Suc.prems(5) by (auto simp: bind_Some_iff)
  have sf: "sockets_fresh (envir w)" using Suc.prems(1) by (simp add: conns_ok_def)
  note spec = getip_spec [OF g sf]
  have l1: "lookups_ok w1" using spec Suc.prems(2) strncpy_buf_read [OF n] by (auto simp: lookups_ok_def)
  show ?case
  proof (cases "fd = -1")
    case True
    then show ?thesis using g Suc.prems(5) l1 spec by (auto simp: fdns_consts)
  next
    case False
    then obtain r2 w2 where g2: "firedns_getresult fd w1 = Some (r2, w2)" using g Suc.prems(5) by (auto simp: bind_Some_iff)
    have e1: "envir w1 = envir w" using spec by (auto simp: fdns_frame_fields)
    have ok2: "conns_ok w2" using getresult_conns_ok [OF getip_conns_ok [OF Suc.prems(1) g] False g2] .
    have "set (CONNECTIONS w2) \<subseteq> set (CONNECTIONS w1)" "envir w2 = envir w1"
      using getresult_spec [OF g2] by (auto simp: conn_remove_def fdns_frame_fields split: option.splits)
    then have 2: "lookups_ok w2" "known_rcodes (envir w2)" using l1 e1 Suc.prems(3) by (auto simp: lookups_ok_def)
    have e2: "fdns_errno w2 < 10" using getresult_errno [OF g2] e1 Suc.prems(3) by simp
    show ?thesis
    proof (cases "fdns_errno w2 = FDNS_ERR_NONE \<or> fdns_errno w2 = FDNS_ERR_NXDOMAIN")
      case True
      then show ?thesis using g g2 False Suc.prems(5) 2(1) e2 by (auto simp: bind_Some_iff split: if_splits)
    next
      case again: False
      then have "resolve_tries t type name w2 = Some (r, w')" using g g2 False Suc.prems(5) by simp
      then show ?thesis using Suc.IH [OF ok2 2] e2 by blast
    qed
  qed
qed

lemma dots_bounds: "\<forall>s \<in> set ss. cstring s \<and> length s \<le> k \<Longrightarrow> cstring (dots ss) \<and> length (dots ss) \<le> length ss * (k + 1)"
  by (induction ss rule: dots.induct) auto

lemma dots_dotted:
  assumes "length bs \<le> 4"
  shows "good_str (dotted bs)"
proof -
  have "unat b < 10 ^ Suc 2" for b :: uchar using unsigned_less [of b, where 'a = nat] by simp
  then have "\<forall>s \<in> set (map (\<lambda>b. num_str 10 False (unat b)) bs). cstring s \<and> length s \<le> 3"
    using num_str_length [of _ 10 2 False] num_str_cstring by fastforce
  from dots_bounds [OF this] show ?thesis using assms by (simp add: dotted_def good_str_def)
qed

lemma resolveip4_inv:
  assumes q: "quiet w" and n: "cstring host" "length host < 256"
  shows "\<exists>a w'. firedns_resolveip4 host w = Some (a, w') \<and> quiet w' \<and> fdns_frame w w' \<and>
    (case a of None \<Rightarrow> fdns_errno w' < 10 | Some bs \<Rightarrow> good_str (dotted bs))"
proof (cases "sys_aton (envir w) host")
  case (Some bs)
  have i: "scan_inv {} None w" using q by (simp add: quiet_def)
  have "length bs = 4" using Some scan_invD(8) [OF i] by (simp add: env_ok_def)
  then show ?thesis using Some q dots_dotted [of bs] by (simp add: firedns_resolveip4_def)
next
  case None
  have i: "scan_inv {} None w" using q by (simp add: quiet_def)
  note e = scan_invD(8) [OF i, unfolded env_ok_def]
  obtain t w' where r: "resolve_tries FIREDNS_TRIES FDNS_QRY_A host w = Some (t, w')"
    using resolve_total [OF scan_invD(1) [OF i] _ n, of FIREDNS_TRIES FDNS_QRY_A] e by fastforce
  have ok: "conns_ok w' \<and> fdns_frame w w' \<and> asked w' = asked w" using resolve_ok [OF scan_invD(1) [OF i] r] .
  have l: "lookups_ok w' \<and> fdns_errno w' < 10"
    using resolve_lookups [OF scan_invD(1,2) [OF i] _ _ r n] e by (auto simp: FIREDNS_TRIES_def)
  have "scan_inv {} None w'" using scan_invD(7) [OF i] ok l by (intro scan_inv_frame [OF i]) simp_all
  then have "quiet w'" using q frame_scan_fields(2) [of w w'] ok by (simp add: quiet_def)
  then show ?thesis using None r ok l dots_dotted
    by (cases t) (simp_all add: firedns_resolveip4_def firedns_resolveip_def)
qed

lemma manual_greet_talks: "\<exists>w'. manual_greet target ip name w = Some w' \<and> talks w w'"
  by (cases name) (simp_all add: manual_greet_def irc_send_talks)

text \<open>A parameter the operator may give: the host name to look up fits its buffer.\<close>

definition param_ok :: "string option \<Rightarrow> bool" where
  "param_ok param = (case param of None \<Rightarrow> True
     | Some s \<Rightarrow> cstring s \<and> length (takeWhile (\<lambda>c. c \<noteq> CHR '' '') s) < 256)"

lemma scan_manual_inv:
  assumes q: "quiet w" and n: "param_ok param"
  shows "\<exists>w'. scan_manual param target w = Some w' \<and> quiet w' \<and> steady w w'"
proof (cases param)
  case None
  then show ?thesis using irc_send_talks [of "''PRIVMSG %s :OPM -> Invalid parameters.''" "[Str (chan_name target)]" w] quiet_talks [OF q] talks_steady
    by (auto simp: scan_manual_def)
next
  case (Some s)
  define host where "host = takeWhile (\<lambda>c. c \<noteq> CHR '' '') s"
  define name where "name = map_option tl (strchr s (CHR '' ''))"
  have h: "cstring host" "length host < 256" using n by (auto simp: Some param_ok_def host_def cstring_def dest: set_takeWhileD)
  obtain p m where m: "MyMalloc (SS w) zero_ss = (p, m)" by fastforce
  have im: "quiet (w\<lparr>SS := m\<rparr>)" "cells m p = Some zero_ss" using alloc_zero_inv [OF q m] by simp_all
  obtain a w1 where r: "firedns_resolveip4 host (w\<lparr>SS := m\<rparr>) = Some (a, w1)" "quiet w1" "fdns_frame (w\<lparr>SS := m\<rparr>) w1"
      "case a of None \<Rightarrow> fdns_errno w1 < 10 | Some bs \<Rightarrow> good_str (dotted bs)"
    using resolveip4_inv [OF im(1) h] by blast
  have s1: "steady w w1" using frame_scan_fields [OF r(3)] by (simp add: steady_def)
  show ?thesis
  proof (cases a)
    case N: None
    have "firedns_strerror (fdns_errno w1) w1 \<noteq> None" using r(4) N by (simp add: firedns_strerror_def errors_def)
    then obtain err where err: "firedns_strerror (fdns_errno w1) w1 = Some err" by blast
    let ?t = "''PRIVMSG %s :CHECK -> Error resolving host '' @ [CHR 0x27] @ ''%s'' @ [CHR 0x27] @ '': %s''"
    have "vformat ?t [Str (chan_name target), Str host, Str err] \<noteq> None" by simp
    from irc_send_talks [OF this, of w1] show ?thesis
      using Some m r N err quiet_talks [OF r(2)] steady_trans [OF s1 talks_steady] by (auto simp: scan_manual_def host_def)
  next
    case B: (Some bs)
    define ss where "ss = zero_ss\<lparr>ss_ip := Some (dotted bs), ss_remote := Some ((opm_remote_create (dotted bs))\<lparr>rem_data := p\<rparr>),
      ss_manual_target := Some target\<rparr>"
    have p: "cells (SS w1) p = Some zero_ss" using im(2) frame_scan_fields(2) [OF r(3)] by simp
    have "ss_ok ss" "ss_scans ss = 0" using r(4) B by (simp_all add: ss_def ss_ok_def zero_ss_def)
    then obtain w2 where w2: "ss_put p ss w1 = Some w2" "counting p 0 w2" "steady w1 w2" using fill_counting [OF r(2) p] by blast
    obtain w3 where w3: "manual_greet target (dotted bs) name w2 = Some w3" "talks w2 w3" using manual_greet_talks by blast
    have c3: "counting p 0 w3" using counting_talks [OF w2(2) w3(2)] .
    obtain w4 where w4: "(if blacklists w3 \<noteq> [] then dnsbl_add p w3 else Some w3) = Some w4"
        "counting p (length (blacklists w3)) w4" "steady w3 w4" using maybe_dnsbl_inv [OF c3] by blast
    have b: "length (blacklists w3) + length (SCANNERS w4) < 65536" using counting_bound [OF w4(2)] w4(3) by (simp add: steady_def blacklists_def)
    obtain w5 where w5: "manual_scanners 0 p target name (SCANNERS w4) w4 = Some w5"
        "counting p (length (blacklists w3) + length (SCANNERS w4)) w5" "steady w4 w5" using manual_scanners_inv [OF w4(2) b, of 0] by auto
    have s5w: "steady w w5"
      using steady_trans [OF s1 steady_trans [OF w2(3) steady_trans [OF talks_steady [OF w3(2)] steady_trans [OF w4(3) w5(3)]]]] .
    obtain ss5 where s5: "ss_get p w5 = Some ss5" using w5(2) by (auto simp: ss_get_eq counting_def)
    have "scan_manual param target w = (if ss_scans ss5 = 0 then manual_none p target name w5 else Some w5)"
      using Some m r B w2(1) w3(1) w4(1) w5(1) s5
      by (simp add: scan_manual_def host_def [symmetric] name_def [symmetric] ss_def [symmetric])
    then show ?thesis using manual_none_inv [OF w5(2) s5, of target name] counting_quiet [OF w5(2) s5] s5w steady_trans [OF s5w]
      by (cases "ss_scans ss5 = 0") fastforce+
  qed
qed

section \<open>Callbacks\<close>

lemma scan_log_talks:
  assumes "cells (SS w) p = Some ss" "ss_ok ss"
  shows "\<exists>w'. scan_log p w = Some w' \<and> talks w w'"
proof -
  have "talks w (record_event (Scanlog a b c d) w)" for a b c d by (simp add: talks_def keeps_def frames_def record_event_def open_fds_record)
  then show ?thesis using assms by (auto simp: scan_log_def ss_get_eq ss_ok_def)
qed

lemma dnsbl_report_talks:
  assumes "cells (SS w) p = Some ss" "ss_ok ss"
  shows "\<exists>w'. dnsbl_report p w = Some w' \<and> talks w w'"
proof -
  let ?fmt = "''From: %s <%s>'' @ newline @ ''To: %s'' @ newline @ ''Subject: BOPM Report'' @ newline @ ''X-BOPM-Version: %s'' @ newline @ newline @
          ''%s: %s:%d'' @ newline @ newline @ ''%s'' @ newline"
  obtain remote where r: "ss_remote ss = Some remote" using assms(2) by (auto simp: ss_ok_def)
  let ?args = "[Str (irc_nick (IRCItem (cfg w))), Str (opm_dnsbl_from (OpmItem (cfg w))), Str (opm_dnsbl_to (OpmItem (cfg w))),
     Str (VERSION (envir w)), Str (scan_gettype (rem_protocol remote)), ArgStr (ss_ip ss), ArgInt (of_int (rem_port remote)), ArgStr (ss_proof ss)]"
  have "vformat ?fmt ?args \<noteq> None" by (simp add: newline_def)
  from format_buffer_total [OF this, of 4096] obtain buf where buf: "format_buffer 4096 ?fmt ?args = Some buf" by auto
  obtain cmd where cmd: "format_buffer 512 ''%s -t'' [Str (opm_sendmail (OpmItem (cfg w)))] = Some cmd"
    using format_buffer_total [of "''%s -t''" "[Str (opm_sendmail (OpmItem (cfg w)))]" 512] by auto
  let ?t = "''I was trying to create a pipe to'' @ [CHR 0x27] @ ''%s'' @ [CHR 0x27] @
           '' to send a DNSBL report, and it failed! I'' @ [CHR 0x27] @ ''ll give up for now.''"
  have "vformat ?t [Str cmd] \<noteq> None" by simp
  then obtain w1 where w1: "irc_send_channels ?t [Str cmd] w = Some w1" "talks w w1" using irc_send_channels_talks by blast
  have "talks w (stats_dnsblsend (record_event (Mail a b) w))" for a b
    by (simp add: talks_def keeps_def frames_def record_event_def open_fds_record stats_dnsblsend_def)
  then show ?thesis using assms(1) r buf cmd w1 by (auto simp: dnsbl_report_def ss_get_eq Let_def)
qed

lemma stats_openproxy_inv: "quiet w \<Longrightarrow> quiet (stats_openproxy t w)"
  by (erule quiet_talks) (simp add: talks_def keeps_def frames_def stats_openproxy_def)

text \<open>A scan the library knows has a structure in use.\<close>

lemma active_ok:
  assumes i: "scan_inv {} None w" and a: "(n, p) \<in> set (opm_active w)"
  shows "\<exists>ss. cells (SS w) p = Some ss \<and> ss_ok ss"
proof -
  have "p \<in> targets None (DS w) (map c_info (asked w)) (opm_active w)" using a by (force simp: targets_def)
  then obtain ss where ss: "cells (SS w) p = Some ss" using scan_invD(7) [OF i] by (auto simp: links_ok_def)
  have "refs p (DS w) (map c_info (asked w)) (opm_active w) \<noteq> 0"
    using a by (force simp: refs_def filter_empty_conv)
  then have "unat (ss_scans ss) \<noteq> 0" using links_count [OF scan_invD(7) [OF i] ss] by simp
  then have "ss \<noteq> zero_ss" by (auto simp: zero_ss_def)
  then show ?thesis using ss scan_invD(5) [OF i] by (auto simp: contents_ok_def)
qed

lemma scan_type_good: "good_str (scan_gettype t)"
  by (cases t) (simp_all add: scan_gettype_def scan_types_def good_str_def)

lemma scan_open_proxy_inv:
  assumes q: "quiet w" and s: "cells (SS w) p = Some ss" "ss_ok ss"
  shows "\<exists>w'. scan_open_proxy n p w = Some w' \<and> quiet w' \<and> calm w w'"
proof -
  obtain w1 where w1: "scan_log p w = Some w1" "talks w w1" using scan_log_talks [OF s] by blast
  have q1: "quiet w1" using quiet_talks [OF q w1(2)] .
  then have i1: "scan_inv {} None w1" by (simp add: quiet_def)
  have s1: "cells (SS w1) p = Some ss" using w1(2) s(1) by (simp add: talks_def)
  obtain remote where r: "ss_remote ss = Some remote" using s(2) by (auto simp: ss_ok_def)
  define name where "name = scs_name (SCANNERS w1 ! n)"
  define type where "type = scan_gettype (rem_protocol remote)"
  define port where "port = ArgInt (of_int (rem_port remote))"
  have "\<exists>w'. (case ss_manual_target ss of
             None \<Rightarrow> do {
               w \<leftarrow> scan_positive p (irc_kline (IRCItem (cfg w1))) type w1;
               w \<leftarrow> dnsbl_report p w;
               irc_send_channels ''OPEN PROXY -> %s!%s@%s %s:%d (%s) [%s]''
                 [ArgStr (ss_irc_nick ss), ArgStr (ss_irc_username ss), ArgStr (ss_irc_hostname ss), Str (rem_ip remote), port,
                  Str type, Str name] w }
           | Some target \<Rightarrow>
               irc_send ''PRIVMSG %s :CHECK -> OPEN PROXY %s:%d (%s) [%s]''
                 [Str (chan_name target), Str (rem_ip remote), port, Str type, Str name] w1) = Some w' \<and> quiet w' \<and> calm w1 w'"
    (is "\<exists>w'. ?body = Some w' \<and> _")
  proof (cases "ss_manual_target ss")
    case None
    have k: "kline_ok (irc_kline (IRCItem (cfg w1)))" using scan_invD(9) [OF i1] by (simp add: conf_ok_def)
    obtain w2 where w2: "scan_positive p (irc_kline (IRCItem (cfg w1))) type w1 = Some w2" "quiet w2" "keeps w1 w2"
        "cells (SS w2) p = Some (ss\<lparr>ss_positive := if ss_positive ss = 0 then 1 else ss_positive ss\<rparr>)"
      using scan_positive_inv [OF i1 s1 s(2) None k, of type] scan_type_good quiet_keeps [OF q1] by (auto simp: type_def)
    have o2: "ss_ok (ss\<lparr>ss_positive := if ss_positive ss = 0 then 1 else ss_positive ss\<rparr>)" using s(2) by (simp add: ss_ok_def)
    obtain w3 where w3: "dnsbl_report p w2 = Some w3" "talks w2 w3" using dnsbl_report_talks [OF w2(4) o2] by blast
    obtain w4 where w4: "irc_send_channels ''OPEN PROXY -> %s!%s@%s %s:%d (%s) [%s]''
        [ArgStr (ss_irc_nick ss), ArgStr (ss_irc_username ss), ArgStr (ss_irc_hostname ss), Str (rem_ip remote), port,
         Str type, Str name] w3 = Some w4" "talks w3 w4"
      using irc_send_channels_talks [of "''OPEN PROXY -> %s!%s@%s %s:%d (%s) [%s]''" "[ArgStr (ss_irc_nick ss),
        ArgStr (ss_irc_username ss), ArgStr (ss_irc_hostname ss), Str (rem_ip remote), port, Str type, Str name]" w3]
      by (auto simp: port_def)
    show ?thesis using None w2(1) w3(1) w4(1) quiet_talks [OF w2(2) talks_trans [OF w3(2) w4(2)]]
      calm_trans [OF keeps_calm [OF w2(3)] keeps_calm [OF talks_keeps [OF talks_trans [OF w3(2) w4(2)]]]] by simp
  next
    case (Some target)
    then show ?thesis using irc_send_talks [of "''PRIVMSG %s :CHECK -> OPEN PROXY %s:%d (%s) [%s]''"
        "[Str (chan_name target), Str (rem_ip remote), port, Str type, Str name]" w1] quiet_talks [OF q1]
        keeps_calm [OF talks_keeps] by (auto simp: port_def)
  qed
  then obtain w5 where w5: "?body = Some w5" "quiet w5" "calm w1 w5" by blast
  have "scan_open_proxy n p w = ?body \<bind> (\<lambda>w. Some (stats_openproxy (rem_protocol remote) w))"
    using w1(1) s1 r by (cases "ss_manual_target ss") (simp_all add: scan_open_proxy_def ss_get_eq name_def type_def port_def Let_def)
  moreover have "calm w5 (stats_openproxy (rem_protocol remote) w5)" by (simp add: calm_def stats_openproxy_def)
  ultimately show ?thesis using w5 stats_openproxy_inv calm_trans [OF calm_trans [OF keeps_calm [OF talks_keeps [OF w1(2)]] w5(3)]] by simp
qed

lemma scan_handle_error_talks:
  assumes "cells (SS w) p = Some ss" "ss_ok ss"
  shows "\<exists>w'. scan_handle_error n p err w = Some w' \<and> talks w w'"
proof -
  obtain remote where r: "ss_remote ss = Some remote" using assms(2) by (auto simp: ss_ok_def)
  show ?thesis using assms(1) r
    by (cases err; cases "ss_manual_target ss") (simp_all add: scan_handle_error_def ss_get_eq irc_send_talks)
qed

lemma taken_inv:
  assumes i: "scan_inv {} None w" and a: "(n, p) \<in> set (opm_active w)"
  shows "scan_inv {} (Some p) (w\<lparr>opm_active := remove1 (n, p) (opm_active w)\<rparr>)"
proof -
  let ?w = "w\<lparr>opm_active := remove1 (n, p) (opm_active w)\<rparr>"
  have "indices_ok ?w" using scan_invD(6) [OF i] by (auto simp: indices_ok_def blacklists_def dest: notin_set_remove1)
  then show ?thesis
    using i links_take_opm [OF scan_invD(7) [OF i] a]
    by (simp add: scan_inv_def static_ok_def cache_fine_def blacklists_def conns_ok_def fd_limit_def lookups_ok_def asked_def)
qed

lemma scan_end_inv:
  assumes q: "quiet w" and a: "(n, p) \<in> set (opm_active w)"
  shows "\<exists>w'. scan_end n p (w\<lparr>opm_active := remove1 (n, p) (opm_active w)\<rparr>) = Some w' \<and> quiet w' \<and> calm w w'"
  using scan_done_inv [OF taken_inv [OF _ a]] q by (auto simp: scan_end_def quiet_def keeps_def frames_def calm_def)

lemma opm_call_inv:
  assumes q: "quiet w" and a: "(n, p) \<in> set (opm_active w)"
  shows "\<exists>w'. opm_call n p rep cb w = Some w' \<and> quiet w' \<and> calm w w'"
proof -
  have i: "scan_inv {} None w" using q by (simp add: quiet_def)
  obtain ss where ss: "cells (SS w) p = Some ss" "ss_ok ss" using active_ok [OF i a] by blast
  let ?f = "\<lambda>s. s\<lparr>ss_remote := map_option (\<lambda>r. r\<lparr>rem_port := rep_port rep, rem_protocol := rep_protocol rep,
       rem_bytes_read := rep_bytes_read rep\<rparr>) (ss_remote s)\<rparr>"
  define w1 where "w1 = w\<lparr>SS := (SS w)\<lparr>cells := (cells (SS w))(p \<mapsto> ?f ss)\<rparr>\<rparr>"
  have m: "set_remote p rep w = Some w1" using ss_modify_eq [OF ss(1), of ?f] by (simp add: set_remote_def w1_def)
  have o: "ss_ok (?f ss)" using ss(2) by (simp add: ss_ok_def)
  have "scan_inv {} None w1" unfolding w1_def by (rule scan_inv_modify [OF i ss(1) o]) simp
  moreover have "idle (SS w1) \<subseteq> idle (SS w)" using idle_modify [OF ss(1) ss_ok_nonzero [OF ss(2)], of "?f ss"] by (simp add: w1_def)
  ultimately have q1: "quiet w1" using q by (simp add: quiet_def)
  have s1: "cells (SS w1) p = Some (?f ss)" "(n, p) \<in> set (opm_active w1)" using a by (simp_all add: w1_def)
  have k: "calm w w1" by (simp add: w1_def calm_def)
  show ?thesis
  proof (cases cb)
    case Open_proxy
    then show ?thesis using m scan_open_proxy_inv [OF q1 s1(1) o] calm_trans [OF k] by (fastforce simp: opm_call_def)
  next
    case Ended
    then show ?thesis using m scan_end_inv [OF q1 s1(2)] calm_trans [OF k] by (fastforce simp: opm_call_def)
  next
    case (Failed err)
    then show ?thesis using m scan_handle_error_talks [OF s1(1) o] quiet_talks [OF q1] calm_trans [OF k keeps_calm [OF talks_keeps]]
      by (fastforce simp: opm_call_def)
  qed (use m scan_log_talks [OF s1(1) o] quiet_talks [OF q1] calm_trans [OF k keeps_calm [OF talks_keeps]] in
    \<open>fastforce simp: opm_call_def scan_negotiation_failed_def scan_timeout_def\<close>)+
qed

section \<open>The timer\<close>

lemma scan_timer_inv:
  assumes q: "quiet w"
  shows "\<exists>w'. scan_timer w = Some w' \<and> quiet w' \<and> calm w w'"
proof -
  have i: "scan_inv {} None w" using q by (simp add: quiet_def)
  have upd: "quiet (w\<lparr>nc_head := h, nc_mem := m, nc_counter := c\<rparr>)"
    if "opt_negcache (OptionsItem (cfg w)) > 0 \<Longrightarrow> cache_ok (m, h)" for h m c
    using scan_inv_frames [OF i, of "w\<lparr>nc_head := h, nc_mem := m, nc_counter := c\<rparr>" "{}" None] scan_invD [OF i] that q
    by (simp add: quiet_def frames_def cache_fine_def)
  show ?thesis
  proof (cases "opt_negcache (OptionsItem (cfg w)) > 0")
    case True
    then have c: "cache_ok (nc_mem w, nc_head w)" using scan_invD(4) [OF i] by (simp add: cache_fine_def)
    have z: "shift64 (envir w) = shift_zero" using scan_invD(8) [OF i] by (simp add: env_ok_def)
    obtain h m where "negcache_rebuild shift_zero (opt_negcache (OptionsItem (cfg w))) (nc_mem w) (nc_head w) (clock w) = Some (h, m)"
        "cache_ok (m, h)"
      using cache_rebuild_spec [OF c, of "opt_negcache (OptionsItem (cfg w))" "clock w"] by (auto simp: cache_rebuild_def)
    moreover have "quiet (w\<lparr>nc_counter := nc_counter w + 1\<rparr>)"
      using upd [of "nc_mem w" "nc_head w" "nc_counter w + 1"] c by simp
    ultimately show ?thesis using upd z True by (auto simp: scan_timer_def Let_def calm_def)
  qed (use q in \<open>auto simp: scan_timer_def Let_def\<close>)
qed

end
