(* ===== verification/Scan_Run.thy ===== *)
theory Scan_Run
  imports Scan_Safe
begin

text \<open>
  The scanner, the blacklists and the resolver as one state machine: users connect, an operator asks
  for a scan, the library reports, the resolver and the timer get their turn, time passes.  The
  properties hold in every state such a run can reach.
\<close>

section \<open>Runs\<close>

datatype scan_action =
    Connect "string \<times> string \<times> string \<times> string" string
  | Manual "string option" channel_conf
  | Callback nat ptr opm_report opm_callback
  | Dns_cycle
  | Timer
  | Tick int

definition scan_step :: "scan_action \<Rightarrow> 'a scan_st_scheme \<Rightarrow> 'a scan_st_scheme option" where
  "scan_step a w =
     (case a of
        Connect user msg \<Rightarrow> scan_connect user msg w
      | Manual param target \<Rightarrow> scan_manual param target w
      | Callback i p rep cb \<Rightarrow> opm_call i p rep cb w
      | Dns_cycle \<Rightarrow> dnsbl_cycle w
      | Timer \<Rightarrow> scan_timer w
      | Tick now \<Rightarrow> Some (w\<lparr>clock := now\<rparr>))"

text \<open>What can happen: strings end, a host name to look up fits its buffer, the library reports on
  scans it has accepted.\<close>

definition offered :: "scan_action \<Rightarrow> 'a scan_st_scheme \<Rightarrow> bool" where
  "offered a w \<longleftrightarrow>
     (case a of
        Connect user msg \<Rightarrow> user_ok user
      | Manual param target \<Rightarrow> param_ok param
      | Callback i p rep cb \<Rightarrow> (i, p) \<in> set (opm_active w)
      | _ \<Rightarrow> True)"

inductive scan_runs :: "scan_st \<Rightarrow> scan_st \<Rightarrow> bool" for w0 where
  start: "scan_runs w0 w0"
| step: "scan_runs w0 w \<Longrightarrow> offered a w \<Longrightarrow> scan_step a w = Some w' \<Longrightarrow> scan_runs w0 w'"

text \<open>The initialisations of \<open>config_setup\<close>; the arguments of the last are the lines of the
  resolver's two files.\<close>

definition scan_boot ::
  "int \<Rightarrow> env \<Rightarrow> conf \<Rightarrow> string list option \<Rightarrow> string list option \<Rightarrow> scan_st init_result option" where
  "scan_boot now e c pref fbck = do {
     w \<leftarrow> scan_init (scan_globals now e c);
     Some (firedns_init pref fbck (stats_init w)) }"

definition setting_ok :: "env \<Rightarrow> conf \<Rightarrow> bool" where
  "setting_ok e c \<longleftrightarrow> conf_ok c \<and> env_ok e \<and> sockets_fresh e \<and> opt_dns_fdlimit (OptionsItem c) < 2 ^ 32 \<and>
     (\<forall>u \<in> set (UserItemList c). \<forall>m \<in> set (user_masks u). mask_ok m) \<and>
     length (opm_blacklists (OpmItem c)) + length (ScannerItemList c) < 65536"

section \<open>Every reachable state is quiet\<close>

lemma quiet_upd [simp]:
  "quiet (w\<lparr>clock := now\<rparr>) = quiet w" "quiet (w\<lparr>STATS_UPTIME := u\<rparr>) = quiet w" "quiet (w\<lparr>servers4 := ss\<rparr>) = quiet w"
  by (simp_all add: quiet_def scan_inv_def cache_fine_def conns_ok_def fd_limit_def lookups_ok_def indices_ok_def
      static_ok_def blacklists_def asked_def)

lemma init_quiet:
  assumes "setting_ok e c"
  shows "\<exists>w. scan_init (scan_globals now e c) = Some w \<and> quiet w \<and> CONNECTIONS w = []"
proof -
  define w where "w = (scan_globals now e c)\<lparr>SCANNERS := map (\<lambda>sc. \<lparr>scs_name = sc_name sc,
      scs_masks = concat (map (user_scanner_masks (sc_name sc)) (UserItemList c))\<rparr>) (ScannerItemList c)\<rparr>"
  have g: "cfg w = c" "envir w = e" "CONNECTIONS w = []" "fdns_fdinuse w = 0" "out w = []" "SS w = mem_empty" "DS w = mem_empty"
      "nc_mem w = mem_empty" "nc_head w = NULL" "opm_active w = []" "conn_brk w = 1"
    by (simp_all add: w_def scan_globals_def fdns_globals_def stats_globals_def net_init_def net.defs fdns.defs stats.defs scan_st.defs)
  have "conns_ok w" using assms g by (simp add: conns_ok_def conns_inv_def fd_limit_def setting_ok_def)
  moreover have "lookups_ok w" "contents_ok (SS w)" "indices_ok w" "idle (SS w) = {}"
    using g by (simp_all add: lookups_ok_def contents_ok_def indices_ok_def idle_def mem_empty_def)
  moreover have "static_ok w" using assms g
    by (auto simp: static_ok_def setting_ok_def blacklists_def w_def user_scanner_masks_def split: if_splits)
  moreover have "links_ok {} None (SS w) (DS w) (map c_info (asked w)) (opm_active w)"
    using g by (simp add: links_ok_def asked_def ds_shape_def targets_def counted_def) (simp add: mem_empty_def)
  ultimately have q: "quiet (w\<lparr>nc_head := h, nc_mem := m\<rparr>)" if "opt_negcache (OptionsItem c) > 0 \<Longrightarrow> cache_ok (m, h)" for h m
    using that g by (simp add: quiet_def scan_inv_def cache_fine_def conns_ok_def fd_limit_def lookups_ok_def indices_ok_def
        static_ok_def blacklists_def asked_def)
  obtain h m where c: "nc_init mem_empty NULL = Some (h, m)" "cache_ok (m, h)" using cache_init_spec by (auto simp: cache_init_def)
  have cw: "cfg (scan_globals now e c) = c" using g(1) by (simp add: w_def)
  have eq: "scan_init (scan_globals now e c) = (if opt_negcache (OptionsItem c) > 0
      then map_option (\<lambda>(h, m). w\<lparr>nc_head := h, nc_mem := m\<rparr>) (nc_init (nc_mem w) (nc_head w)) else Some w)"
    using cw by (simp add: scan_init_def w_def o_def Let_def)
  have "quiet w" if "\<not> opt_negcache (OptionsItem c) > 0" using q [of "nc_mem w" "nc_head w"] that by simp
  then show ?thesis using q [of m h] c eq g by (cases "opt_negcache (OptionsItem c) > 0") auto
qed

lemma boot_quiet:
  assumes "setting_ok e c" "scan_boot now e c pref fbck = Some (Returned w0)"
  shows "quiet w0"
proof -
  obtain w where w: "scan_init (scan_globals now e c) = Some w" "quiet w" "CONNECTIONS w = []" using init_quiet [OF assms(1)] by blast
  have "\<exists>ss. w0 = (stats_init w)\<lparr>CONNECTIONS := [], servers4 := ss\<rparr>"
    using assms(2) w(1) by (auto simp: scan_boot_def firedns_init_def Let_def split: option.splits if_splits)
       (intro exI [of _ "[]"], simp)
  moreover have "(stats_init w)\<lparr>CONNECTIONS := [], servers4 := ss\<rparr> = w\<lparr>STATS_UPTIME := clock w\<rparr>\<lparr>servers4 := ss\<rparr>" for ss
    using w(3) by (simp add: stats_init_def)
  ultimately show ?thesis using w(2) by auto
qed

lemma step_calm:
  assumes "quiet w" "offered a w" "\<And>now. a \<noteq> Tick now"
  shows "\<exists>w'. scan_step a w = Some w' \<and> quiet w' \<and> calm w w'"
proof (cases a)
  case (Connect user msg)
  then show ?thesis using assms scan_connect_inv [OF assms(1), of user msg] by (simp add: scan_step_def offered_def)
next
  case (Manual param target)
  then show ?thesis using assms scan_manual_inv [OF assms(1), of param target] by (auto simp: scan_step_def offered_def intro: steady_calm)
next
  case (Callback i p rep cb)
  then show ?thesis using assms opm_call_inv [OF assms(1), of i p rep cb] by (simp add: scan_step_def offered_def)
qed (use assms dnsbl_cycle_inv [OF assms(1)] scan_timer_inv [OF assms(1)] in \<open>simp_all add: scan_step_def\<close>)

lemma step_quiet:
  assumes "quiet w" "offered a w"
  shows "\<exists>w'. scan_step a w = Some w' \<and> quiet w'"
proof (cases "\<exists>now. a = Tick now")
  case True
  then show ?thesis using assms(1) by (auto simp: scan_step_def)
next
  case False
  then show ?thesis using step_calm [OF assms] by blast
qed

lemma runs_quiet: "scan_runs w0 w \<Longrightarrow> quiet w0 \<Longrightarrow> quiet w"
  by (induction rule: scan_runs.induct) (use step_quiet in fastforce)+

lemma boot_runs_quiet:
  "setting_ok e c \<Longrightarrow> scan_boot now e c pref fbck = Some (Returned w0) \<Longrightarrow> scan_runs w0 w \<Longrightarrow> quiet w"
  using boot_quiet runs_quiet by blast

section \<open>The end of a scan\<close>

text \<open>How many tests of a scan are under way: proxy tests of the library and blacklist queries.\<close>

definition pending :: "ptr \<Rightarrow> 'a scan_st_scheme \<Rightarrow> nat" where
  "pending p w = length (filter (\<lambda>x. snd x = p) (opm_active w)) +
     length (filter (\<lambda>c. c_info c \<noteq> NULL \<and> map_option ds_ss (cells (DS w) (c_info c)) = Some p) (CONNECTIONS w))"

lemma pending_refs: "pending p w = refs p (DS w) (map c_info (asked w)) (opm_active w)"
  by (simp add: pending_def refs_def asked_def filter_map o_def conj_commute)

lemma quiet_counted:
  assumes "quiet w" "cells (SS w) p = Some ss"
  shows "unat (ss_scans ss) = pending p w" "ss = zero_ss \<or> 0 < pending p w"
proof -
  show n: "unat (ss_scans ss) = pending p w"
    using links_count [OF scan_invD(7), of "{}" None w p ss] assms by (simp add: quiet_def pending_refs owed_def)
  have "ss_scans ss \<noteq> 0 \<or> ss = zero_ss" using assms by (auto simp: quiet_def idle_def)
  then show "ss = zero_ss \<or> 0 < pending p w" using n by (metis gr0I unat_eq_zero)
qed

text \<open>A user's scan whose last test ends without a result enters its address into the cache.\<close>

lemma scan_conclude_cached:
  assumes i: "scan_inv D q w" and s: "cells (SS w) p = Some ss" "ss_manual_target ss = None" "ss_positive ss = 0"
    and n: "0 < opt_negcache (OptionsItem (cfg w))" and b: "ss_ip ss = Some ip" "sys_pton (envir w) ip = Some bs"
  shows "\<exists>m. scan_conclude p ss w = Some (w\<lparr>nc_mem := m\<rparr>) \<and>
    cache_map (m, nc_head w) = (cache_map (nc_mem w, nc_head w))(ucast (s_addr bs) \<mapsto> clock w)"
proof -
  have c: "cache_ok (nc_mem w, nc_head w)" using scan_invD(4) [OF i] n by (simp add: cache_fine_def)
  have z: "shift64 (envir w) = shift_zero" using scan_invD(8) [OF i] by (simp add: env_ok_def)
  obtain m where "negcache_insert_ip shift_zero (nc_mem w) (nc_head w) (clock w) (ucast (s_addr bs)) = Some m"
      "cache_map (m, nc_head w) = (cache_map (nc_mem w, nc_head w))(ucast (s_addr bs) \<mapsto> clock w)"
    using cache_insert_spec [OF c, of "clock w" "ucast (s_addr bs)"] by (auto simp: cache_insert_def)
  then show ?thesis using s n b z by (intro exI [of _ m]) (simp add: scan_conclude_def scan_negative_def ss_get_eq negcache_insert_def)
qed

lemma scan_free_eq: "scan_free p w = Some w' \<Longrightarrow> p \<noteq> NULL \<Longrightarrow> \<exists>m. w' = w\<lparr>SS := m\<rparr>"
  by (auto simp: scan_free_def)

lemma scan_done_cached:
  assumes i: "scan_inv D (Some p) w" and s: "cells (SS w) p = Some ss" "ss_manual_target ss = None" "ss_positive ss = 0"
    and n: "0 < opt_negcache (OptionsItem (cfg w))" and b: "ss_ip ss = Some ip" "sys_pton (envir w) ip = Some bs"
    and l: "ss_scans ss = 1" and d: "scan_done p w = Some w'"
  shows "steady w w' \<and> cache_map (nc_mem w', nc_head w') = (cache_map (nc_mem w, nc_head w))(ucast (s_addr bs) \<mapsto> clock w)"
proof -
  define ss' where "ss' = ss\<lparr>ss_scans := 0\<rparr>"
  define w1 where "w1 = w\<lparr>SS := (SS w)\<lparr>cells := (cells (SS w))(p \<mapsto> ss')\<rparr>\<rparr>"
  have m: "ss_modify p (\<lambda>s. s\<lparr>ss_scans := ss_scans s - 1\<rparr>) w = Some w1" using ss_modify_eq [OF s(1)] l by (simp add: w1_def ss'_def)
  have ok: "ss_ok ss'" using owed_ok [OF i] s by (auto simp: ss'_def ss_ok_def)
  have i1: "scan_inv D None w1"
    using links_done [OF scan_invD(7) [OF i] s(1)] contents_upd [OF scan_invD(5) [OF i] ok] l
    by (intro scan_inv_frames [OF i]) (simp_all add: w1_def ss'_def cache_fine_def)
  have s1: "cells (SS w1) p = Some ss'" by (simp add: w1_def)
  have p: "p \<noteq> NULL" using mem_wf_null [OF links_wf(1) [OF scan_invD(7) [OF i]]] s(1) by (cases "p = 0") auto
  have "ss_manual_target ss' = None" "ss_positive ss' = 0" "ss_ip ss' = Some ip" using s b by (simp_all add: ss'_def)
  then obtain c where c: "scan_conclude p ss' w1 = Some (w1\<lparr>nc_mem := c\<rparr>)"
      "cache_map (c, nc_head w) = (cache_map (nc_mem w, nc_head w))(ucast (s_addr bs) \<mapsto> clock w)"
    using scan_conclude_cached [OF i1 s1, of ip bs] n b(2) by (auto simp: w1_def)
  have "scan_free p (w1\<lparr>nc_mem := c\<rparr>) = Some w'" using d m s1 c(1) by (simp add: scan_done_def scan_checkfinished_def ss_get_eq ss'_def)
  then obtain m2 where "w' = w1\<lparr>nc_mem := c, SS := m2\<rparr>" using scan_free_eq p by fastforce
  then show ?thesis using c(2) by (simp add: w1_def steady_def)
qed

text \<open>What the end of a test amounts to: the remote structure is filled in, the library forgets the
  test, and it is counted down.\<close>

lemma ended_done:
  assumes q: "quiet w" and a: "(i, p) \<in> set (opm_active w)" and s: "cells (SS w) p = Some ss"
  shows "\<exists>r w1. scan_step (Callback i p rep Ended) w = scan_done p w1 \<and> scan_inv {} (Some p) w1 \<and>
    cells (SS w1) = (cells (SS w))(p \<mapsto> ss\<lparr>ss_remote := r\<rparr>) \<and> steady w w1 \<and>
    opm_active w1 = remove1 (i, p) (opm_active w) \<and> CONNECTIONS w1 = CONNECTIONS w"
proof -
  have i: "scan_inv {} None w" using q by (simp add: quiet_def)
  have ok: "ss_ok ss" using active_ok [OF i a] s by auto
  define r where "r = map_option (\<lambda>r. r\<lparr>rem_port := rep_port rep, rem_protocol := rep_protocol rep,
       rem_bytes_read := rep_bytes_read rep\<rparr>) (ss_remote ss)"
  define w0 where "w0 = w\<lparr>SS := (SS w)\<lparr>cells := (cells (SS w))(p \<mapsto> ss\<lparr>ss_remote := r\<rparr>)\<rparr>\<rparr>"
  define w1 where "w1 = w0\<lparr>opm_active := remove1 (i, p) (opm_active w0)\<rparr>"
  have "set_remote p rep w = Some w0" using ss_modify_eq [OF s] by (simp add: set_remote_def w0_def r_def)
  then have e: "scan_step (Callback i p rep Ended) w = scan_done p w1" by (simp add: scan_step_def opm_call_def scan_end_def w1_def)
  have "ss_ok (ss\<lparr>ss_remote := r\<rparr>)" using ok by (simp add: ss_ok_def r_def)
  then have i0: "scan_inv {} None w0" unfolding w0_def by (rule scan_inv_modify [OF i s]) simp
  have "(i, p) \<in> set (opm_active w0)" using a by (simp add: w0_def)
  then have "scan_inv {} (Some p) w1" unfolding w1_def by (rule taken_inv [OF i0])
  then show ?thesis using e by (intro exI [of _ r] exI [of _ w1]) (simp add: w1_def w0_def steady_def)
qed

section \<open>A setting\<close>

text \<open>A system that hands out a new descriptor each time, and a configuration with a blacklist, a
  scanner for everybody and a negative cache.\<close>

definition next_fd :: "event list \<Rightarrow> int" where
  "next_fd t = foldl (\<lambda>n e. case e of Dns_socket fd \<Rightarrow> max n (fd + 1) | _ \<Rightarrow> n) 1 t"

definition env_live :: env where
  "env_live = env_fine\<lparr>dns_socket := next_fd, shift64 := shift_zero\<rparr>"

definition sample_conf :: conf where
  "sample_conf = config_init_setup\<lparr>
     OptionsItem := (OptionsItem config_init_setup)\<lparr>opt_negcache := 3600\<rparr>,
     OpmItem := (OpmItem config_init_setup)\<lparr>opm_blacklists := [\<lparr>bl_name = ''opm.example.net'', bl_kline = [], bl_type = A_REPLY,
       bl_ban_unknown = False, bl_reply = [\<lparr>reply_number = 2, reply_type = ''Open proxy''\<rparr>], bl_stats_recv = 0\<rparr>]\<rparr>,
     UserItemList := [\<lparr>user_masks = [''*!*@*''], user_scanners = [''default'']\<rparr>],
     ScannerItemList := [\<lparr>sc_name = ''default'', sc_protocols = [\<lparr>proto_type = OPM_TYPE_HTTP, proto_port = 8080\<rparr>], sc_vhost = [],
       sc_fd = 512, sc_target_ip = ''192.0.2.1'', sc_target_port = 6667, sc_timeout = 30, sc_max_read = 4096, sc_target_string = []\<rparr>]\<rparr>"

lemma next_fd_fresh:
  assumes "\<forall>fd \<in> S. fd < n" "1 \<le> n"
  shows "\<forall>fd \<in> foldl fds_step S t. fd < foldl (\<lambda>n e. case e of Dns_socket fd \<Rightarrow> max n (fd + 1) | _ \<Rightarrow> n) n t"
    "1 \<le> foldl (\<lambda>n e. case e of Dns_socket fd \<Rightarrow> max n (fd + 1) | _ \<Rightarrow> n) n t"
proof -
  let ?f = "\<lambda>n e. case e of Dns_socket fd \<Rightarrow> max n (fd + 1) | _ \<Rightarrow> (n :: int)"
  have "(\<forall>fd \<in> foldl fds_step S t. fd < foldl ?f n t) \<and> 1 \<le> foldl ?f n t"
    using assms
  proof (induction t arbitrary: S n)
    case (Cons e t)
    have "\<forall>fd \<in> fds_step S e. fd < ?f n e" using Cons.prems by (cases e) (simp_all, force+)
    moreover have "1 \<le> ?f n e" using Cons.prems by (cases e) auto
    ultimately show ?case using Cons.IH [of "fds_step S e" "?f n e"] by simp
  qed simp
  then show "\<forall>fd \<in> foldl fds_step S t. fd < foldl ?f n t" "1 \<le> foldl ?f n t" by simp_all
qed

lemma sample_ok: "setting_ok env_live sample_conf"
proof -
  have "sockets_fresh env_live" unfolding sockets_fresh_def
  proof
    fix t
    have "\<forall>fd \<in> open_fds t. fd < next_fd t" "1 \<le> next_fd t" using next_fd_fresh [of "{}" 1 t] by (simp_all add: next_fd_def open_fds_def)
    then show "dns_socket env_live t = -1 \<or> 0 < dns_socket env_live t \<and> dns_socket env_live t \<notin> open_fds t"
      by (auto simp: env_live_def)
  qed
  moreover have "env_ok env_live"
    by (simp add: env_ok_def env_live_def env_fine_def recv_bounded_def known_rcodes_def)
  moreover have "kline_ok (irc_kline (IRCItem sample_conf))"
    by (simp add: kline_ok_def sample_conf_def config_init_setup_def cstring_def)
  ultimately show ?thesis
    by (auto simp: setting_ok_def conf_ok_def bl_ok_def good_str_def mask_ok_def sample_conf_def config_init_setup_def cstring_def
        dnsbl_text_def strncpy_buf_read)
qed

definition sample_start :: scan_st where
  "sample_start = (case scan_boot 1000 env_live sample_conf None None of Some (Returned w) \<Rightarrow> w | _ \<Rightarrow> scan_globals 0 env_live sample_conf)"

definition sample_user :: "string \<times> string \<times> string \<times> string" where
  "sample_user = (''nick'', ''user'', ''host.example.org'', ''127.0.0.1'')"


definition plain_conf :: conf where
  "plain_conf = sample_conf\<lparr>OpmItem := OpmItem config_init_setup\<rparr>"

lemma plain_ok: "setting_ok env_live plain_conf"
  using sample_ok by (simp add: setting_ok_def conf_ok_def plain_conf_def config_init_setup_def)

definition plain_start :: scan_st where
  "plain_start = (case scan_boot 1000 env_live plain_conf None None of Some (Returned w) \<Rightarrow> w | _ \<Rightarrow> scan_globals 0 env_live plain_conf)"

lemma plain_boot: "scan_boot 1000 env_live plain_conf None None = Some (Returned plain_start)"
proof -
  obtain w where "scan_init (scan_globals 1000 env_live plain_conf) = Some w" using init_quiet [OF plain_ok] by blast
  then show ?thesis by (simp add: plain_start_def scan_boot_def firedns_init_def Let_def)
qed

lemma plain_start_fields:
  "quiet plain_start" "envir plain_start = env_live" "cfg plain_start = plain_conf" "clock plain_start = 1000" "opm_active plain_start = []"
  "SCANNERS plain_start = [\<lparr>scs_name = ''default'', scs_masks = [''*!*@*'']\<rparr>]" "SS plain_start = mem_empty" "CONNECTIONS plain_start = []"
  "cache_map (nc_mem plain_start, nc_head plain_start) = [0 \<mapsto> 0]"
proof -
  show "quiet plain_start" using boot_quiet [OF plain_ok plain_boot] .
  obtain h m where c: "nc_init mem_empty NULL = Some (h, m)" "cache_map (m, h) = [0 \<mapsto> 0]" using cache_init_spec by (auto simp: cache_init_def)
  have g: "cfg (scan_globals n e c) = c" "nc_mem (scan_globals n e c) = mem_empty" "nc_head (scan_globals n e c) = NULL"
    "envir (scan_globals n e c) = e" "clock (scan_globals n e c) = n" "opm_active (scan_globals n e c) = []" "SS (scan_globals n e c) = mem_empty" for n e c
    by (simp_all add: scan_globals_def fdns_globals_def stats_globals_def net_init_def net.defs fdns.defs stats.defs scan_st.defs)
  show "envir plain_start = env_live" "cfg plain_start = plain_conf" "clock plain_start = 1000" "opm_active plain_start = []"
    "SCANNERS plain_start = [\<lparr>scs_name = ''default'', scs_masks = [''*!*@*'']\<rparr>]" "SS plain_start = mem_empty" "CONNECTIONS plain_start = []"
    "cache_map (nc_mem plain_start, nc_head plain_start) = [0 \<mapsto> 0]"
    using c by (simp_all add: plain_start_def scan_boot_def scan_init_def firedns_init_def stats_init_def Let_def g plain_conf_def sample_conf_def
        config_init_setup_def user_scanner_masks_def)
qed

lemma plain_mask: "format_buffer MSGLENMAX ''%s!%s@%s'' [Str ''nick'', Str ''user'', Str ''host.example.org''] = Some ''nick!user@host.example.org''"
  "format_buffer MSGLENMAX ''%s!%s@%s'' [Str ''nick'', Str ''user'', Str ''127.0.0.1''] = Some ''nick!user@127.0.0.1''"
  using format_buffer_eq [of "''%s!%s@%s''" "[Str ''nick'', Str ''user'', Str ''host.example.org'']" "''nick!user@host.example.org''" MSGLENMAX]
    format_buffer_eq [of "''%s!%s@%s''" "[Str ''nick'', Str ''user'', Str ''127.0.0.1'']" "''nick!user@127.0.0.1''" MSGLENMAX]
  by (simp_all add: fmt_simps MSGLENMAX_def)

lemma plain_match: "match ''*!*@*'' ''nick!user@host.example.org'' = Some True"
  by code_simp

lemma plain_skips: "connect_skips ''127.0.0.1'' plain_start = Some False"
proof -
  have q: "scan_inv {} None plain_start" using plain_start_fields(1) by (simp add: quiet_def)
  have n: "opt_negcache (OptionsItem plain_conf) = 3600" by (simp add: plain_conf_def sample_conf_def)
  have c: "cache_ok (nc_mem plain_start, nc_head plain_start)"
    using scan_invD(4) [OF q] n plain_start_fields(3) by (simp add: cache_fine_def)
  have a: "ucast (s_addr [127, 0, 0, 1]) = (16777343 :: ulong)" by (simp add: s_addr_def)
  show ?thesis using check_neg_cache_spec [OF c, of 3600 1000 16777343] n plain_start_fields(2,3,4,9)
    by (auto simp: connect_skips_def env_live_def env_fine_def a)
qed

lemma plain_connect:
  "\<exists>w ss. scan_step (Connect sample_user ''*'') plain_start = Some w \<and> opm_active w = [(0, 1)] \<and> CONNECTIONS w = [] \<and> cells (SS w) 1 = Some ss \<and>
    ss_scans ss = 1 \<and> ss_manual_target ss = None \<and> ss_positive ss = 0 \<and> ss_ip ss = Some ''127.0.0.1'' \<and> cfg w = plain_conf \<and>
    envir w = env_live \<and> clock w = 1000"
  using plain_start_fields plain_mask plain_match plain_skips
  by (simp add: scan_step_def sample_user_def scan_connect_def scan_create_def MyMalloc_def mem_empty_def ss_put_def mem_store_def ss_modify_def ss_get_def
      mem_load_def blacklists_def plain_conf_def sample_conf_def config_init_setup_def opm_scan_def record_event_def env_live_def env_fine_def count_scan_def Let_def)

section \<open>Properties\<close>





text \<open>C5: When the library reports the end of a test, the scan's counter goes down by one; with
  the last test the structure is freed, and nothing else is.\<close>

theorem scan_end_frees_last:
  assumes "setting_ok e c" "scan_boot now e c pref fbck = Some (Returned w0)" "scan_runs w0 w" "(i, p) \<in> set (opm_active w)"
  shows "\<exists>ss w'. cells (SS w) p = Some ss \<and> scan_step (Callback i p rep Ended) w = Some w' \<and>
    (if pending p w = 1 then cells (SS w') = (cells (SS w))(p := None)
     else pending p w' = pending p w - 1 \<and> dom (cells (SS w')) = dom (cells (SS w)))"
proof -
  have q: "quiet w" using boot_runs_quiet [OF assms(1-3)] .
  obtain ss where ss: "cells (SS w) p = Some ss" "ss_ok ss" using active_ok [OF _ assms(4)] q by (auto simp: quiet_def)
  obtain r w1 where w1: "scan_step (Callback i p rep Ended) w = scan_done p w1" "scan_inv {} (Some p) w1"
      "cells (SS w1) = (cells (SS w))(p \<mapsto> ss\<lparr>ss_remote := r\<rparr>)" using ended_done [OF q assms(4) ss(1)] by blast
  have s1: "cells (SS w1) p = Some (ss\<lparr>ss_remote := r\<rparr>)" using w1(3) by simp
  obtain w' where w': "scan_done p w1 = Some w'"
      "if ss_scans ss = 1 then cells (SS w') = (cells (SS w1))(p := None)
       else cells (SS w') = (cells (SS w1))(p \<mapsto> ss\<lparr>ss_remote := r, ss_scans := ss_scans ss - 1\<rparr>)"
    using scan_done_spec [OF w1(2) s1] by auto
  have q': "quiet w'" using step_quiet [OF q, of "Callback i p rep Ended"] assms(4) w1(1) w'(1) by (auto simp: offered_def)
  have n: "unat (ss_scans ss) = pending p w" "0 < pending p w" using quiet_counted [OF q ss(1)] ss_ok_nonzero [OF ss(2)] by auto
  have one: "ss_scans ss = 1 \<longleftrightarrow> pending p w = 1" using n(1) by (simp add: word_unat_eq_iff)
  have "pending p w' = pending p w - 1 \<and> dom (cells (SS w')) = dom (cells (SS w))" if "pending p w \<noteq> 1"
    using quiet_counted(1) [OF q', of p] w'(2) w1(3) n one that unat_dec [of "ss_scans ss"] ss(1) by auto
  then show ?thesis using ss(1) w1(1,3) w' one by auto
qed

theorem scan_end_frees_last_witness:
  "\<exists>w w'. scan_step (Connect sample_user ''*'') plain_start = Some w \<and>
     scan_step (Callback 0 1 \<lparr>rep_port = 8080, rep_protocol = OPM_TYPE_HTTP, rep_bytes_read = 0\<rparr> Ended) w = Some w'"
proof -
  have o: "offered (Connect sample_user ''*'') plain_start" by (simp add: offered_def user_ok_def sample_user_def good_str_def)
  obtain w where w: "scan_step (Connect sample_user ''*'') plain_start = Some w" "(0, 1) \<in> set (opm_active w)"
    using plain_connect by auto
  have r: "scan_runs plain_start w" using step [OF start o w(1)] .
  show ?thesis using scan_end_frees_last [OF plain_ok plain_boot r w(2)] w(1) by blast
qed



text \<open>C7: In every reachable state the resolver has no more descriptors open than the
  configuration allows: the counter \<open>fdns_fdinuse\<close> is the number of queries that have a socket, and
  their descriptors are open and all different.\<close>

theorem dns_descriptors_bounded:
  assumes "setting_ok e c" "scan_boot now e c pref fbck = Some (Returned w0)" "scan_runs w0 w"
  shows "let sent = filter (\<lambda>q. c_fd q \<noteq> -1) (CONNECTIONS w) in
    unat (fdns_fdinuse w) = length sent \<and> length sent \<le> opt_dns_fdlimit (OptionsItem (cfg w)) \<and>
    distinct (map c_fd sent) \<and> c_fd ` set sent \<subseteq> open_fds (out w)"
proof -
  have "conns_ok w" using boot_runs_quiet [OF assms] scan_invD(1) by (auto simp: quiet_def)
  then show ?thesis by (auto simp: conns_ok_def conns_inv_def fd_limit_def Let_def)
qed

theorem dns_descriptors_bounded_witness:
  "length (filter (\<lambda>q. c_fd q \<noteq> -1) (CONNECTIONS plain_start)) \<le> opt_dns_fdlimit (OptionsItem (cfg plain_start))"
  using dns_descriptors_bounded [OF plain_ok plain_boot start] by (simp add: Let_def)

text \<open>C4: Nothing is leaked by scans that were set up: once the library has reported every end
  and no blacklist query is open, no query structure is allocated, and the scan structures that
  are left are those \<open>scan_manual\<close> forgot.\<close>

theorem scans_all_freed:
  assumes "setting_ok e c" "scan_boot now e c pref fbck = Some (Returned w0)" "scan_runs w0 w"
    and "opm_active w = []" "\<forall>q \<in> set (CONNECTIONS w). c_info q = NULL"
  shows "cells (DS w) = Map.empty \<and> ran (cells (SS w)) \<subseteq> {zero_ss}"
proof -
  have q: "quiet w" using boot_runs_quiet [OF assms(1-3)] .
  have a: "asked w = []" using assms(5) by (simp add: asked_def)
  have "ds_shape {} (DS w) (map c_info (asked w))" using q scan_invD(7) [of "{}" None w] by (simp add: quiet_def links_ok_def)
  then have "dom (cells (DS w)) = {}" using a by (simp add: ds_shape_def)
  then have "cells (DS w) = Map.empty" by simp
  moreover have "pending p w = 0" for p using a assms(4) by (simp add: pending_refs refs_def)
  ultimately show ?thesis using quiet_counted(2) [OF q] by (fastforce simp: ran_def)
qed

theorem scans_all_freed_witness:
  "\<exists>w w'. scan_step (Connect sample_user ''*'') plain_start = Some w \<and> cells (SS w) 1 \<noteq> None \<and>
     scan_step (Callback 0 1 \<lparr>rep_port = 8080, rep_protocol = OPM_TYPE_HTTP, rep_bytes_read = 0\<rparr> Ended) w = Some w' \<and>
     ran (cells (SS w')) \<subseteq> {zero_ss}"
proof -
  let ?c = "Callback 0 1 \<lparr>rep_port = 8080, rep_protocol = OPM_TYPE_HTTP, rep_bytes_read = 0\<rparr> Ended"
  have o: "offered (Connect sample_user ''*'') plain_start" by (simp add: offered_def user_ok_def sample_user_def good_str_def)
  obtain w ss where w: "scan_step (Connect sample_user ''*'') plain_start = Some w" "opm_active w = [(0, 1)]" "CONNECTIONS w = []"
      "cells (SS w) 1 = Some ss" using plain_connect by blast
  have r: "scan_runs plain_start w" using step [OF start o w(1)] .
  have q: "quiet w" using boot_runs_quiet [OF plain_ok plain_boot r] .
  have a: "(0, 1) \<in> set (opm_active w)" using w(2) by simp
  obtain w1 where w1: "scan_step ?c w = scan_done 1 w1" "scan_inv {} (Some 1) w1" "opm_active w1 = []" "CONNECTIONS w1 = []"
    using ended_done [OF q a w(4), of "\<lparr>rep_port = 8080, rep_protocol = OPM_TYPE_HTTP, rep_bytes_read = 0\<rparr>"] w(2,3) by auto
  obtain w' where w': "scan_done 1 w1 = Some w'" "keeps w1 w'" using scan_done_inv [OF w1(2)] by blast
  have "offered ?c w" using a by (simp add: offered_def)
  then have r': "scan_runs plain_start w'" using step [OF r _ , of ?c w'] w1(1) w'(1) by simp
  have e: "opm_active w' = []" "CONNECTIONS w' = []" using w'(2) w1(3,4) by (simp_all add: keeps_def frames_def)
  show ?thesis using scans_all_freed [OF plain_ok plain_boot r' e(1)] e(2) w(1,4) w1(1) w'(1) by auto
qed

end
