(* ===== verification/Opercmd.thy ===== *)
theory Opercmd
  imports Scan_Run
begin

text \<open>
  opercmd.c: the commands operators give in a channel.  A command is queued when it is read; the
  server is then asked who sent it, and its reply decides whether the command is run.  The queue is
  a list of commands, told apart by their addresses; it does not exist before \<open>command_init\<close>.
\<close>

lemma takeWhile_stop: "c \<notin> set u \<Longrightarrow> takeWhile (\<lambda>x. x \<noteq> c) (u @ c # r) = u"
  by (induction u) auto

section \<open>State\<close>

text \<open>The \<open>struct UserInfo\<close> of irc.h.\<close>

record user_info =
  ui_nick :: string
  ui_username :: string
  ui_hostname :: string

record command =
  cmd_key :: nat
  cmd_type :: ushort
  cmd_param :: "string option"
  cmd_nick :: string
  cmd_target :: channel_conf
  cmd_added :: int

record oper_st = scan_st +
  COMMANDS :: "command list option"
  cmd_brk :: nat
  cmd_interval :: ushort

definition command_init :: "'a oper_st_scheme \<Rightarrow> 'a oper_st_scheme" where
  "command_init w = (if COMMANDS w = None then w\<lparr>COMMANDS := Some []\<rparr> else w)"

text \<open>What \<open>fdstats_output\<close> learns from the system.\<close>

record fd_answers =
  fd_fuel :: nat
  fd_dup :: "nat \<Rightarrow> nat \<Rightarrow> dup_result"
  fd_rlim :: "string + uint"

section \<open>Handlers\<close>

definition cmd_check :: "string option \<Rightarrow> string \<Rightarrow> channel_conf \<Rightarrow> 'a scan_st_scheme \<Rightarrow> 'a scan_st_scheme option" where
  "cmd_check param source target w = scan_manual param target w"

definition cmd_stat :: "string option \<Rightarrow> string \<Rightarrow> channel_conf \<Rightarrow> 'a scan_st_scheme \<Rightarrow> 'a scan_st_scheme option" where
  "cmd_stat param source target w = stats_output (chan_name target) w"

definition cmd_fdstat ::
  "fd_answers \<Rightarrow> string option \<Rightarrow> string \<Rightarrow> channel_conf \<Rightarrow> 'a scan_st_scheme \<Rightarrow> 'a scan_st_scheme option" where
  "cmd_fdstat fa param source target w = fdstats_output (fd_fuel fa) (fd_dup fa) (fd_rlim fa) (chan_name target) w"

datatype oper_command = Cmd_check | Cmd_stat | Cmd_fdstat

definition OPER_TABLE :: "(string \<times> oper_command) list" where
  "OPER_TABLE = [(''CHECK'', Cmd_check), (''SCAN'', Cmd_check), (''STAT'', Cmd_stat), (''STATS'', Cmd_stat),
     (''STATUS'', Cmd_stat), (''FDSTAT'', Cmd_fdstat)]"

definition command_run :: "fd_answers \<Rightarrow> command \<Rightarrow> 'a scan_st_scheme \<Rightarrow> 'a scan_st_scheme option" where
  "command_run fa cs w =
     (let i = unat (cmd_type cs) in
      if i < length OPER_TABLE then
        (case snd (OPER_TABLE ! i) of
           Cmd_check \<Rightarrow> cmd_check (cmd_param cs) (cmd_nick cs) (cmd_target cs) w
         | Cmd_stat \<Rightarrow> cmd_stat (cmd_param cs) (cmd_nick cs) (cmd_target cs) w
         | Cmd_fdstat \<Rightarrow> cmd_fdstat fa (cmd_param cs) (cmd_nick cs) (cmd_target cs) w)
      else None)"

section \<open>The queue\<close>

definition command_create ::
  "ushort \<Rightarrow> string option \<Rightarrow> string \<Rightarrow> channel_conf \<Rightarrow> 'a oper_st_scheme \<Rightarrow> command \<times> 'a oper_st_scheme" where
  "command_create type param nick target w =
     (\<lparr>cmd_key = cmd_brk w, cmd_type = type, cmd_param = param, cmd_nick = nick, cmd_target = target, cmd_added = clock w\<rparr>,
      w\<lparr>cmd_brk := Suc (cmd_brk w)\<rparr>)"

text \<open>\<open>command_free\<close>, \<open>list_remove\<close> and \<open>node_free\<close> on one command.\<close>

definition command_remove :: "command \<Rightarrow> 'a oper_st_scheme \<Rightarrow> 'a oper_st_scheme" where
  "command_remove cs w = w\<lparr>COMMANDS := map_option (filter (\<lambda>c. cmd_key c \<noteq> cmd_key cs)) (COMMANDS w)\<rparr>"

definition command_add :: "command \<Rightarrow> 'a oper_st_scheme \<Rightarrow> 'a oper_st_scheme" where
  "command_add cs w = w\<lparr>COMMANDS := map_option (\<lambda>q. q @ [cs]) (COMMANDS w)\<rparr>"

text \<open>The loop over the table: every entry with the name is queued.\<close>

fun command_lookup ::
  "ushort \<Rightarrow> (string \<times> oper_command) list \<Rightarrow> string \<Rightarrow> string \<Rightarrow> string \<Rightarrow> channel_conf \<Rightarrow> 'a oper_st_scheme \<Rightarrow> 'a oper_st_scheme" where
  "command_lookup i [] command param nick target w = w"
| "command_lookup i ((name, h) # table) command param nick target w =
     (let w = (if strcaseeq command name
               then let (cs, w) = command_create i (Some param) nick target w in command_add cs w
               else w)
      in command_lookup (i + 1) table command param nick target w)"

definition command_parse ::
  "string \<Rightarrow> string \<Rightarrow> channel_conf \<Rightarrow> user_info \<Rightarrow> 'a oper_st_scheme \<Rightarrow> 'a oper_st_scheme option" where
  "command_parse command msg target source_p w = do {
     q \<leftarrow> COMMANDS w;
     if length q \<ge> COMMANDMAX then Some w
     else (case strchr command (CHR '' '') of
             None \<Rightarrow> Some w
           | Some r \<Rightarrow>
               let command = tl r;
                   param = (case strchr command (CHR '' '') of None \<Rightarrow> [] | Some r \<Rightarrow> tl r);
                   command = takeWhile (\<lambda>c. c \<noteq> CHR '' '') command
               in irc_send ''USERHOST %s'' [Str (ui_nick source_p)]
                    (command_lookup 0 OPER_TABLE command param (ui_nick source_p) target w)) }"

section \<open>Time\<close>

fun timer_loop :: "int \<Rightarrow> command list \<Rightarrow> 'a oper_st_scheme \<Rightarrow> 'a oper_st_scheme" where
  "timer_loop present [] w = w"
| "timer_loop present (cs # rest) w =
     (if present - cmd_added cs > COMMANDTIMEOUT then timer_loop present rest (command_remove cs w) else w)"

definition command_timer :: "'a oper_st_scheme \<Rightarrow> 'a oper_st_scheme option" where
  "command_timer w =
     (let due = \<not> unat (cmd_interval w) < COMMANDINTERVAL;
          w = w\<lparr>cmd_interval := cmd_interval w + 1\<rparr>
      in if \<not> due then Some w
         else do {
           q \<leftarrow> COMMANDS w;
           Some (timer_loop (clock w) q (w\<lparr>cmd_interval := 0\<rparr>)) })"

section \<open>The reply of the server\<close>

fun userhost_loop :: "fd_answers \<Rightarrow> bool \<Rightarrow> string \<Rightarrow> command list \<Rightarrow> 'a oper_st_scheme \<Rightarrow> 'a oper_st_scheme option" where
  "userhost_loop fa oper reply [] w = Some w"
| "userhost_loop fa oper reply (cs # rest) w =
     (if cmd_nick cs = reply then do {
        w \<leftarrow> (if oper then command_run fa cs w else Some w);
        userhost_loop fa oper reply rest (command_remove cs w) }
      else userhost_loop fa oper reply rest w)"

text \<open>
  The reply is cut in place at the equals sign, or at the asterisk before it.  When it begins with
  the sign, the code looks at the byte before the reply, \<open>before\<close>; if that were an asterisk,
  the cut would be made there and the reply compared as it is.
\<close>

definition command_userhost :: "fd_answers \<Rightarrow> char \<Rightarrow> string \<Rightarrow> 'a oper_st_scheme \<Rightarrow> 'a oper_st_scheme option" where
  "command_userhost fa before reply w =
     (if CHR ''='' \<notin> set reply then Some w
      else
        let u = takeWhile (\<lambda>c. c \<noteq> CHR ''='') reply;
            oper = (last (before # u) = CHR ''*'');
            reply = (if \<not> oper then u else if u = [] then reply else butlast u)
        in do {
          q \<leftarrow> COMMANDS w;
          userhost_loop fa oper reply q w })"

section \<open>Running a command\<close>

lemma stats_bl_lines_talks: "\<exists>w'. stats_bl_lines target bls w = Some w' \<and> talks w (w' :: 'a scan_st_scheme)"
proof (induction bls arbitrary: w)
  case (Cons bl bls)
  obtain w1 where w1: "irc_send ''PRIVMSG %s :DNSBL: %u successful lookups from %s''
      [Str target, ArgInt (bl_stats_recv bl), Str (bl_name bl)] w = Some w1" "talks w w1"
    using irc_send_talks [of "''PRIVMSG %s :DNSBL: %u successful lookups from %s''"
        "[Str target, ArgInt (bl_stats_recv bl), Str (bl_name bl)]" w] by auto
  then show ?case using Cons [of w1] Cons [of w] talks_trans [OF w1(2)] by fastforce
qed simp

lemma stats_proxy_lines_talks: "\<exists>w'. stats_proxy_lines target ps w = Some w' \<and> talks w (w' :: 'a scan_st_scheme)"
proof (induction ps arbitrary: w)
  case (Cons p ps)
  obtain t n name where p: "p = (t, n, name)" by (cases p)
  obtain w1 where w1: "irc_send ''PRIVMSG %s :Found %u (%s) open.'' [Str target, ArgInt n, Str name] w = Some w1" "talks w w1"
    using irc_send_talks [of "''PRIVMSG %s :Found %u (%s) open.''" "[Str target, ArgInt n, Str name]" w] by auto
  then show ?case using Cons [of w1] Cons [of w] talks_trans [OF w1(2)] by (fastforce simp: p)
qed simp

definition uptime_ok :: "'a scan_st_scheme \<Rightarrow> bool" where
  "uptime_ok w \<longleftrightarrow> 0 \<le> clock w - STATS_UPTIME w \<and> clock w - STATS_UPTIME w < 31536000 * 2 ^ 31"

lemma dissect_time_total:
  assumes "0 \<le> t" "t < 31536000 * 2 ^ 31"
  shows "\<exists>s. dissect_time (replicate 64 NUL) t = Some s"
proof -
  obtain y w d h m s :: int where p: "y < 2 ^ 31" "w < 53" "d < 7" "h < 24" "m < 60" "s < 60"
    "split_time t = words (nat y) (nat w) (nat d) (nat h) (nat m) (nat s)"
    by (rule time_parts [OF assms]) blast
  have "nat y < 2 ^ 31" "nat w < 100" "nat d < 100" "nat h < 100" "nat m < 100" "nat s < 100" using p by simp_all
  then show ?thesis using dissect_time_text [of "nat y" "nat w" "nat d" "nat h" "nat m" "nat s" "replicate 64 NUL" t] p(7) by auto
qed

lemma stats_output_talks:
  assumes "uptime_ok w"
  shows "\<exists>w'. stats_output target w = Some w' \<and> talks w (w' :: 'a scan_st_scheme)"
proof -
  obtain up where up: "dissect_time (replicate 64 NUL) (clock w - STATS_UPTIME w) = Some up"
    using dissect_time_total [of "clock w - STATS_UPTIME w"] assms by (auto simp: uptime_ok_def)
  obtain w1 where w1: "irc_send ''PRIVMSG %s :Uptime: %s'' [Str target, Str up] w = Some w1" "talks w w1"
    using irc_send_talks [of "''PRIVMSG %s :Uptime: %s''" "[Str target, Str up]" w] by auto
  obtain w2 where w2: "stats_bl_lines target (blacklists w1) w1 = Some w2" "talks w1 w2" using stats_bl_lines_talks by blast
  have "\<exists>w'. (if STATS_DNSBLSENT w2 > 0 then irc_send ''PRIVMSG %s :DNSBL: %u reports sent'' [Str target, ArgInt (STATS_DNSBLSENT w2)] w2
      else Some w2) = Some w' \<and> talks w2 w'"
    using irc_send_talks [of "''PRIVMSG %s :DNSBL: %u reports sent''" "[Str target, ArgInt (STATS_DNSBLSENT w2)]" w2] by auto
  then obtain w3 where w3: "(if STATS_DNSBLSENT w2 > 0 then irc_send ''PRIVMSG %s :DNSBL: %u reports sent'' [Str target, ArgInt (STATS_DNSBLSENT w2)] w2
      else Some w2) = Some w3" "talks w2 w3" by blast
  obtain w4 where w4: "stats_proxy_lines target (STATS_PROXIES w3) w3 = Some w4" "talks w3 w4" using stats_proxy_lines_talks by blast
  obtain w5 where w5: "irc_send ''PRIVMSG %s :Number of connects: %u (%.2f/minute)''
       [Str target, ArgInt (STATS_CONNECTIONS w4), ArgDouble] w4 = Some w5" "talks w4 w5"
    using irc_send_talks [of "''PRIVMSG %s :Number of connects: %u (%.2f/minute)''" "[Str target, ArgInt (STATS_CONNECTIONS w4), ArgDouble]" w4]
    by auto
  have "stats_output target w = Some w5" using up w1(1) w2(1) w3(1) w4(1) w5(1) by (simp add: stats_output_def)
  then show ?thesis using talks_trans [OF w1(2) talks_trans [OF w2(2) talks_trans [OF w3(2) talks_trans [OF w4(2) w5(2)]]]] by blast
qed

text \<open>The loop over the descriptors ends.\<close>

definition fd_ok :: "fd_answers \<Rightarrow> bool" where
  "fd_ok fa \<longleftrightarrow> (case fd_rlim fa of Inl _ \<Rightarrow> True
     | Inr lim \<Rightarrow> fdstats_loop (fd_fuel fa) (fd_dup fa) (unat lim) 0 0 0 \<noteq> None)"

lemma fdstats_output_talks:
  assumes "fd_ok fa"
  shows "\<exists>w'. fdstats_output (fd_fuel fa) (fd_dup fa) (fd_rlim fa) target w = Some w' \<and> talks w (w' :: 'a scan_st_scheme)"
proof (cases "fd_rlim fa")
  case (Inl err)
  then show ?thesis by (simp add: fdstats_output_def irc_send_talks)
next
  case (Inr lim)
  then obtain n where "fdstats_loop (fd_fuel fa) (fd_dup fa) (unat lim) 0 0 0 = Some n" using assms by (auto simp: fd_ok_def)
  then show ?thesis using Inr by (simp add: fdstats_output_def irc_send_talks)
qed

definition cmd_ok :: "command \<Rightarrow> bool" where
  "cmd_ok cs \<longleftrightarrow> unat (cmd_type cs) < length OPER_TABLE \<and> param_ok (cmd_param cs)"

lemma command_run_inv:
  assumes q: "quiet w" and u: "uptime_ok w" and f: "fd_ok fa" and c: "cmd_ok cs"
  shows "\<exists>w'. command_run fa cs w = Some w' \<and> quiet w' \<and> steady w w'"
proof -
  have l: "unat (cmd_type cs) < length OPER_TABLE" using c by (simp add: cmd_ok_def)
  show ?thesis
  proof (cases "snd (OPER_TABLE ! unat (cmd_type cs))")
    case Cmd_check
    then show ?thesis using l c scan_manual_inv [OF q, of "cmd_param cs" "cmd_target cs"] by (simp add: command_run_def cmd_check_def cmd_ok_def)
  next
    case Cmd_stat
    obtain w' where "stats_output (chan_name (cmd_target cs)) w = Some w'" "talks w w'" using stats_output_talks [OF u] by blast
    then show ?thesis using l Cmd_stat quiet_talks [OF q] talks_steady by (auto simp: command_run_def cmd_stat_def)
  next
    case Cmd_fdstat
    obtain w' where "fdstats_output (fd_fuel fa) (fd_dup fa) (fd_rlim fa) (chan_name (cmd_target cs)) w = Some w'" "talks w w'"
      using fdstats_output_talks [OF f] by blast
    then show ?thesis using l Cmd_fdstat quiet_talks [OF q] talks_steady by (auto simp: command_run_def cmd_fdstat_def)
  qed
qed

lemma steady_oper:
  assumes "steady w (w' :: 'a oper_st_scheme)"
  shows "COMMANDS w' = COMMANDS w" "cmd_brk w' = cmd_brk w" "cmd_interval w' = cmd_interval w" "uptime_ok w' = uptime_ok w"
  using assms by (cases w; cases w'; simp add: steady_def uptime_ok_def)+

lemma quiet_oper [simp]:
  "quiet (w\<lparr>COMMANDS := q\<rparr>) = quiet w" "quiet (w\<lparr>cmd_brk := n\<rparr>) = quiet w" "quiet (w\<lparr>cmd_interval := k\<rparr>) = quiet w"
  by (simp_all add: quiet_def scan_inv_def cache_fine_def conns_ok_def fd_limit_def lookups_ok_def indices_ok_def
      static_ok_def blacklists_def asked_def)

section \<open>The queue\<close>

definition queue_ok :: "'a oper_st_scheme \<Rightarrow> bool" where
  "queue_ok w \<longleftrightarrow> (\<exists>q. COMMANDS w = Some q \<and> length q \<le> COMMANDMAX \<and> distinct (map cmd_key q) \<and>
     (\<forall>c \<in> set q. cmd_key c < cmd_brk w \<and> cmd_added c \<le> clock w \<and> cmd_ok c) \<and> sorted (map cmd_added q)) \<and>
     unat (cmd_interval w) \<le> COMMANDINTERVAL"

lemma queue_filter:
  assumes "queue_ok w" "COMMANDS w = Some q" "COMMANDS w' = Some (filter P q)" "cmd_brk w' = cmd_brk w" "clock w' = clock w"
    "unat (cmd_interval w') \<le> COMMANDINTERVAL"
  shows "queue_ok w'"
  using assms unfolding queue_ok_def
  by (auto simp: distinct_map_filter sorted_filter intro: order_trans [OF length_filter_le])

text \<open>What a command or a message may change.\<close>

definition still :: "'a oper_st_scheme \<Rightarrow> 'a oper_st_scheme \<Rightarrow> bool" where
  "still w w' \<longleftrightarrow> clock w' = clock w \<and> STATS_UPTIME w' = STATS_UPTIME w \<and> oper_st.more w' = oper_st.more w"

lemma still_refl [simp]: "still w w"
  by (simp add: still_def)

lemma still_trans: "still w w' \<Longrightarrow> still w' w'' \<Longrightarrow> still w w''"
  by (simp add: still_def)

lemma calm_still: "calm w w' \<Longrightarrow> still w w'"
  by (cases w; cases w') (simp add: calm_def still_def)

lemma still_upd [simp]:
  "still w (w'\<lparr>COMMANDS := q\<rparr>) = still w w'" "still w (w'\<lparr>cmd_brk := n\<rparr>) = still w w'" "still w (w'\<lparr>cmd_interval := k\<rparr>) = still w w'"
  "still (w\<lparr>COMMANDS := q\<rparr>) w' = still w w'" "still (w\<lparr>cmd_brk := n\<rparr>) w' = still w w'" "still (w\<lparr>cmd_interval := k\<rparr>) w' = still w w'"
  by (simp_all add: still_def)

text \<open>Removing from a queue whose commands have different addresses.\<close>

lemma filter_key: "cmd_key c \<notin> cmd_key ` set q \<Longrightarrow> filter (\<lambda>x. cmd_key x \<noteq> cmd_key c) q = q"
  by (force simp: filter_id_conv)

lemma COMMANDS_remove: "COMMANDS w = Some q \<Longrightarrow> COMMANDS (command_remove c w) = Some (filter (\<lambda>x. cmd_key x \<noteq> cmd_key c) q)"
  by (simp add: command_remove_def)

lemma timer_loop_eq:
  assumes "sorted (map cmd_added q)" "distinct (map cmd_key (kept @ q))" "COMMANDS w = Some (kept @ q)"
  shows "timer_loop present q w = w\<lparr>COMMANDS := Some (kept @ filter (\<lambda>c. present - cmd_added c \<le> COMMANDTIMEOUT) q)\<rparr>"
  using assms
proof (induction q arbitrary: w)
  case (Cons c q)
  show ?case
  proof (cases "present - cmd_added c > COMMANDTIMEOUT")
    case True
    have "COMMANDS (command_remove c w) = Some (kept @ q)"
      using Cons.prems(2,3) by (simp add: command_remove_def filter_key)
    then have "timer_loop present q (command_remove c w) =
        (command_remove c w)\<lparr>COMMANDS := Some (kept @ filter (\<lambda>c. present - cmd_added c \<le> COMMANDTIMEOUT) q)\<rparr>"
      using Cons.prems by (intro Cons.IH) auto
    then show ?thesis using True by (simp add: command_remove_def)
  next
    case False
    have "\<forall>x \<in> set q. present - cmd_added x \<le> COMMANDTIMEOUT" using Cons.prems(1) False by fastforce
    then show ?thesis using False Cons.prems(3) by simp
  qed
qed simp

lemma command_timer_eq:
  assumes "queue_ok w" "COMMANDS w = Some q"
  shows "command_timer w = Some (if unat (cmd_interval w) < COMMANDINTERVAL then w\<lparr>cmd_interval := cmd_interval w + 1\<rparr>
     else w\<lparr>cmd_interval := 0, COMMANDS := Some (filter (\<lambda>c. clock w - cmd_added c \<le> COMMANDTIMEOUT) q)\<rparr>)"
proof (cases "unat (cmd_interval w) < COMMANDINTERVAL")
  case False
  have "timer_loop (clock w) q (w\<lparr>cmd_interval := 0\<rparr>) =
      w\<lparr>cmd_interval := 0\<rparr>\<lparr>COMMANDS := Some ([] @ filter (\<lambda>c. clock w - cmd_added c \<le> COMMANDTIMEOUT) q)\<rparr>"
    using assms by (intro timer_loop_eq) (auto simp: queue_ok_def)
  then show ?thesis using False assms(2) by (simp add: command_timer_def)
qed (simp add: command_timer_def)

lemma interval_inc: "unat (x :: ushort) < COMMANDINTERVAL \<Longrightarrow> unat (x + 1) = unat x + 1"
  by (simp add: COMMANDINTERVAL_def unat_word_ariths)

lemma command_timer_ok:
  assumes "quiet w" "queue_ok w"
  shows "\<exists>w'. command_timer w = Some w' \<and> quiet w' \<and> queue_ok w' \<and> still w w'"
proof -
  obtain q where q: "COMMANDS w = Some q" using assms(2) by (auto simp: queue_ok_def)
  show ?thesis
  proof (cases "unat (cmd_interval w) < COMMANDINTERVAL")
    case True
    then have "queue_ok (w\<lparr>cmd_interval := cmd_interval w + 1\<rparr>)" using assms(2) interval_inc [OF True] by (auto simp: queue_ok_def)
    then show ?thesis using command_timer_eq [OF assms(2) q] True assms(1) by simp
  next
    case False
    have "queue_ok (w\<lparr>cmd_interval := 0, COMMANDS := Some (filter (\<lambda>c. clock w - cmd_added c \<le> COMMANDTIMEOUT) q)\<rparr>)"
      by (rule queue_filter [OF assms(2) q]) simp_all
    then show ?thesis using command_timer_eq [OF assms(2) q] False assms(1) by simp
  qed
qed

section \<open>Reading a command\<close>

text \<open>The position of a name in a table.  The names differ, so that at most one entry is found.\<close>

fun table_index :: "nat \<Rightarrow> (string \<times> oper_command) list \<Rightarrow> string \<Rightarrow> nat option" where
  "table_index i [] name = None"
| "table_index i ((n, h) # table) name = (if strcaseeq name n then Some i else table_index (Suc i) table name)"

lemma command_lookup_none:
  "\<forall>n \<in> fst ` set table. \<not> strcaseeq command n \<Longrightarrow> command_lookup i table command param nick target w = w"
  by (induction table arbitrary: i) (auto simp: Let_def)

lemma command_lookup_gen:
  assumes "COMMANDS w = Some q" "distinct (map (\<lambda>e. map tolower (fst e)) table)"
  shows "command_lookup (of_nat i) table command param nick target w =
    (case table_index i table command of None \<Rightarrow> w
     | Some j \<Rightarrow> w\<lparr>cmd_brk := Suc (cmd_brk w), COMMANDS := Some (q @ [\<lparr>cmd_key = cmd_brk w, cmd_type = of_nat j, cmd_param = Some param, cmd_nick = nick,
         cmd_target = target, cmd_added = clock w\<rparr>])\<rparr>)"
  using assms(2)
proof (induction table arbitrary: i)
  case (Cons e table)
  obtain n h where e: "e = (n, h)" by (cases e)
  show ?case
  proof (cases "strcaseeq command n")
    case True
    have "\<not> strcaseeq command m" if "m \<in> fst ` set table" for m
      using Cons.prems True that by (force simp: e strcaseeq_def)
    then have "\<forall>m \<in> fst ` set table. \<not> strcaseeq command m" by blast
    then show ?thesis using True assms(1) by (simp add: e command_create_def command_add_def command_lookup_none)
  next
    case False
    then show ?thesis using Cons.IH [of "Suc i"] Cons.prems by (simp add: e add.commute)
  qed
qed simp

lemma command_lookup_eq:
  assumes "COMMANDS w = Some q"
  shows "command_lookup 0 OPER_TABLE command param nick target w =
    (case table_index 0 OPER_TABLE command of None \<Rightarrow> w
     | Some i \<Rightarrow> w\<lparr>cmd_brk := Suc (cmd_brk w), COMMANDS := Some (q @ [\<lparr>cmd_key = cmd_brk w, cmd_type = of_nat i, cmd_param = Some param, cmd_nick = nick,
         cmd_target = target, cmd_added = clock w\<rparr>])\<rparr>)"
proof -
  have "distinct (map (\<lambda>e. map tolower (fst e)) OPER_TABLE)" by code_simp
  from command_lookup_gen [OF assms this, of 0] show ?thesis by simp
qed

lemma table_index_bound: "table_index i table name = Some j \<Longrightarrow> i \<le> j \<and> j < i + length table"
  by (induction i table name rule: table_index.induct) (auto split: if_splits)

lemma queue_ok_add:
  assumes "queue_ok w" "COMMANDS w = Some q" "length q < COMMANDMAX" "param_ok (Some param)" "i < length OPER_TABLE"
  shows "queue_ok (w\<lparr>cmd_brk := Suc (cmd_brk w), COMMANDS := Some (q @ [\<lparr>cmd_key = cmd_brk w, cmd_type = of_nat i, cmd_param = Some param, cmd_nick = nick,
         cmd_target = target, cmd_added = clock w\<rparr>])\<rparr>)"
proof -
  have "unat (of_nat i :: ushort) = i" using assms(5) by (simp add: OPER_TABLE_def unat_of_nat)
  then show ?thesis using assms by (auto simp: queue_ok_def cmd_ok_def sorted_append less_Suc_eq)
qed

lemma queue_ok_steady: "queue_ok w \<Longrightarrow> steady w w' \<Longrightarrow> queue_ok w'"
  using steady_oper [of w w'] by (auto simp: queue_ok_def steady_def)

text \<open>The name and the parameter of a command text.\<close>

definition command_name :: "string \<Rightarrow> string option" where
  "command_name s = map_option (\<lambda>r. takeWhile (\<lambda>c. c \<noteq> CHR '' '') (tl r)) (strchr s (CHR '' ''))"

definition command_param :: "string \<Rightarrow> string" where
  "command_param s = (case strchr s (CHR '' '') of None \<Rightarrow> [] | Some r \<Rightarrow>
     (case strchr (tl r) (CHR '' '') of None \<Rightarrow> [] | Some r \<Rightarrow> tl r))"

lemma command_parse_eq:
  assumes "COMMANDS w = Some q"
  shows "command_parse s msg target u w =
    (if COMMANDMAX \<le> length q \<or> command_name s = None then Some w
     else irc_send ''USERHOST %s'' [Str (ui_nick u)]
       (command_lookup 0 OPER_TABLE (the (command_name s)) (command_param s) (ui_nick u) target w))"
  using assms by (auto simp: command_parse_def command_name_def command_param_def Let_def split: option.splits)

lemma command_parse_ok:
  assumes w: "quiet w" "queue_ok w" and p: "param_ok (Some (command_param s))"
  shows "\<exists>w'. command_parse s msg target u w = Some w' \<and> quiet w' \<and> queue_ok w' \<and> still w w'"
proof -
  obtain q where q: "COMMANDS w = Some q" using w(2) by (auto simp: queue_ok_def)
  show ?thesis
  proof (cases "COMMANDMAX \<le> length q \<or> command_name s = None")
    case False
    define w1 where "w1 = command_lookup 0 OPER_TABLE (the (command_name s)) (command_param s) (ui_nick u) target w"
    have "quiet w1 \<and> queue_ok w1 \<and> still w w1"
    proof (cases "table_index 0 OPER_TABLE (the (command_name s))")
      case (Some i)
      have "i < length OPER_TABLE" using table_index_bound [OF Some] by simp
      then show ?thesis using command_lookup_eq [OF q] Some w False queue_ok_add [OF w(2) q _ p, of i] by (simp add: w1_def)
    qed (use command_lookup_eq [OF q] w in \<open>simp add: w1_def\<close>)
    moreover obtain w2 where w2: "irc_send ''USERHOST %s'' [Str (ui_nick u)] w1 = Some w2" "talks w1 w2"
      using irc_send_talks [of "''USERHOST %s''" "[Str (ui_nick u)]" w1] by auto
    moreover have "still w1 w2" by (rule calm_still [OF steady_calm [OF talks_steady [OF w2(2)]]])
    ultimately show ?thesis using command_parse_eq [OF q] False quiet_talks [of w1 w2] queue_ok_steady [OF _ talks_steady [OF w2(2)]]
        still_trans [of w w1 w2] by (auto simp: w1_def)
  qed (use w command_parse_eq [OF q] in simp)
qed

section \<open>The reply\<close>

text \<open>Running commands one after the other, each leaving the queue when it is done.\<close>

fun execute :: "fd_answers \<Rightarrow> command list \<Rightarrow> 'a oper_st_scheme \<Rightarrow> 'a oper_st_scheme option" where
  "execute fa [] w = Some w"
| "execute fa (c # cs) w = do { w \<leftarrow> command_run fa c w; execute fa cs (command_remove c w) }"

lemma userhost_loop_oper: "userhost_loop fa True nick q w = execute fa (filter (\<lambda>c. cmd_nick c = nick) q) w"
  by (induction q arbitrary: w) simp_all

lemma remove_others:
  assumes "distinct (map cmd_key (kept @ c # q))" "COMMANDS w = Some (kept @ c # q)"
  shows "command_remove c w = w\<lparr>COMMANDS := Some (kept @ q)\<rparr>"
  using assms by (simp add: command_remove_def filter_key)

lemma userhost_loop_other:
  assumes "distinct (map cmd_key (kept @ q))" "COMMANDS w = Some (kept @ q)"
  shows "userhost_loop fa False nick q w = Some (w\<lparr>COMMANDS := Some (kept @ filter (\<lambda>c. cmd_nick c \<noteq> nick) q)\<rparr>)"
  using assms
proof (induction q arbitrary: w kept)
  case (Cons c q)
  show ?case
  proof (cases "cmd_nick c = nick")
    case True
    then show ?thesis using Cons.IH [of kept "w\<lparr>COMMANDS := Some (kept @ q)\<rparr>"] Cons.prems remove_others [OF Cons.prems] by simp
  next
    case False
    then show ?thesis using Cons.IH [of "kept @ [c]" w] Cons.prems by simp
  qed
qed simp

lemma userhost_loop_run:
  assumes "distinct (map cmd_key (kept @ q))" "COMMANDS w = Some (kept @ q)" "quiet w" "uptime_ok w" "fd_ok fa" "\<forall>c \<in> set q. cmd_ok c"
  shows "\<exists>w' w1. userhost_loop fa True nick q w = Some w' \<and> quiet w' \<and> steady w w1 \<and>
    w' = w1\<lparr>COMMANDS := Some (kept @ filter (\<lambda>c. cmd_nick c \<noteq> nick) q)\<rparr>"
  using assms
proof (induction q arbitrary: w kept)
  case Nil
  then show ?case by (auto intro!: exI [of _ w])
next
  case (Cons c q)
  show ?case
  proof (cases "cmd_nick c = nick")
    case True
    obtain w1 where w1: "command_run fa c w = Some w1" "quiet w1" "steady w w1"
      using command_run_inv [OF Cons.prems(3-5), of c] Cons.prems(6) by auto
    have c1: "COMMANDS w1 = Some (kept @ c # q)" "uptime_ok w1" using steady_oper [OF w1(3)] Cons.prems(2,4) by simp_all
    define w2 where "w2 = w1\<lparr>COMMANDS := Some (kept @ q)\<rparr>"
    have r: "command_remove c w1 = w2" using remove_others [OF Cons.prems(1) c1(1)] by (simp add: w2_def)
    have "\<exists>w' w3. userhost_loop fa True nick q w2 = Some w' \<and> quiet w' \<and> steady w2 w3 \<and>
        w' = w3\<lparr>COMMANDS := Some (kept @ filter (\<lambda>c. cmd_nick c \<noteq> nick) q)\<rparr>"
      using Cons.prems w1(2) c1(2) by (intro Cons.IH) (simp_all add: w2_def uptime_ok_def)
    then obtain w' w3 where w': "userhost_loop fa True nick q w2 = Some w'" "quiet w'" "steady w2 w3"
        "w' = w3\<lparr>COMMANDS := Some (kept @ filter (\<lambda>c. cmd_nick c \<noteq> nick) q)\<rparr>" by blast
    have "steady w (w3\<lparr>COMMANDS := COMMANDS w\<rparr>)"
      using w1(3) w'(3) c1(1) Cons.prems(2) by (cases w; cases w1; cases w3) (simp add: steady_def w2_def)
    then show ?thesis using True w1(1) r w' by (auto intro!: exI [of _ "w3\<lparr>COMMANDS := COMMANDS w\<rparr>"])
  next
    case False
    then show ?thesis using Cons.IH [of "kept @ [c]" w] Cons.prems by simp
  qed
qed

lemma userhost_cut:
  assumes "CHR ''='' \<notin> set u"
  shows "command_userhost fa b (u @ CHR ''='' # r) w = do {
    q \<leftarrow> COMMANDS w;
    if last (b # u) \<noteq> CHR ''*'' then userhost_loop fa False u q w
    else userhost_loop fa True (if u = [] then CHR ''='' # r else butlast u) q w }"
proof -
  have "takeWhile (\<lambda>c. c \<noteq> CHR ''='') (u @ CHR ''='' # r) = u" using assms by (rule takeWhile_stop)
  then show ?thesis by (simp add: command_userhost_def Let_def)
qed

lemma command_userhost_ok:
  assumes w: "quiet w" "queue_ok w" "uptime_ok w" "fd_ok fa"
  shows "\<exists>w'. command_userhost fa b reply w = Some w' \<and> quiet w' \<and> queue_ok w' \<and> still w w'"
proof (cases "CHR ''='' \<in> set reply")
  case False
  then show ?thesis using w by (simp add: command_userhost_def)
next
  case True
  then obtain u r where r: "reply = u @ CHR ''='' # r" "CHR ''='' \<notin> set u" by (meson split_list_first)
  obtain q where q: "COMMANDS w = Some q" "distinct (map cmd_key q)" "\<forall>c \<in> set q. cmd_ok c" using w(2) by (auto simp: queue_ok_def)
  have i: "unat (cmd_interval w) \<le> COMMANDINTERVAL" using w(2) by (simp add: queue_ok_def)
  show ?thesis
  proof (cases "last (b # u) = CHR ''*''")
    case False
    have "queue_ok (w\<lparr>COMMANDS := Some (filter (\<lambda>c. cmd_nick c \<noteq> u) q)\<rparr>)"
      by (rule queue_filter [OF w(2) q(1)]) (use i in simp_all)
    then show ?thesis using False userhost_cut [OF r(2), of fa b r w] r(1) q userhost_loop_other [of "[]" q w fa u] w(1) by simp
  next
    case True
    define nick where "nick = (if u = [] then CHR ''='' # r else butlast u)"
    obtain w' w1 where w': "userhost_loop fa True nick q w = Some w'" "quiet w'" "steady w w1"
        "w' = w1\<lparr>COMMANDS := Some (filter (\<lambda>c. cmd_nick c \<noteq> nick) q)\<rparr>"
      using userhost_loop_run [of "[]" q w fa nick] q w by auto
    have "queue_ok w'" by (rule queue_filter [OF w(2) q(1)]) (use w'(3,4) steady_oper [OF w'(3)] i in \<open>simp_all add: steady_def\<close>)
    moreover have "still w w'" using calm_still [OF steady_calm [OF w'(3)]] w'(4) by simp
    ultimately show ?thesis using True userhost_cut [OF r(2), of fa b r w] r(1) q(1) w'(1,2) by (simp add: nick_def)
  qed
qed

section \<open>A state\<close>

text \<open>The state of the example run with two commands waiting.\<close>

lemma quiet_extend: "quiet (scan_st.extend w f) = quiet (w :: scan_st)"
  by (simp add: scan_st.defs quiet_def scan_inv_def cache_fine_def conns_ok_def fd_limit_def lookups_ok_def indices_ok_def
      static_ok_def blacklists_def asked_def)

definition sample_chan :: channel_conf where
  "sample_chan = \<lparr>chan_name = ''#bopm'', chan_key = [], chan_invite = []\<rparr>"

definition sample_cmds :: "command list" where
  "sample_cmds = [\<lparr>cmd_key = 1, cmd_type = 2, cmd_param = Some [], cmd_nick = ''oper'', cmd_target = sample_chan, cmd_added = 990\<rparr>,
     \<lparr>cmd_key = 2, cmd_type = 0, cmd_param = Some ''127.0.0.1'', cmd_nick = ''user'', cmd_target = sample_chan, cmd_added = 995\<rparr>]"

definition sample_fds :: fd_answers where
  "sample_fds = \<lparr>fd_fuel = 9, fd_dup = (\<lambda>_ _. Dup), fd_rlim = Inr 8\<rparr>"

definition oper_start :: oper_st where
  "oper_start = scan_st.extend plain_start (oper_st.fields (Some sample_cmds) 3 10)"

lemma plain_uptime: "STATS_UPTIME plain_start = 1000"
proof -
  obtain w where w: "scan_init (scan_globals 1000 env_live plain_conf) = Some w" using init_quiet [OF plain_ok] by blast
  have e: "plain_start = (stats_init w)\<lparr>servers4 := [], CONNECTIONS := []\<rparr>"
    using plain_boot w by (simp add: scan_boot_def firedns_init_def Let_def)
  have "clock plain_start = clock w" unfolding e by (simp add: stats_init_def)
  then show ?thesis using plain_start_fields(4) by (simp add: e stats_init_def)
qed

lemma oper_start_fields:
  "quiet oper_start" "COMMANDS oper_start = Some sample_cmds" "uptime_ok oper_start" "queue_ok oper_start" "fd_ok sample_fds"
  "clock oper_start = 1000" "cmd_interval oper_start = 10"
proof -
  show "quiet oper_start" using plain_start_fields(1) by (simp add: oper_start_def quiet_extend)
  show c: "COMMANDS oper_start = Some sample_cmds" "cmd_interval oper_start = 10" by (simp_all add: oper_start_def scan_st.defs oper_st.defs)
  show k: "clock oper_start = 1000" using plain_start_fields(4) by (simp add: oper_start_def scan_st.defs)
  have "STATS_UPTIME oper_start = 1000" using plain_uptime by (simp add: oper_start_def scan_st.defs)
  then show "uptime_ok oper_start" using k by (simp add: uptime_ok_def)
  have "cmd_brk oper_start = 3" by (simp add: oper_start_def scan_st.defs oper_st.defs)
  then show "queue_ok oper_start" using c k
    by (auto simp: queue_ok_def sample_cmds_def cmd_ok_def param_ok_def cstring_def OPER_TABLE_def COMMANDMAX_def COMMANDINTERVAL_def)
  show "fd_ok sample_fds" by code_simp
qed

section \<open>Properties\<close>

text \<open>C8: A command is run only when the server says that its sender is an operator.  After a reply
  with the operator flag the commands queued for exactly that nick are run, in the order in which they
  were given; after a reply without it none is.  In both cases they leave the queue and the commands
  of other users stay.\<close>

theorem command_userhost_authorises:
  assumes "quiet w" "queue_ok w" "uptime_ok w" "fd_ok fa" "COMMANDS w = Some q"
    and "nick \<noteq> []" "CHR ''='' \<notin> set nick" "last nick \<noteq> CHR ''*''"
  shows "command_userhost fa b (nick @ ''='' @ host) w = Some (w\<lparr>COMMANDS := Some (filter (\<lambda>c. cmd_nick c \<noteq> nick) q)\<rparr>) \<and>
    command_userhost fa b (nick @ ''*='' @ host) w = execute fa (filter (\<lambda>c. cmd_nick c = nick) q) w \<and>
    (\<exists>w'. command_userhost fa b (nick @ ''*='' @ host) w = Some w' \<and> COMMANDS w' = Some (filter (\<lambda>c. cmd_nick c \<noteq> nick) q))"
proof -
  have q: "distinct (map cmd_key q)" "\<forall>c \<in> set q. cmd_ok c" using assms(2,5) by (auto simp: queue_ok_def)
  have n: "last (b # nick) = last nick" using assms(6) by simp
  have "command_userhost fa b (nick @ ''='' @ host) w = userhost_loop fa False nick q w"
    using userhost_cut [of nick fa b host w] assms(5,7,8) n by simp
  moreover have "command_userhost fa b (nick @ ''*='' @ host) w = userhost_loop fa True nick q w"
    using userhost_cut [of "nick @ ''*''" fa b host w] assms(5,7) by simp
  moreover obtain w' w1 where "userhost_loop fa True nick q w = Some w'"
      "w' = w1\<lparr>COMMANDS := Some (filter (\<lambda>c. cmd_nick c \<noteq> nick) q)\<rparr>"
    using userhost_loop_run [of "[]" q w fa nick] q assms by auto
  ultimately show ?thesis using userhost_loop_other [of "[]" q w fa nick] userhost_loop_oper [of fa nick q w] q(1) assms(5) by simp
qed

theorem command_userhost_authorises_witness:
  "command_userhost sample_fds (CHR '':'') ''user=+ident@host'' oper_start = Some (oper_start\<lparr>COMMANDS := Some [hd sample_cmds]\<rparr>) \<and>
   (\<exists>w'. command_userhost sample_fds (CHR '':'') ''oper*=+ident@host'' oper_start = Some w' \<and> COMMANDS w' = Some (tl sample_cmds))"
proof -
  have "filter (\<lambda>c. cmd_nick c \<noteq> ''user'') sample_cmds = [hd sample_cmds]" "filter (\<lambda>c. cmd_nick c \<noteq> ''oper'') sample_cmds = tl sample_cmds"
    by (simp_all add: sample_cmds_def)
  then show ?thesis
    using command_userhost_authorises [OF oper_start_fields(1,4,3,5,2), of "''user''" "CHR '':''" "''+ident@host''"]
      command_userhost_authorises [OF oper_start_fields(1,4,3,5,2), of "''oper''" "CHR '':''" "''+ident@host''"] by force
qed

text \<open>C17: The queue is kept in the order of arrival, which makes the timer right: on its eleventh
  call it removes exactly the commands that have waited for more than 180 seconds, and on the ten
  calls before it only counts.\<close>

theorem command_timer_expires:
  assumes "queue_ok w" "COMMANDS w = Some q"
  shows "command_timer w = Some (if unat (cmd_interval w) < 10 then w\<lparr>cmd_interval := cmd_interval w + 1\<rparr>
     else w\<lparr>cmd_interval := 0, COMMANDS := Some (filter (\<lambda>c. clock w - cmd_added c \<le> 180) q)\<rparr>)"
  using command_timer_eq [OF assms] by (simp add: COMMANDINTERVAL_def COMMANDTIMEOUT_def)

theorem command_timer_expires_witness:
  "command_timer oper_start = Some (oper_start\<lparr>cmd_interval := 0, COMMANDS := Some sample_cmds\<rparr>)"
  using command_timer_expires [OF oper_start_fields(4,2)] oper_start_fields(6,7) by (simp add: sample_cmds_def)



end
