(* ===== verification/Irc.thy ===== *)
theory Irc
  imports Opercmd
begin

text \<open>
  irc.c, second part: reading from the server, splitting a line into its parts and the handlers of
  the messages.  The pointers of \<open>parv\<close> are positions in \<open>IRC_RAW\<close>, or the configured name of
  the server; the array is static, so that what an earlier line left in it can be seen.
\<close>

text \<open>A store into an array, within its bounds.\<close>

definition store_at :: "'a list \<Rightarrow> nat \<Rightarrow> 'a \<Rightarrow> 'a list option" where
  "store_at a i x = (if i < length a then Some (a[i := x]) else None)"

section \<open>State\<close>

datatype parv_ptr = Server_name | Raw nat

record irc_st = oper_st +
  IRC_RAW :: string
  IRC_RAW_LEN :: nat
  irc_parv :: "parv_ptr option list"
  preg :: bool
  RESTART :: bool

text \<open>The regular expressions of the system: whether one compiles, and the positions of a match
  and of its groups.\<close>

record irc_sys =
  regcomp_ok :: "string \<Rightarrow> bool"
  regexec :: "string \<Rightarrow> string \<Rightarrow> (int \<times> int) list option"
  sys_fds :: fd_answers

text \<open>What a handler gets; \<open>before3\<close> is the byte in front of \<open>parv[3]\<close>.\<close>

record irc_msg =
  parv :: "string option list"
  parc :: nat
  before3 :: char
  raw_msg :: string
  source :: "user_info option"

section \<open>Sources and channels\<close>

definition get_channel :: "string \<Rightarrow> 'a net_scheme \<Rightarrow> channel_conf option" where
  "get_channel channel w = find (\<lambda>item. strcaseeq (chan_name item) channel) (irc_conf_channels (IRCItem (cfg w)))"

text \<open>\<open>userinfo_create\<close>: the separators become NULs, and the last of each kind counts.\<close>

fun userinfo_loop :: "nat \<Rightarrow> string \<Rightarrow> nat option \<times> nat option \<Rightarrow> string \<times> nat option \<times> nat option" where
  "userinfo_loop i [] (username, hostname) = ([], username, hostname)"
| "userinfo_loop i (c # s) (username, hostname) =
     (let (tmp, r) = userinfo_loop (Suc i) s
            (if c = CHR ''!'' then (Some (Suc i), hostname) else if c = CHR ''@'' then (username, Some (Suc i)) else (username, hostname))
      in ((if c = CHR ''!'' \<or> c = CHR ''@'' then NUL else c) # tmp, r))"

definition userinfo_create :: "string \<Rightarrow> user_info option" where
  "userinfo_create src =
     (case userinfo_loop 0 src (None, None) of
        (tmp, Some username, Some hostname) \<Rightarrow>
          Some \<lparr>ui_nick = buffer_string tmp, ui_username = buffer_string (drop username tmp), ui_hostname = buffer_string (drop hostname tmp)\<rparr>
      | _ \<Rightarrow> None)"

section \<open>Handlers\<close>

fun send_performs :: "string list \<Rightarrow> 'a net_scheme \<Rightarrow> 'a net_scheme option" where
  "send_performs [] w = Some w"
| "send_performs (p # ps) w = do { w \<leftarrow> irc_send ''%s'' [Str p] w; send_performs ps w }"

fun join_channels :: "channel_conf list \<Rightarrow> 'a net_scheme \<Rightarrow> 'a net_scheme option" where
  "join_channels [] w = Some w"
| "join_channels (c # cs) w = do {
     w \<leftarrow> (if chan_name c = [] then Some w
           else if chan_key c \<noteq> [] then irc_send ''JOIN %s %s'' [Str (chan_name c), Str (chan_key c)] w
           else irc_send ''JOIN %s'' [Str (chan_name c)] w);
     join_channels cs w }"

definition m_perform :: "irc_msg \<Rightarrow> 'a net_scheme \<Rightarrow> 'a net_scheme option" where
  "m_perform m w = do {
     let c = IRCItem (cfg w);
     w \<leftarrow> (if irc_nickserv c \<noteq> [] then irc_send ''%s'' [Str (irc_nickserv c)] w else Some w);
     w \<leftarrow> irc_send ''OPER %s'' [Str (irc_oper c)] w;
     w \<leftarrow> irc_send ''MODE %s %s'' [Str (irc_nick c), Str (irc_mode c)] w;
     w \<leftarrow> irc_send ''AWAY :%s'' [Str (irc_away c)] w;
     w \<leftarrow> send_performs (irc_performs c) w;
     join_channels (irc_conf_channels c) w }"

definition m_ping :: "irc_msg \<Rightarrow> 'a net_scheme \<Rightarrow> 'a net_scheme option" where
  "m_ping m w = (if parc m < 3 then Some w else do { p \<leftarrow> parv m ! 2; irc_send ''PONG %s'' [Str p] w })"

definition m_invite :: "irc_msg \<Rightarrow> 'a net_scheme \<Rightarrow> 'a net_scheme option" where
  "m_invite m w =
     (if parc m < 4 then Some w
      else do {
        p \<leftarrow> parv m ! 3;
        case get_channel p w of
          None \<Rightarrow> Some w
        | Some channel \<Rightarrow> irc_send ''JOIN %s %s'' [Str (chan_name channel), Str (chan_key channel)] w })"

definition m_ctcp :: "irc_msg \<Rightarrow> user_info \<Rightarrow> 'a net_scheme \<Rightarrow> 'a net_scheme option" where
  "m_ctcp m source_p w = do {
     p \<leftarrow> parv m ! 3;
     if strncaseeq p ([CHR 0x01] @ ''VERSION'' @ [CHR 0x01]) 9
     then irc_send (''NOTICE %s :'' @ [CHR 0x01] @ ''VERSION Blitzed Open Proxy Monitor %s'' @ [CHR 0x01])
            [Str (ui_nick source_p), Str (VERSION (envir w))] w
     else Some w }"

definition first_char :: "string \<Rightarrow> char" where
  "first_char s = (case s of [] \<Rightarrow> NUL | c # _ \<Rightarrow> c)"

definition privmsg_addressed :: "string \<Rightarrow> string \<Rightarrow> bool" where
  "privmsg_addressed text nick =
     (let nick_len = length (takeWhile (\<lambda>c. c \<notin> {CHR '' '', CHR '':'', CHR '',''}) text);
          nick_len = (if nick_len < 3 \<and> length nick \<ge> 3 then 3 else nick_len)
      in strncaseeq text nick nick_len \<or> strncaseeq text ''!all'' 4)"

definition m_privmsg :: "irc_msg \<Rightarrow> 'a oper_st_scheme \<Rightarrow> 'a oper_st_scheme option" where
  "m_privmsg m w =
     (case source m of
        None \<Rightarrow> Some w
      | Some source_p \<Rightarrow>
          if parc m < 4 then Some w
          else do {
            p3 \<leftarrow> parv m ! 3;
            p2 \<leftarrow> parv m ! 2;
            w \<leftarrow> (if first_char p3 = CHR 0x01 then m_ctcp m source_p w else Some w);
            if first_char p2 \<noteq> CHR ''#'' \<and> first_char p2 \<noteq> CHR ''&'' then Some w
            else (case get_channel p2 w of
                    None \<Rightarrow> Some w
                  | Some channel \<Rightarrow>
                      if privmsg_addressed p3 (irc_nick (IRCItem (cfg w)))
                      then command_parse p3 (raw_msg m) channel source_p w
                      else Some w) })"

text \<open>
  The groups of a connection notice.  The buffer is the text with the byte in front of it: a group
  that took no part in the match has the position -1.
\<close>

fun notice_cut :: "(int \<times> int) list \<Rightarrow> string \<Rightarrow> string option" where
  "notice_cut [] buf = Some buf"
| "notice_cut ((so, eo) # gs) buf = do { buf \<leftarrow> (if eo < -1 then None else store_at buf (nat (eo + 1)) NUL); notice_cut gs buf }"

definition notice_user :: "char \<Rightarrow> string \<Rightarrow> (int \<times> int) list \<Rightarrow> (string \<times> string \<times> string \<times> string) option" where
  "notice_user before text gs = do {
     buf \<leftarrow> notice_cut gs (before # text @ [NUL]);
     let us = map (\<lambda>(so, eo). buffer_string (drop (nat (so + 1)) buf)) gs;
     Some (us ! 0, us ! 1, us ! 2, us ! 3) }"

definition m_notice :: "irc_sys \<Rightarrow> irc_msg \<Rightarrow> 'a irc_st_scheme \<Rightarrow> 'a irc_st_scheme option" where
  "m_notice sys m w =
     (if parc m < 4 then Some w
      else if source m \<noteq> None then Some w
      else if \<not> preg w \<and> \<not> regcomp_ok sys (irc_connregex (IRCItem (cfg w))) then Some w
      else do {
        let w = w\<lparr>preg := True\<rparr>;
        p3 \<leftarrow> parv m ! 3;
        case regexec sys (irc_connregex (IRCItem (cfg w))) p3 of
          None \<Rightarrow> Some w
        | Some pmatch \<Rightarrow>
            if fst (pmatch ! 4) = -1 then Some w
            else do {
              user \<leftarrow> notice_user (before3 m) p3 (map (\<lambda>i. pmatch ! (i + 1)) [0, 1, 2, 3]);
              w \<leftarrow> scan_connect user (raw_msg m) w;
              Some (stats_connect w) } })"

definition m_userhost :: "irc_sys \<Rightarrow> irc_msg \<Rightarrow> 'a oper_st_scheme \<Rightarrow> 'a oper_st_scheme option" where
  "m_userhost sys m w =
     (if parc m < 4 then Some w
      else do { p3 \<leftarrow> parv m ! 3; command_userhost (sys_fds sys) (before3 m) p3 w })"

definition m_cannot_join :: "irc_msg \<Rightarrow> 'a net_scheme \<Rightarrow> 'a net_scheme option" where
  "m_cannot_join m w =
     (if parc m < 5 then Some w
      else do {
        p3 \<leftarrow> parv m ! 3;
        case get_channel p3 w of
          None \<Rightarrow> Some w
        | Some channel \<Rightarrow> if chan_invite channel = [] then Some w else irc_send ''%s'' [Str (chan_invite channel)] w })"

text \<open>\<open>main_restart\<close> of main.c.\<close>

definition main_restart :: "'a irc_st_scheme \<Rightarrow> 'a irc_st_scheme" where
  "main_restart w = w\<lparr>RESTART := True\<rparr>"

definition m_kill :: "irc_msg \<Rightarrow> 'a irc_st_scheme \<Rightarrow> 'a irc_st_scheme option" where
  "m_kill m w = Some (main_restart w)"

datatype irc_command = M_notice | M_privmsg | M_ping | M_invite | M_perform | M_userhost | M_cannot_join | M_kill

definition IRC_TABLE :: "(string \<times> irc_command) list" where
  "IRC_TABLE = [(''NOTICE'', M_notice), (''PRIVMSG'', M_privmsg), (''PING'', M_ping), (''INVITE'', M_invite),
     (''001'', M_perform), (''302'', M_userhost), (''471'', M_cannot_join), (''473'', M_cannot_join),
     (''474'', M_cannot_join), (''475'', M_cannot_join), (''KILL'', M_kill)]"

definition irc_handle :: "irc_sys \<Rightarrow> irc_command \<Rightarrow> irc_msg \<Rightarrow> 'a irc_st_scheme \<Rightarrow> 'a irc_st_scheme option" where
  "irc_handle sys h m w =
     (case h of
        M_notice \<Rightarrow> m_notice sys m w | M_privmsg \<Rightarrow> m_privmsg m w | M_ping \<Rightarrow> m_ping m w | M_invite \<Rightarrow> m_invite m w
      | M_perform \<Rightarrow> m_perform m w | M_userhost \<Rightarrow> m_userhost sys m w | M_cannot_join \<Rightarrow> m_cannot_join m w
      | M_kill \<Rightarrow> m_kill m w)"

definition irc_dispatch :: "irc_sys \<Rightarrow> string \<Rightarrow> irc_msg \<Rightarrow> 'a irc_st_scheme \<Rightarrow> 'a irc_st_scheme option" where
  "irc_dispatch sys cmd m w =
     (case find (\<lambda>(name, h). strcaseeq name cmd) IRC_TABLE of
        None \<Rightarrow> Some w
      | Some (name, h) \<Rightarrow> irc_handle sys h m w)"

section \<open>Splitting a line\<close>

text \<open>\<open>strchr(pos, ' ')\<close> in the buffer; \<open>None\<close> when it would run off its end.\<close>

definition next_space :: "string \<Rightarrow> nat \<Rightarrow> nat option option" where
  "next_space raw pos =
     (let s = drop pos raw; k = length (takeWhile (\<lambda>c. c \<noteq> CHR '' '' \<and> c \<noteq> NUL) s) in
      if k = length s then None else Some (if s ! k = CHR '' '' then Some (pos + k) else None))"

definition parv_set :: "parv_ptr option list \<Rightarrow> nat \<Rightarrow> nat \<Rightarrow> parv_ptr option list option" where
  "parv_set pv i k = store_at pv i (Some (Raw k))"

lemma next_space_bound: "next_space raw pos = Some (Some k) \<Longrightarrow> pos \<le> k \<and> k < length raw"
proof -
  assume a: "next_space raw pos = Some (Some k)"
  define s where "s = drop pos raw"
  define n where "n = length (takeWhile (\<lambda>c. c \<noteq> CHR '' '' \<and> c \<noteq> NUL) s)"
  have "n < length s" "k = pos + n" using a length_takeWhile_le [of "\<lambda>c. c \<noteq> CHR '' '' \<and> c \<noteq> NUL" s]
    by (auto simp: next_space_def Let_def s_def [symmetric] n_def [symmetric] split: if_splits)
  then show ?thesis by (simp add: s_def)
qed

function parse_loop :: "nat \<Rightarrow> string \<Rightarrow> parv_ptr option list \<Rightarrow> nat \<Rightarrow> (string \<times> parv_ptr option list \<times> nat) option" where
  "parse_loop pos raw pv pc =
     (case next_space raw pos of
        None \<Rightarrow> None
      | Some None \<Rightarrow> Some (raw, pv, pc)
      | Some (Some pos) \<Rightarrow>
          if \<not> pc \<le> 17 then Some (raw, pv, pc)
          else if \<not> pos + 1 < length raw then None
          else if raw ! (pos + 1) = CHR '' '' \<and> raw ! (pos + 1) = NUL then parse_loop (pos + 1) raw pv pc
          else if raw ! (pos + 1) = CHR '':'' then do { pv \<leftarrow> parv_set pv pc (pos + 2); Some (raw[pos := NUL], pv, pc + 1) }
          else do { pv \<leftarrow> parv_set pv pc (pos + 1); parse_loop (pos + 1) (raw[pos := NUL]) pv (pc + 1) })"
  by pat_completeness auto
termination
  by (relation "measure (\<lambda>(pos, raw, pv, pc). length raw - pos)") (auto dest!: next_space_bound)

declare parse_loop.simps [simp del]

definition parv_str :: "'a irc_st_scheme \<Rightarrow> nat \<Rightarrow> string option" where
  "parv_str w i =
     (case irc_parv w ! i of
        None \<Rightarrow> None
      | Some Server_name \<Rightarrow> Some (irc_server (IRCItem (cfg w)))
      | Some (Raw k) \<Rightarrow> read_cstr (drop k (IRC_RAW w)))"

definition byte_before :: "'a irc_st_scheme \<Rightarrow> nat \<Rightarrow> char" where
  "byte_before w i = (case irc_parv w ! i of Some (Raw (Suc k)) \<Rightarrow> IRC_RAW w ! k | _ \<Rightarrow> NUL)"

definition irc_parse :: "irc_sys \<Rightarrow> 'a irc_st_scheme \<Rightarrow> 'a irc_st_scheme option" where
  "irc_parse sys w =
     (if IRC_RAW_LEN w \<le> 0 then Some w
      else do {
        let w = w\<lparr>IRC_LAST := clock w\<rparr>;
        msg \<leftarrow> read_cstr (IRC_RAW w);
        let (pv, pc) = (if IRC_RAW w ! 0 = CHR '':'' then ((irc_parv w)[0 := Some (Raw 1)], 1)
                        else ((irc_parv w)[0 := Some Server_name, 1 := Some (Raw 0)], 2));
        (raw, pv, pc) \<leftarrow> parse_loop 0 (IRC_RAW w) pv pc;
        let w = w\<lparr>IRC_RAW := raw, irc_parv := pv\<rparr>;
        src \<leftarrow> parv_str w 0;
        cmd \<leftarrow> parv_str w 1;
        let m = \<lparr>parv = map (parv_str w) [0..<17], parc = pc, before3 = byte_before w 3, raw_msg = msg, source = userinfo_create src\<rparr>;
        irc_dispatch sys cmd m w })"

section \<open>Reading\<close>

text \<open>How the data that is there ends: there is no more now, or the connection is broken.\<close>

datatype read_end = Again | Broken

fun irc_read :: "irc_sys \<Rightarrow> read_end \<Rightarrow> string \<Rightarrow> 'a irc_st_scheme \<Rightarrow> (string \<times> 'a irc_st_scheme) option" where
  "irc_read sys e [] w =
     Some ([], case e of Again \<Rightarrow> w | Broken \<Rightarrow> (irc_reconnect w)\<lparr>IRC_RAW_LEN := 0\<rparr>)"
| "irc_read sys e (c # inp) w =
     (if c = CHR 0x0D then irc_read sys e inp w
      else if c = CHR 0x0A then do {
        raw \<leftarrow> store_at (IRC_RAW w) (IRC_RAW_LEN w) NUL;
        w \<leftarrow> irc_parse sys (w\<lparr>IRC_RAW := raw\<rparr>);
        Some (inp, w\<lparr>IRC_RAW_LEN := 0\<rparr>) }
      else if c = NUL then irc_read sys e inp w
      else do {
        raw \<leftarrow> store_at (IRC_RAW w) (IRC_RAW_LEN w) c;
        irc_read sys e inp (w\<lparr>IRC_RAW := raw, IRC_RAW_LEN := Suc (IRC_RAW_LEN w)\<rparr>) })"

section \<open>What a line says\<close>

text \<open>The parts of a line, by the rules of the protocol: they are separated by single spaces, and a
  colon after a space makes the rest of the line the last part.\<close>

function toks :: "string \<Rightarrow> string list" where
  "toks s =
     (let u = takeWhile (\<lambda>c. c \<noteq> CHR '' '') s; r = drop (length u + 1) s in
      if length u = length s then [s]
      else u # (if first_char r = CHR '':'' then [tl r] else toks r))"
  by pat_completeness auto
termination
  by (relation "measure length") (auto simp: Let_def dest: le_neq_implies_less [OF length_takeWhile_le])

declare toks.simps [simp del]

lemma toks_nospace:
  assumes "CHR '' '' \<notin> set s"
  shows "toks s = [s]"
proof -
  have "takeWhile (\<lambda>c. c \<noteq> CHR '' '') s = s" using assms by (induction s) auto
  then show ?thesis by (subst toks.simps) (simp only: Let_def, simp)
qed

lemma toks_space:
  assumes "CHR '' '' \<notin> set u"
  shows "toks (u @ CHR '' '' # r) = u # (if first_char r = CHR '':'' then [tl r] else toks r)"
  by (subst toks.simps) (simp add: takeWhile_stop [OF assms])

lemma toks_nonempty [simp]: "toks s \<noteq> []"
  by (subst toks.simps) (simp add: Let_def)

lemma toks_cases:
  obtains "CHR '' '' \<notin> set s" | u r where "s = u @ CHR '' '' # r" "CHR '' '' \<notin> set u"
  by (metis split_list_first)

lemma next_space_at:
  assumes "cstring s"
  shows "next_space (pre @ s @ NUL # rest) (length pre) =
    Some (if CHR '' '' \<in> set s then Some (length pre + length (takeWhile (\<lambda>c. c \<noteq> CHR '' '') s)) else None)"
proof (cases "CHR '' '' \<in> set s")
  case True
  then obtain u r where s: "s = u @ CHR '' '' # r" "CHR '' '' \<notin> set u" by (meson split_list_first)
  have "takeWhile (\<lambda>c. c \<noteq> CHR '' '' \<and> c \<noteq> NUL) (s @ NUL # rest) = u"
    using assms s by (induction u arbitrary: s) auto
  then show ?thesis using s takeWhile_stop [OF s(2)] by (simp add: next_space_def)
next
  case False
  have "takeWhile (\<lambda>c. c \<noteq> CHR '' '' \<and> c \<noteq> NUL) (s @ NUL # rest) = s"
    using assms False by (induction s) auto
  then show ?thesis using False by (simp add: next_space_def)
qed

lemma read_cstr_at: "cstring s \<Longrightarrow> read_cstr (s @ NUL # rest) = Some s"
  by (simp add: read_cstr_def buffer_string_def takeWhile_nul)

text \<open>The loop: it stores the positions of the parts after the first, or leaves the array when there
  are more than it has room for.\<close>

definition points :: "string \<Rightarrow> nat list \<Rightarrow> string list \<Rightarrow> bool" where
  "points raw ks ts \<longleftrightarrow> list_all2 (\<lambda>k t. read_cstr (drop k raw) = Some t) ks ts \<and> (\<forall>k \<in> set ks. 0 < k \<and> raw ! (k - 1) \<in> {NUL, CHR '':''})"

definition stored :: "parv_ptr option list \<Rightarrow> nat \<Rightarrow> nat list \<Rightarrow> parv_ptr option list" where
  "stored pv pc ks = take pc pv @ map (\<lambda>k. Some (Raw k)) ks @ drop (pc + length ks) pv"

lemma stored_Nil [simp]: "stored pv pc [] = pv"
  by (simp add: stored_def)

lemma stored_Cons: "pc < length pv \<Longrightarrow> stored (pv[pc := Some (Raw k)]) (Suc pc) ks = stored pv pc (k # ks)"
  by (simp add: stored_def take_Suc_conv_app_nth)

lemma nul_at: "(pre @ u @ c # r)[length pre + length u := NUL] = (pre @ u @ [NUL]) @ r"
  by (simp add: list_update_append)

definition split_as :: "string \<Rightarrow> string \<Rightarrow> string \<Rightarrow> parv_ptr option list \<Rightarrow> nat \<Rightarrow> string \<Rightarrow> nat list \<Rightarrow> bool" where
  "split_as pre s rest pv pc raw ks \<longleftrightarrow>
     parse_loop (length pre) (pre @ s @ NUL # rest) pv pc = Some (pre @ raw, stored pv pc ks, pc + length ks) \<and>
     read_cstr raw = Some (hd (toks s)) \<and> points (pre @ raw) ks (tl (toks s)) \<and> length raw = length s + 1 + length rest"

definition split_ok :: "string \<Rightarrow> string \<Rightarrow> string \<Rightarrow> parv_ptr option list \<Rightarrow> nat \<Rightarrow> bool" where
  "split_ok pre s rest pv pc =
     (if pc + length (tl (toks s)) \<le> 17 then \<exists>raw ks. split_as pre s rest pv pc raw ks
      else parse_loop (length pre) (pre @ s @ NUL # rest) pv pc = None)"

lemma split_okI: "split_as pre s rest pv pc raw ks \<Longrightarrow> pc + length (tl (toks s)) \<le> 17 \<Longrightarrow> split_ok pre s rest pv pc"
  unfolding split_ok_def by auto

lemma split_ok_last:
  assumes "cstring s" "CHR '' '' \<notin> set s" "pc \<le> 17"
  shows "split_ok pre s rest pv pc"
proof (rule split_okI)
  show "split_as pre s rest pv pc (s @ NUL # rest) []"
    unfolding split_as_def using toks_nospace [OF assms(2)] read_cstr_at [OF assms(1)] assms(2)
    by (subst parse_loop.simps) (simp add: next_space_at [OF assms(1)] points_def)
qed (use toks_nospace [OF assms(2)] assms(3) in simp)

lemma parse_loop_space:
  assumes "cstring (u @ CHR '' '' # r)" "CHR '' '' \<notin> set u" "pc \<le> 17"
  shows "parse_loop (length pre) (pre @ (u @ CHR '' '' # r) @ NUL # rest) pv pc =
    (let cut = (pre @ u @ [NUL]) @ r @ NUL # rest; pos = length (pre @ u @ [NUL]) in
     if first_char r = CHR '':'' then do { pv \<leftarrow> parv_set pv pc (pos + 1); Some (cut, pv, pc + 1) }
     else do { pv \<leftarrow> parv_set pv pc pos; parse_loop pos cut pv (pc + 1) })"
proof -
  define raw where "raw = pre @ (u @ CHR '' '' # r) @ NUL # rest"
  define pos where "pos = length pre + length u"
  have n: "next_space raw (length pre) = Some (Some pos)"
    using next_space_at [OF assms(1)] takeWhile_stop [OF assms(2)] by (simp add: raw_def pos_def)
  have b: "pos + 1 < length raw" "raw ! (pos + 1) = first_char r"
    by (simp_all add: raw_def pos_def nth_append first_char_def split: list.split)
  have cut: "raw[pos := NUL] = (pre @ u @ [NUL]) @ r @ NUL # rest" by (simp add: raw_def pos_def list_update_append)
  have "parse_loop (length pre) raw pv pc = (if first_char r = CHR '':''
      then do { pv \<leftarrow> parv_set pv pc (pos + 2); Some (raw[pos := NUL], pv, pc + 1) }
      else do { pv \<leftarrow> parv_set pv pc (pos + 1); parse_loop (pos + 1) (raw[pos := NUL]) pv (pc + 1) })"
    using n b assms(3) by (subst parse_loop.simps) (cases "first_char r = CHR '' ''", simp_all)
  then show ?thesis unfolding cut by (simp add: raw_def pos_def Let_def)
qed

lemma parv_set_in: "length pv = 17 \<Longrightarrow> pc < 17 \<Longrightarrow> parv_set pv pc k = Some (pv[pc := Some (Raw k)])"
  by (simp add: parv_set_def store_at_def)

lemma split_ok_colon:
  assumes "cstring (u @ CHR '' '' # r)" "CHR '' '' \<notin> set u" "length pv = 17" "pc < 17" "first_char r = CHR '':''"
  shows "split_ok pre (u @ CHR '' '' # r) rest pv pc"
proof -
  obtain t where r: "r = CHR '':'' # t" using assms(5) by (cases r) (simp_all add: first_char_def)
  have c: "cstring u" "cstring t" using assms(1) r by (simp_all add: cstring_def)
  let ?k = "length pre + length u + 2"
  have tk: "toks (u @ CHR '' '' # r) = [u, t]" using toks_space [OF assms(2)] assms(5) r by simp
  have pl: "parse_loop (length pre) (pre @ (u @ CHR '' '' # r) @ NUL # rest) pv pc =
      Some (pre @ u @ NUL # r @ NUL # rest, stored pv pc [?k], pc + 1)"
    using parse_loop_space [OF assms(1,2), of pc pre rest pv] parv_set_in [OF assms(3,4)] assms(3,4,5) stored_Cons [of pc pv ?k "[]"]
    by (simp add: Let_def)
  have "points (pre @ u @ NUL # r @ NUL # rest) [?k] [t]"
    using read_cstr_at [OF c(2), of rest] by (simp add: points_def r nth_append)
  then have "split_as pre (u @ CHR '' '' # r) rest pv pc (u @ NUL # r @ NUL # rest) [?k]"
    using pl tk read_cstr_at [OF c(1), of "r @ NUL # rest"] by (simp add: split_as_def)
  then show ?thesis using tk assms(4) by (intro split_okI) simp_all
qed

lemma split_ok_next:
  assumes "cstring (u @ CHR '' '' # r)" "CHR '' '' \<notin> set u" "length pv = 17" "pc < 17" "first_char r \<noteq> CHR '':''"
    and IH: "split_ok (pre @ u @ [NUL]) r rest (pv[pc := Some (Raw (length (pre @ u @ [NUL])))]) (Suc pc)"
  shows "split_ok pre (u @ CHR '' '' # r) rest pv pc"
proof -
  let ?pre = "pre @ u @ [NUL]" and ?s = "u @ CHR '' '' # r"
  let ?pv = "pv[pc := Some (Raw (length ?pre))]"
  have pl: "parse_loop (length pre) (pre @ ?s @ NUL # rest) pv pc = parse_loop (length ?pre) (?pre @ r @ NUL # rest) ?pv (Suc pc)"
    using parse_loop_space [OF assms(1,2), of pc pre rest pv] parv_set_in [OF assms(3,4)] assms(4,5) by (simp add: Let_def)
  have tk: "toks ?s = u # toks r" using toks_space [OF assms(2)] assms(5) by simp
  have len: "length (tl (toks ?s)) = Suc (length (tl (toks r)))" using tk by (cases "toks r") auto
  show ?thesis
  proof (cases "Suc pc + length (tl (toks r)) \<le> 17")
    case True
    then obtain raw ks where R: "split_as ?pre r rest ?pv (Suc pc) raw ks" using IH unfolding split_ok_def by (simp only: if_True) blast
    then have "points (?pre @ raw) (length ?pre # ks) (tl (toks ?s))"
      using tk by (cases "toks r") (auto simp: split_as_def points_def nth_append)
    then have "split_as pre ?s rest pv pc (u @ NUL # raw) (length ?pre # ks)"
      using R pl stored_Cons [of pc pv "length ?pre" ks] assms(1,3,4) tk read_cstr_at [of u raw]
      by (simp add: split_as_def cstring_def)
    then show ?thesis using True len by (intro split_okI) simp_all
  next
    case False
    then have "\<not> pc + length (tl (toks ?s)) \<le> 17" unfolding len by linarith
    moreover have "parse_loop (length pre) (pre @ ?s @ NUL # rest) pv pc = None"
      using IH False pl unfolding split_ok_def by (simp only: if_False)
    ultimately show ?thesis unfolding split_ok_def by (simp only: if_False)
  qed
qed

lemma parse_loop_toks:
  assumes "cstring s" "length pv = 17" "pc \<le> 17"
  shows "split_ok pre s rest pv pc"
  using assms
proof (induction s arbitrary: pre pv pc rule: length_induct)
  case (1 s)
  show ?case
  proof (cases rule: toks_cases [of s])
    case 1
    then show ?thesis using split_ok_last \<open>cstring s\<close> \<open>pc \<le> 17\<close> by blast
  next
    case (2 u r)
    have c: "cstring (u @ CHR '' '' # r)" "cstring r" using \<open>cstring s\<close> 2(1) by (simp_all add: cstring_def)
    show ?thesis
    proof (cases "pc = 17")
      case True
      then have "parv_set pv pc k = None" for k using 1(3) by (simp add: parv_set_def store_at_def)
      then have "parse_loop (length pre) (pre @ s @ NUL # rest) pv pc = None"
        using parse_loop_space [OF c(1) 2(2), of pc pre rest pv] True 2(1) by (simp add: Let_def)
      then show ?thesis using True toks_space [OF 2(2), of r] 2(1) by (auto simp: split_ok_def)
    next
      case False
      then have pc: "pc < 17" using 1(4) by simp
      have "split_ok (pre @ u @ [NUL]) r rest (pv[pc := Some (Raw (length (pre @ u @ [NUL])))]) (Suc pc)"
        by (rule 1(1) [rule_format, OF _ c(2)]) (use 1(3) pc 2(1) in simp_all)
      then show ?thesis
        using split_ok_colon [OF c(1) 2(2) 1(3) pc] split_ok_next [OF c(1) 2(2) 1(3) pc] 2(1) by blast
    qed
  qed
qed

section \<open>A whole line\<close>

text \<open>The parts of a line as the handlers count them, the source first.\<close>

definition line_parts :: "string \<Rightarrow> string \<Rightarrow> string list" where
  "line_parts server s = (if first_char s = CHR '':'' then tl (hd (toks s)) # tl (toks s) else server # toks s)"

definition says :: "irc_msg \<Rightarrow> string list \<Rightarrow> string \<Rightarrow> bool" where
  "says m ps s \<longleftrightarrow> parc m = length ps \<and> (\<forall>i < length ps. parv m ! i = Some (ps ! i)) \<and> raw_msg m = s \<and>
     source m = userinfo_create (ps ! 0) \<and> (4 \<le> length ps \<longrightarrow> before3 m \<in> {NUL, CHR '':''})"

text \<open>The state in which a line has been read.\<close>

definition holds_line :: "string \<Rightarrow> 'a irc_st_scheme \<Rightarrow> bool" where
  "holds_line s w \<longleftrightarrow> cstring s \<and> s \<noteq> [] \<and> IRC_RAW_LEN w = length s \<and> length (irc_parv w) = 17 \<and> (\<exists>rest. IRC_RAW w = s @ NUL # rest)"

lemma stored_nth:
  assumes "pc + length ks \<le> length pv" "i < length pv"
  shows "stored pv pc ks ! i = (if i < pc then pv ! i else if i < pc + length ks then Some (Raw (ks ! (i - pc))) else pv ! i)"
  using assms by (auto simp: stored_def nth_append)

lemma stored_length [simp]: "pc + length ks \<le> length pv \<Longrightarrow> length (stored pv pc ks) = length pv"
  by (simp add: stored_def)

lemma read_cstr_tl: "read_cstr (c # raw) = Some (c # t) \<Longrightarrow> c \<noteq> NUL \<Longrightarrow> read_cstr raw = Some t"
  by (auto simp: read_cstr_def buffer_string_def split: if_splits)

lemma toks_hd: "s = c # t \<Longrightarrow> c \<noteq> CHR '' '' \<Longrightarrow> \<exists>u. hd (toks s) = c # u"
  by (subst toks.simps) (auto simp: Let_def)

definition first_ptrs :: "string \<Rightarrow> parv_ptr option list \<Rightarrow> parv_ptr option list \<times> nat" where
  "first_ptrs s pv = (if first_char s = CHR '':'' then (pv[0 := Some (Raw 1)], 1) else (pv[0 := Some Server_name, 1 := Some (Raw 0)], 2))"

lemma irc_parse_split:
  assumes "holds_line s w"
  shows "irc_parse sys w = (case parse_loop 0 (IRC_RAW w) (fst (first_ptrs s (irc_parv w))) (snd (first_ptrs s (irc_parv w))) of
     None \<Rightarrow> None
   | Some (raw, pv, pc) \<Rightarrow> do {
       let w = w\<lparr>IRC_LAST := clock w, IRC_RAW := raw, irc_parv := pv\<rparr>;
       src \<leftarrow> parv_str w 0;
       cmd \<leftarrow> parv_str w 1;
       irc_dispatch sys cmd \<lparr>parv = map (parv_str w) [0..<17], parc = pc, before3 = byte_before w 3, raw_msg = s, source = userinfo_create src\<rparr> w })"
proof -
  obtain rest where r: "IRC_RAW w = s @ NUL # rest" using assms by (auto simp: holds_line_def)
  have "read_cstr (IRC_RAW w) = Some s" using read_cstr_at assms r by (auto simp: holds_line_def)
  moreover have "IRC_RAW w ! 0 = first_char s" "0 < IRC_RAW_LEN w" using assms r by (cases s; simp add: holds_line_def first_char_def)+
  ultimately show ?thesis by (simp add: irc_parse_def first_ptrs_def Let_def split: option.split)
qed

lemma parts_count: "length (line_parts server s) = snd (first_ptrs s pv) + length (tl (toks s))"
  by (cases "toks s") (auto simp: line_parts_def first_ptrs_def)

lemma irc_parse_overflow:
  assumes "holds_line s w" "17 < length (line_parts server s)"
  shows "irc_parse sys w = None"
proof -
  obtain rest where r: "IRC_RAW w = s @ NUL # rest" "cstring s" using assms by (auto simp: holds_line_def)
  have "split_ok [] s rest (fst (first_ptrs s (irc_parv w))) (snd (first_ptrs s (irc_parv w)))"
    using assms(1) r(2) by (intro parse_loop_toks) (simp_all add: holds_line_def first_ptrs_def)
  then have "parse_loop 0 (IRC_RAW w) (fst (first_ptrs s (irc_parv w))) (snd (first_ptrs s (irc_parv w))) = None"
    using assms(2) parts_count [of server s "irc_parv w"] r(1) by (simp add: split_ok_def)
  then show ?thesis by (simp add: irc_parse_split [OF assms(1)])
qed

text \<open>A source with no command: the pointer to the command is what an earlier line left, and a null
  pointer before the first.\<close>

lemma irc_parse_no_command:
  assumes "holds_line s w" "length (line_parts server s) = 1" "irc_parv w ! 1 = None"
  shows "irc_parse sys w = None"
proof -
  obtain rest where r: "IRC_RAW w = s @ NUL # rest" "cstring s" using assms(1) by (auto simp: holds_line_def)
  have c: "first_char s = CHR '':''" "tl (toks s) = []" using assms(2) by (cases "toks s"; simp add: line_parts_def split: if_splits)+
  then have f: "first_ptrs s (irc_parv w) = ((irc_parv w)[0 := Some (Raw 1)], 1)" by (simp add: first_ptrs_def)
  have "split_ok [] s rest ((irc_parv w)[0 := Some (Raw 1)]) 1" using assms(1) r(2) by (intro parse_loop_toks) (simp_all add: holds_line_def)
  then obtain raw ks where "split_as [] s rest ((irc_parv w)[0 := Some (Raw 1)]) 1 raw ks" using c(2) by (auto simp: split_ok_def)
  then have "parse_loop 0 (IRC_RAW w) ((irc_parv w)[0 := Some (Raw 1)]) 1 = Some (raw, (irc_parv w)[0 := Some (Raw 1)], 1)"
    using c(2) r(1) by (auto simp: split_as_def points_def)
  moreover have "parv_str (w\<lparr>IRC_LAST := clock w, IRC_RAW := raw, irc_parv := (irc_parv w)[0 := Some (Raw 1)]\<rparr>) 1 = None"
    using assms(3) by (simp add: parv_str_def)
  ultimately show ?thesis using irc_parse_split [OF assms(1), of sys] f by (simp add: Let_def)
qed

lemma parts_found:
  assumes l: "holds_line s w" "length (line_parts (irc_server (IRCItem (cfg w))) s) \<le> 17"
    and s: "split_as [] s rest (fst (first_ptrs s (irc_parv w))) (snd (first_ptrs s (irc_parv w))) raw ks"
    and w': "IRC_RAW w' = raw" "irc_parv w' = stored (fst (first_ptrs s (irc_parv w))) (snd (first_ptrs s (irc_parv w))) ks" "cfg w' = cfg w"
    and i: "i < length (line_parts (irc_server (IRCItem (cfg w))) s)"
  shows "parv_str w' i = Some (line_parts (irc_server (IRCItem (cfg w))) s ! i)"
    and "2 \<le> i \<Longrightarrow> byte_before w' i \<in> {NUL, CHR '':''}"
proof -
  define pv pc where "pv = fst (first_ptrs s (irc_parv w))" and "pc = snd (first_ptrs s (irc_parv w))"
  let ?ps = "line_parts (irc_server (IRCItem (cfg w))) s"
  have pvl: "length pv = 17" using l(1) by (simp add: pv_def first_ptrs_def holds_line_def)
  have sp: "read_cstr raw = Some (hd (toks s))" "points raw ks (tl (toks s))" using s by (simp_all add: split_as_def)
  have kl: "length ks = length (tl (toks s))" using sp(2) by (auto simp: points_def dest: list_all2_lengthD)
  have cnt: "length ?ps = pc + length ks" using parts_count [of _ s "irc_parv w"] kl by (simp add: pc_def)
  have nth: "irc_parv w' ! j = (if j < pc then pv ! j else Some (Raw (ks ! (j - pc))))" if "j < length ?ps" for j
    using w'(2) stored_nth [of pc ks pv j] that cnt pvl l(2) by (simp add: pv_def pc_def)
  have late: "ps_i = tl (toks s) ! (i - pc)" if "pc \<le> i" "ps_i = ?ps ! i" for ps_i
    using that i by (cases "toks s"; cases i) (auto simp: line_parts_def pc_def first_ptrs_def nth_Cons' split: if_splits)
  have k: "read_cstr (drop (ks ! (i - pc)) raw) = Some (tl (toks s) ! (i - pc))" "0 < ks ! (i - pc)" "raw ! (ks ! (i - pc) - 1) \<in> {NUL, CHR '':''}"
    if "pc \<le> i"
    using sp(2) that i cnt kl by (auto simp: points_def list_all2_conv_all_nth)
  show "parv_str w' i = Some (?ps ! i)"
  proof (cases "pc \<le> i")
    case True
    then show ?thesis using nth [OF i] k(1) late w'(1) by (simp add: parv_str_def)
  next
    case False
    obtain c t where st: "s = c # t" using l(1) by (cases s) (auto simp: holds_line_def)
    have c: "c \<noteq> NUL" using l(1) st by (simp add: holds_line_def)
    show ?thesis
    proof (cases "c = CHR '':''")
      case True
      obtain u where u: "hd (toks s) = c # u" using toks_hd [OF st] True by auto
      obtain d raw2 where d: "raw = d # raw2" using s by (cases raw) (simp_all add: split_as_def)
      have "d = c" using sp(1) u d by (auto simp: read_cstr_def buffer_string_def split: if_splits)
      then have "read_cstr raw2 = Some u" using read_cstr_tl [of c raw2 u] sp(1) u d c by simp
      moreover have "i = 0" using False True st by (simp add: pc_def first_ptrs_def first_char_def)
      ultimately show ?thesis using nth [OF i] False True st u d w'(1) l(1)
        by (simp add: parv_str_def pv_def pc_def first_ptrs_def first_char_def line_parts_def holds_line_def)
    next
      case nc: False
      then have "i = 0 \<or> i = 1" using False st by (auto simp: pc_def first_ptrs_def first_char_def)
      then show ?thesis using nth [OF i] nc st w'(1,3) sp(1) l(1)
        by (auto simp: parv_str_def pv_def pc_def first_ptrs_def first_char_def line_parts_def holds_line_def hd_conv_nth)
    qed
  qed
  show "byte_before w' i \<in> {NUL, CHR '':''}" if "2 \<le> i"
  proof -
    have "pc \<le> i" using that by (simp add: pc_def first_ptrs_def)
    then show ?thesis using nth [OF i] k w'(1) by (cases "ks ! (i - pc)") (auto simp: byte_before_def)
  qed
qed

lemma irc_parse_line:
  assumes l: "holds_line s w" and p: "ps = line_parts (irc_server (IRCItem (cfg w))) s" "2 \<le> length ps" "length ps \<le> 17"
  shows "\<exists>m raw pv. irc_parse sys w = irc_dispatch sys (ps ! 1) m (w\<lparr>IRC_LAST := clock w, IRC_RAW := raw, irc_parv := pv\<rparr>) \<and>
    says m ps s \<and> length raw = length (IRC_RAW w) \<and> length pv = 17"
proof -
  define pv pc where "pv = fst (first_ptrs s (irc_parv w))" and "pc = snd (first_ptrs s (irc_parv w))"
  obtain rest where r: "IRC_RAW w = s @ NUL # rest" "cstring s" using l by (auto simp: holds_line_def)
  have pvl: "length pv = 17" using l by (simp add: pv_def first_ptrs_def holds_line_def)
  have cnt: "length ps = pc + length (tl (toks s))" using parts_count [of _ s "irc_parv w"] p(1) by (simp add: pc_def)
  have "split_ok [] s rest pv pc" using pvl r(2) by (intro parse_loop_toks) (simp_all add: pc_def first_ptrs_def)
  then obtain raw ks where S: "split_as [] s rest pv pc raw ks" using p(3) cnt unfolding split_ok_def by auto
  then have sp: "parse_loop 0 (IRC_RAW w) pv pc = Some (raw, stored pv pc ks, pc + length ks)" "length raw = length (IRC_RAW w)"
      "length ks = length (tl (toks s))"
    using r(1) by (auto simp: split_as_def points_def dest: list_all2_lengthD)
  define w' where "w' = w\<lparr>IRC_LAST := clock w, IRC_RAW := raw, irc_parv := stored pv pc ks\<rparr>"
  have found: "parv_str w' i = Some (ps ! i)" "2 \<le> i \<Longrightarrow> byte_before w' i \<in> {NUL, CHR '':''}" if "i < length ps" for i
    using parts_found [OF l _ S [unfolded pv_def pc_def], of w' i] that p by (simp_all add: w'_def pv_def pc_def)
  have n: "0 < length ps" "1 < length ps" using p(2) by linarith+
  define m where "m = \<lparr>parv = map (parv_str w') [0..<17], parc = pc + length ks, before3 = byte_before w' 3, raw_msg = s,
      source = userinfo_create (ps ! 0)\<rparr>"
  have "irc_parse sys w = irc_dispatch sys (ps ! 1) m w'"
    using irc_parse_split [OF l, of sys] sp(1) found(1) [OF n(1)] found(1) [OF n(2)] by (simp add: pv_def [symmetric] pc_def [symmetric] w'_def m_def Let_def)
  moreover have "says m ps s" using found p(3) cnt sp(3) by (simp add: says_def m_def)
  ultimately show ?thesis using sp(2,3) pvl p(3) cnt by (intro exI [of _ m] exI [of _ raw] exI [of _ "stored pv pc ks"]) (simp add: w'_def)
qed

section \<open>Reassembly\<close>

text \<open>What is stored of the bytes read, and the buffer after storing them.\<close>

definition line_bytes :: "string \<Rightarrow> string" where
  "line_bytes a = filter (\<lambda>c. c \<noteq> CHR 0x0D \<and> c \<noteq> NUL) a"

definition fill :: "string \<Rightarrow> 'a irc_st_scheme \<Rightarrow> 'a irc_st_scheme" where
  "fill a w = w\<lparr>IRC_RAW := take (IRC_RAW_LEN w) (IRC_RAW w) @ a @ drop (IRC_RAW_LEN w + length a) (IRC_RAW w),
     IRC_RAW_LEN := IRC_RAW_LEN w + length a\<rparr>"

lemma fill_Nil [simp]: "fill [] w = w"
  by (simp add: fill_def)

lemma fill_Cons:
  assumes "IRC_RAW_LEN w < length (IRC_RAW w)"
  shows "fill a (w\<lparr>IRC_RAW := (IRC_RAW w)[IRC_RAW_LEN w := c], IRC_RAW_LEN := Suc (IRC_RAW_LEN w)\<rparr>) = fill (c # a) w"
  using assms by (simp add: fill_def take_Suc_conv_app_nth)

lemma line_bytes_cstring [simp]: "cstring (line_bytes a)"
  by (simp add: line_bytes_def cstring_def)

lemma irc_read_bytes:
  assumes "CHR 0x0A \<notin> set a" "IRC_RAW_LEN w \<le> length (IRC_RAW w)"
  shows "irc_read sys e (a @ b) w =
    (if IRC_RAW_LEN w + length (line_bytes a) \<le> length (IRC_RAW w) then irc_read sys e b (fill (line_bytes a) w) else None)"
  using assms
proof (induction a arbitrary: w)
  case (Cons c a)
  show ?case
  proof (cases "c = CHR 0x0D \<or> c = NUL")
    case True
    then show ?thesis using Cons by (auto simp: line_bytes_def)
  next
    case False
    then have lb: "line_bytes (c # a) = c # line_bytes a" by (simp add: line_bytes_def)
    show ?thesis
    proof (cases "IRC_RAW_LEN w < length (IRC_RAW w)")
      case True
      let ?w = "w\<lparr>IRC_RAW := (IRC_RAW w)[IRC_RAW_LEN w := c], IRC_RAW_LEN := Suc (IRC_RAW_LEN w)\<rparr>"
      have "irc_read sys e ((c # a) @ b) w = irc_read sys e (a @ b) ?w" using False True Cons.prems by (auto simp: store_at_def)
      then show ?thesis using Cons.IH [of ?w] Cons.prems True fill_Cons [OF True] lb by simp
    next
      case F: False
      then show ?thesis using False Cons.prems lb by (auto simp: store_at_def)
    qed
  qed
qed (simp add: line_bytes_def)

text \<open>The buffer when a line ends: what was there before, the new bytes and a NUL.\<close>

definition ended :: "string \<Rightarrow> 'a irc_st_scheme \<Rightarrow> 'a irc_st_scheme" where
  "ended l w = w\<lparr>IRC_RAW := (take (IRC_RAW_LEN w) (IRC_RAW w) @ l) @ NUL # drop (IRC_RAW_LEN w + length l + 1) (IRC_RAW w),
     IRC_RAW_LEN := IRC_RAW_LEN w + length l\<rparr>"

lemma fill_ended:
  assumes "IRC_RAW_LEN w + length l < length (IRC_RAW w)"
  shows "(fill l w)\<lparr>IRC_RAW := (IRC_RAW (fill l w))[IRC_RAW_LEN w + length l := NUL]\<rparr> = ended l w"
  using assms by (simp add: fill_def ended_def list_update_append min_def Cons_nth_drop_Suc [symmetric])

lemma irc_read_line:
  assumes "CHR 0x0A \<notin> set a" "IRC_RAW_LEN w \<le> length (IRC_RAW w)"
  shows "irc_read sys e (a @ CHR 0x0A # b) w =
    (if IRC_RAW_LEN w + length (line_bytes a) < length (IRC_RAW w)
     then do { w \<leftarrow> irc_parse sys (ended (line_bytes a) w); Some (b, w\<lparr>IRC_RAW_LEN := 0\<rparr>) } else None)"
proof -
  let ?l = "line_bytes a"
  have f: "length (IRC_RAW (fill ?l w)) = length (IRC_RAW w)" if "IRC_RAW_LEN w + length ?l \<le> length (IRC_RAW w)" using that by (simp add: fill_def)
  show ?thesis
  proof (cases "IRC_RAW_LEN w + length ?l < length (IRC_RAW w)")
    case True
    have "irc_read sys e (CHR 0x0A # b) (fill ?l w) = do {
        w \<leftarrow> irc_parse sys ((fill ?l w)\<lparr>IRC_RAW := (IRC_RAW (fill ?l w))[IRC_RAW_LEN w + length ?l := NUL]\<rparr>); Some (b, w\<lparr>IRC_RAW_LEN := 0\<rparr>) }"
      using True f by (simp add: store_at_def) (simp add: fill_def)
    then show ?thesis using irc_read_bytes [OF assms, of sys e "CHR 0x0A # b"] True fill_ended [OF True] by simp
  next
    case False
    have "irc_read sys e (CHR 0x0A # b) (fill ?l w) = None" if "IRC_RAW_LEN w + length ?l \<le> length (IRC_RAW w)"
      using False f [OF that] by (simp add: store_at_def) (simp add: fill_def)
    then show ?thesis using irc_read_bytes [OF assms, of sys e "CHR 0x0A # b"] False by simp
  qed
qed

section \<open>Sources\<close>

lemma userinfo_loop_plain:
  assumes "CHR ''!'' \<notin> set u" "CHR ''@'' \<notin> set u"
  shows "userinfo_loop i (u @ r) (a, b) = (u @ fst (userinfo_loop (i + length u) r (a, b)), snd (userinfo_loop (i + length u) r (a, b)))"
  using assms
proof (induction u arbitrary: i)
  case (Cons c u)
  then show ?case by (cases "userinfo_loop (Suc i) (u @ r) (a, b)") (auto simp: Let_def)
qed simp

definition plain :: "string \<Rightarrow> bool" where
  "plain s \<longleftrightarrow> cstring s \<and> CHR ''!'' \<notin> set s \<and> CHR ''@'' \<notin> set s"

lemma userinfo_create_parts:
  assumes "plain nick" "plain user" "plain host"
  shows "userinfo_create (nick @ ''!'' @ user @ ''@'' @ host) = Some \<lparr>ui_nick = nick, ui_username = user, ui_hostname = host\<rparr>"
proof -
  have host: "userinfo_loop i host p = (host, p)" for i p
    using userinfo_loop_plain [of host i "[]" "fst p" "snd p"] assms(3) by (cases p) (simp add: plain_def)
  have "userinfo_loop (Suc (length nick)) (user @ CHR ''@'' # host) (Some (Suc (length nick)), None) =
      (user @ NUL # host, Some (Suc (length nick)), Some (Suc (Suc (length nick + length user))))"
    using assms(2) by (subst userinfo_loop_plain) (simp_all add: plain_def host Let_def)
  then have "userinfo_loop 0 (nick @ CHR ''!'' # user @ CHR ''@'' # host) (None, None) =
      (nick @ NUL # user @ NUL # host, Some (Suc (length nick)), Some (Suc (Suc (length nick + length user))))"
    using assms(1) by (subst userinfo_loop_plain) (simp_all add: plain_def Let_def)
  moreover have "takeWhile (\<lambda>c. c \<noteq> NUL) host = host" using takeWhile_nul [of host "[]"] assms(3)
    by (simp add: plain_def cstring_def) metis
  ultimately show ?thesis using assms by (simp add: userinfo_create_def buffer_string_def takeWhile_nul plain_def)
qed

lemma userinfo_create_server: "CHR ''!'' \<notin> set s \<or> CHR ''@'' \<notin> set s \<Longrightarrow> userinfo_create s = None"
proof -
  have gen: "(CHR ''!'' \<notin> set s \<longrightarrow> fst (snd (userinfo_loop i s (a, b))) = a) \<and>
      (CHR ''@'' \<notin> set s \<longrightarrow> snd (snd (userinfo_loop i s (a, b))) = b)" for i a b
    by (induction s arbitrary: i a b) (simp_all add: Let_def case_prod_beta)
  assume "CHR ''!'' \<notin> set s \<or> CHR ''@'' \<notin> set s"
  then show ?thesis using gen [of 0 None None] by (cases "userinfo_loop 0 s (None, None)") (auto simp: userinfo_create_def split: option.splits)
qed

lemma saysD: "says m ps s \<Longrightarrow> parc m = length ps" "says m ps s \<Longrightarrow> i < length ps \<Longrightarrow> parv m ! i = Some (ps ! i)"
  by (simp_all add: says_def)

section \<open>Connection notices\<close>

lemma notice_cut_nth:
  assumes "\<forall>(so, eo) \<in> set gs. 0 \<le> eo \<and> eo + 1 < int (length buf)"
  shows "\<exists>buf'. notice_cut gs buf = Some buf' \<and> length buf' = length buf \<and>
    (\<forall>k < length buf. buf' ! k = (if int k - 1 \<in> snd ` set gs then NUL else buf ! k))"
  using assms
proof (induction gs arbitrary: buf)
  case (Cons g gs)
  obtain so eo where g: "g = (so, eo)" by (cases g)
  have b: "0 \<le> eo" "eo + 1 < int (length buf)" using Cons.prems g by auto
  let ?buf = "buf[nat (eo + 1) := NUL]"
  obtain buf' where buf': "notice_cut gs ?buf = Some buf'" "length buf' = length buf"
      "\<forall>k < length buf. buf' ! k = (if int k - 1 \<in> snd ` set gs then NUL else ?buf ! k)"
    using Cons.IH [of ?buf] Cons.prems by auto
  have "?buf ! k = (if int k - 1 = eo then NUL else buf ! k)" if "k < length buf" for k using b that by (auto simp: nth_list_update)
  then have "\<forall>k < length buf. buf' ! k = (if int k - 1 \<in> snd ` set (g # gs) then NUL else buf ! k)" using buf'(3) by (auto simp: g)
  then show ?case using buf'(1,2) b by (auto simp: g store_at_def)
qed simp

text \<open>A group of the text that no other group cuts short.\<close>

definition group_of :: "string \<Rightarrow> int \<times> int \<Rightarrow> string" where
  "group_of t g = take (nat (snd g - fst g)) (drop (nat (fst g)) t)"

definition clean_groups :: "string \<Rightarrow> (int \<times> int) list \<Rightarrow> bool" where
  "clean_groups t gs \<longleftrightarrow> (\<forall>(so, eo) \<in> set gs. 0 \<le> so \<and> so \<le> eo \<and> eo \<le> int (length t) \<and> (\<forall>(so', eo') \<in> set gs. \<not> (so \<le> eo' \<and> eo' < eo)))"

lemma notice_group:
  assumes g: "clean_groups t gs" "(so, eo) \<in> set gs" and t: "cstring t"
    and b: "length buf = length t + 2" "\<forall>k < length t + 2. buf ! k = (if int k - 1 \<in> snd ` set gs then NUL else (b # t @ [NUL]) ! k)"
  shows "buffer_string (drop (nat (so + 1)) buf) = group_of t (so, eo)"
proof -
  have e: "0 \<le> so" "so \<le> eo" "eo \<le> int (length t)" "\<And>so' eo'. (so', eo') \<in> set gs \<Longrightarrow> \<not> (so \<le> eo' \<and> eo' < eo)"
    using g by (auto simp: clean_groups_def)
  define n where "n = nat (eo - so)"
  have at: "drop (nat (so + 1)) buf ! j = (if int j + so \<in> snd ` set gs then NUL else (t @ [NUL]) ! (j + nat so))" if "j \<le> n" for j
  proof -
    have "nat (so + 1) + j < length t + 2" using that e by (simp add: n_def)
    moreover have "int (nat (so + 1) + j) - 1 = int j + so" "nat (so + 1) + j = Suc (j + nat so)" using e by simp_all
    ultimately show ?thesis using b by (simp add: add.commute)
  qed
  have "takeWhile (\<lambda>c. c \<noteq> NUL) (drop (nat (so + 1)) buf) = take n (drop (nat (so + 1)) buf)"
  proof (rule takeWhile_eq_take_P_nth)
    fix j assume j: "j < n" "j < length (drop (nat (so + 1)) buf)"
    then have "int j + so \<notin> snd ` set gs" using e by (force simp: n_def)
    moreover have "j + nat so < length t" using j e by (simp add: n_def)
    moreover from this have "t ! (j + nat so) \<noteq> NUL" using t nth_mem by (fastforce simp: cstring_def)
    ultimately show "drop (nat (so + 1)) buf ! j \<noteq> NUL" using at [of j] j by (simp add: nth_append)
  next
    have "int n + so = eo" using e by (simp add: n_def)
    then have "int n + so \<in> snd ` set gs" using g(2) by force
    then show "\<not> drop (nat (so + 1)) buf ! n \<noteq> NUL" using at [of n] by simp
  qed
  moreover have "take n (drop (nat (so + 1)) buf) = take n (drop (nat so) t)"
  proof (rule nth_equalityI)
    show l: "length (take n (drop (nat (so + 1)) buf)) = length (take n (drop (nat so) t))" using b(1) e(1-3) by (simp add: n_def)
    fix j assume "j < length (take n (drop (nat (so + 1)) buf))"
    then have j: "j < n" "j + nat so < length t" using b(1) e(1-3) by (simp_all add: n_def)
    then have "int j + so \<notin> snd ` set gs" using e by (force simp: n_def)
    then show "take n (drop (nat (so + 1)) buf) ! j = take n (drop (nat so) t) ! j" using at [of j] j by (simp add: nth_append add.commute)
  qed
  ultimately show ?thesis by (simp add: buffer_string_def group_of_def n_def)
qed

lemma notice_user_groups:
  assumes g: "clean_groups t gs" "length gs = 4" and t: "cstring t"
  shows "notice_user b t gs = Some (group_of t (gs ! 0), group_of t (gs ! 1), group_of t (gs ! 2), group_of t (gs ! 3))"
proof -
  have "\<forall>(so, eo) \<in> set gs. 0 \<le> eo \<and> eo + 1 < int (length (b # t @ [NUL]))" using g(1) by (fastforce simp: clean_groups_def)
  then obtain buf where buf: "notice_cut gs (b # t @ [NUL]) = Some buf" "length buf = length t + 2"
      "\<forall>k < length t + 2. buf ! k = (if int k - 1 \<in> snd ` set gs then NUL else (b # t @ [NUL]) ! k)"
    using notice_cut_nth [of gs "b # t @ [NUL]"] by auto
  have "buffer_string (drop (nat (fst (gs ! i) + 1)) buf) = group_of t (gs ! i)" if "i < 4" for i
    using notice_group [OF g(1) _ t buf(2,3), of "fst (gs ! i)" "snd (gs ! i)"] that g(2) by simp
  then show ?thesis using buf(1) g(2) by (simp add: notice_user_def case_prod_beta)
qed

section \<open>A state\<close>

text \<open>The state of the example run before the first line, and a system whose regular expression
  matches one notice.\<close>

definition irc_start :: irc_st where
  "irc_start = oper_st.extend oper_start (irc_st.fields (replicate 513 NUL) 0 (replicate 17 None) False False)"

lemma irc_start_fields:
  "IRC_RAW irc_start = replicate 513 NUL" "IRC_RAW_LEN irc_start = 0" "irc_parv irc_start = replicate 17 None" "preg irc_start = False"
  "envir irc_start = env_live" "cfg irc_start = plain_conf" "clock irc_start = 1000"
  using plain_start_fields(2-4) by (simp_all add: irc_start_def oper_start_def scan_st.defs oper_st.defs irc_st.defs)

definition sample_notice :: string where
  "sample_notice = ''Client connecting: nick (user@host) [127.0.0.1]''"

definition sample_sys :: irc_sys where
  "sample_sys = \<lparr>regcomp_ok = (\<lambda>_. True),
     regexec = (\<lambda>re t. if t = sample_notice then Some [(0, 47), (19, 23), (25, 29), (30, 34), (37, 46)] else None), sys_fds = sample_fds\<rparr>"

section \<open>Properties\<close>



text \<open>C16: How the bytes arrive does not matter: reading the beginning of a line and then the rest
  gives what reading them at once gives.  Carriage returns and NULs are dropped; a line of more than
  512 other bytes is stored behind the end of \<open>IRC_RAW\<close>.\<close>

theorem irc_read_chunks:
  assumes "CHR 0x0A \<notin> set a" "IRC_RAW_LEN w \<le> length (IRC_RAW w)"
  shows "irc_read sys Again a w \<bind> (\<lambda>(inp, w'). irc_read sys e b w') = irc_read sys e (a @ b) w \<and>
    irc_read sys e (a @ CHR 0x0A # b) w =
      (if IRC_RAW_LEN w + length (line_bytes a) < length (IRC_RAW w)
       then do { w \<leftarrow> irc_parse sys (ended (line_bytes a) w); Some (b, w\<lparr>IRC_RAW_LEN := 0\<rparr>) } else None)"
  using irc_read_bytes [OF assms, of sys Again "[]"] irc_read_bytes [OF assms, of sys e b] irc_read_line [OF assms, of sys e b]
  by simp

theorem irc_read_chunks_witness:
  "irc_read sample_sys Again ''PI'' irc_start \<bind> (\<lambda>(inp, w'). irc_read sample_sys Again ''NG'' w') = irc_read sample_sys Again ''PING'' irc_start \<and>
   irc_read sample_sys Again (replicate 513 (CHR ''a'') @ CHR 0x0A # []) irc_start = None"
proof -
  have "line_bytes (replicate 513 (CHR ''a'')) = replicate 513 (CHR ''a'')" by (simp add: line_bytes_def)
  then show ?thesis using irc_read_chunks [of "''PI''" irc_start sample_sys Again "''NG''"]
      irc_read_chunks [of "replicate 513 (CHR ''a'')" irc_start sample_sys Again "[]"] irc_start_fields by simp
qed

text \<open>A source of the form nick!user@host is taken apart into exactly these three, and a source
  without one of the two separators, such as the name of a server, is no user.\<close>

lemma userinfo_round_trip:
  assumes "plain nick" "plain user" "plain host"
  shows "userinfo_create (nick @ ''!'' @ user @ ''@'' @ host) = Some \<lparr>ui_nick = nick, ui_username = user, ui_hostname = host\<rparr> \<and>
    userinfo_create (nick @ ''!'' @ user) = None \<and> userinfo_create host = None"
  using userinfo_create_parts [OF assms] userinfo_create_server [of "nick @ ''!'' @ user"] userinfo_create_server [of host] assms
  by (simp add: plain_def)

text \<open>C10: A connection notice starts the scan of exactly the nick, user name, host and address
  that the groups of the expression mark in its text, and is counted as a connection.\<close>

theorem notice_scans_groups:
  assumes "says m ps s" "4 \<le> length ps" "userinfo_create (ps ! 0) = None" "cstring (ps ! 3)"
    and "preg w \<or> regcomp_ok sys (irc_connregex (IRCItem (cfg w)))"
    and "regexec sys (irc_connregex (IRCItem (cfg w))) (ps ! 3) = Some [g0, g1, g2, g3, g4]" "clean_groups (ps ! 3) [g1, g2, g3, g4]"
  shows "irc_handle sys M_notice m w =
    map_option stats_connect (scan_connect (group_of (ps ! 3) g1, group_of (ps ! 3) g2, group_of (ps ! 3) g3, group_of (ps ! 3) g4) s (w\<lparr>preg := True\<rparr>))"
proof -
  have "fst g4 \<noteq> -1" using assms(7) by (cases g4) (auto simp: clean_groups_def)
  moreover have "parv m ! 3 = Some (ps ! 3)" "\<not> parc m < 4" "raw_msg m = s" "source m = None" using assms(1-3) by (simp_all add: says_def)
  moreover have "notice_user b (ps ! 3) [g1, g2, g3, g4] = Some (group_of (ps ! 3) g1, group_of (ps ! 3) g2, group_of (ps ! 3) g3, group_of (ps ! 3) g4)" for b
    using notice_user_groups [OF assms(7) _ assms(4)] by simp
  ultimately show ?thesis using assms(5,6)
    by (auto simp: irc_handle_def m_notice_def Let_def map_option_case split: option.split)
qed

theorem notice_scans_groups_witness:
  "irc_handle sample_sys M_notice \<lparr>parv = map Some [''srv'', ''NOTICE'', ''bopm'', sample_notice], parc = 4, before3 = CHR '':'',
       raw_msg = ''x'', source = None\<rparr> irc_start =
     map_option stats_connect (scan_connect (''nick'', ''user'', ''host'', ''127.0.0.1'') ''x'' (irc_start\<lparr>preg := True\<rparr>))"
proof -
  have p: "[''srv'', ''NOTICE'', ''bopm'', sample_notice] ! 3 = sample_notice" by simp
  have g: "clean_groups sample_notice [(19, 23), (25, 29), (30, 34), (37, 46)]" "cstring sample_notice" "userinfo_create ''srv'' = None"
    "group_of sample_notice (19, 23) = ''nick''" "group_of sample_notice (25, 29) = ''user''" "group_of sample_notice (30, 34) = ''host''"
    "group_of sample_notice (37, 46) = ''127.0.0.1''"
    by code_simp+
  show ?thesis
    using notice_scans_groups [of "\<lparr>parv = map Some [''srv'', ''NOTICE'', ''bopm'', sample_notice], parc = 4, before3 = CHR '':'', raw_msg = ''x'', source = None\<rparr>"
       "[''srv'', ''NOTICE'', ''bopm'', sample_notice]" "''x''" irc_start sample_sys "(0, 47)" "(19, 23)" "(25, 29)" "(30, 34)" "(37, 46)"] g
    unfolding p by (simp add: says_def sample_sys_def less_Suc_eq numeral_eq_Suc)
qed

lemma dispatch_ping: "find (\<lambda>(name, h). strcaseeq name ''PING'') IRC_TABLE = Some (''PING'', M_ping)"
  by code_simp

text \<open>C12: A ping is answered at once: when the line has been read, the server has been sent its
  token back, and the time of the line is noted.\<close>

theorem ping_answered:
  assumes w: "IRC_RAW_LEN w = 0" "length (IRC_RAW w) = 513" "length (irc_parv w) = 17" "sends_fine w"
    and t: "cstring token" "CHR 0x0D \<notin> set token" "CHR 0x0A \<notin> set token" "length token \<le> 500"
  shows "\<exists>w'. irc_read sys e (''PING :'' @ token @ [CHR 0x0D, CHR 0x0A] @ b) w = Some (b, w') \<and>
    out w' = out w @ [Sent (IRC_FD w) (''PONG '' @ token @ [CHR 0x0A])] \<and> IRC_LAST w' = clock w"
proof -
  let ?s = "''PING :'' @ token"
  define ps where "ps = line_parts (irc_server (IRCItem (cfg (ended ?s w)))) ?s"
  have "filter (\<lambda>c. c \<noteq> CHR 0x0D \<and> c \<noteq> NUL) token = token" using t by (auto simp: filter_id_conv cstring_def)
  then have lb: "line_bytes (?s @ [CHR 0x0D]) = ?s" by (simp add: line_bytes_def)
  have h: "holds_line ?s (ended ?s w)" using w t by (simp add: holds_line_def ended_def cstring_def)
  have "toks (''PING'' @ CHR '' '' # CHR '':'' # token) = [''PING'', token]" by (subst toks_space) (simp_all add: first_char_def)
  then have ps: "ps = [irc_server (IRCItem (cfg (ended ?s w))), ''PING'', token]" by (simp add: ps_def line_parts_def first_char_def)
  then obtain m raw pv where m: "irc_parse sys (ended ?s w) =
      irc_dispatch sys ''PING'' m ((ended ?s w)\<lparr>IRC_LAST := clock (ended ?s w), IRC_RAW := raw, irc_parv := pv\<rparr>)" "says m ps ?s"
    using irc_parse_line [OF h ps_def, of sys] by auto
  define w1 where "w1 = (ended ?s w)\<lparr>IRC_LAST := clock (ended ?s w), IRC_RAW := raw, irc_parv := pv\<rparr>"
  have w1: "out w1 = out w" "IRC_FD w1 = IRC_FD w" "IRC_LAST w1 = clock w" "sends_fine w1" using w(4) by (simp_all add: w1_def ended_def sends_fine_def)
  have v: "vformat ''PONG %s'' [Str token] = Some (''PONG '' @ token)" using t(1,4) by (simp add: fmt_simps)
  have "irc_dispatch sys ''PING'' m w1 = irc_send ''PONG %s'' [Str token] w1"
    using saysD [OF m(2)] ps by (simp add: irc_dispatch_def dispatch_ping irc_handle_def m_ping_def)
  also have "\<dots> = Some (say [''PONG '' @ token] w1)" using irc_send_say [OF v _ w1(4)] t(1) by (simp add: cstring_def)
  finally have "irc_parse sys (ended ?s w) = Some (say [''PONG '' @ token] w1)" using m(1) by (simp add: w1_def)
  then have "irc_read sys e ((?s @ [CHR 0x0D]) @ CHR 0x0A # b) w = Some (b, (say [''PONG '' @ token] w1)\<lparr>IRC_RAW_LEN := 0\<rparr>)"
    using irc_read_line [of "?s @ [CHR 0x0D]" w sys e b] lb w(1,2) t(3,4) by simp
  then show ?thesis using w1 t(4) by (simp add: say_def irc_line_def)
qed

theorem ping_answered_witness:
  "\<exists>w'. irc_read sample_sys Again (''PING :'' @ ''abc'' @ [CHR 0x0D, CHR 0x0A] @ ''x'') irc_start = Some (''x'', w') \<and>
    out w' = out irc_start @ [Sent (IRC_FD irc_start) ([CHR ''P'', CHR ''O'', CHR ''N'', CHR ''G'', CHR '' ''] @ ''abc'' @ [CHR 0x0A])] \<and> IRC_LAST w' = 1000"
  using ping_answered [of irc_start "''abc''" sample_sys Again "''x''"] irc_start_fields
  by (simp add: cstring_def sends_fine_def env_live_def env_fine_def)

end
