(* ===== verification/Irc_Safe.thy ===== *)
theory Irc_Safe
  imports Irc
begin

text \<open>
  The reader of irc.c never leaves its buffers and every message has a handler that returns, with the
  scanner and the queue of commands in order, whatever the server sends within the limits of the
  protocol.
\<close>

section \<open>Every message is handled\<close>

definition good :: "'a irc_st_scheme \<Rightarrow> bool" where
  "good w \<longleftrightarrow> quiet w \<and> queue_ok w \<and> uptime_ok w"

definition same_line :: "'a irc_st_scheme \<Rightarrow> 'a irc_st_scheme \<Rightarrow> bool" where
  "same_line w w' \<longleftrightarrow> clock w' = clock w \<and> STATS_UPTIME w' = STATS_UPTIME w \<and> IRC_RAW w' = IRC_RAW w \<and> IRC_RAW_LEN w' = IRC_RAW_LEN w \<and>
     irc_parv w' = irc_parv w \<and> irc_st.more w' = irc_st.more w"

definition handled :: "'a irc_st_scheme \<Rightarrow> 'a irc_st_scheme option \<Rightarrow> bool" where
  "handled w r \<longleftrightarrow> (\<exists>w'. r = Some w' \<and> good w' \<and> same_line w w')"

lemma handledI: "good w' \<Longrightarrow> same_line w w' \<Longrightarrow> handled w (Some w')"
  by (simp add: handled_def)

lemma same_line_refl [simp]: "same_line w w"
  by (simp add: same_line_def)

lemma same_line_trans: "same_line w w' \<Longrightarrow> same_line w' w'' \<Longrightarrow> same_line w w''"
  by (simp add: same_line_def)

lemma handled_Some [simp]: "good w \<Longrightarrow> handled w (Some w)"
  by (simp add: handled_def)

lemma handled_bind: "handled w r \<Longrightarrow> (\<And>w'. good w' \<Longrightarrow> handled w' (f w')) \<Longrightarrow> handled w (r \<bind> f)"
  unfolding handled_def using same_line_trans by (metis Option.bind.bind_lunit)

lemma still_line: "still w w' \<Longrightarrow> same_line w w'"
  by (cases w; cases w') (simp add: still_def same_line_def)

lemma talks_handled:
  assumes "good w" "talks w w'"
  shows "good w' \<and> same_line w w'"
proof -
  have st: "steady w w'" by (rule talks_steady [OF assms(2)])
  show ?thesis using assms quiet_talks [OF _ assms(2)] queue_ok_steady [OF _ st] steady_oper(4) [OF st]
      still_line [OF calm_still [OF steady_calm [OF st]]] by (simp add: good_def)
qed

text \<open>A format whose arguments are there.\<close>

definition formats :: "string \<Rightarrow> arg list \<Rightarrow> bool" where
  "formats data ap \<longleftrightarrow> vformat data ap \<noteq> None"

lemma formats_simps [simp]:
  "formats [] ap" "c \<noteq> CHR ''%'' \<Longrightarrow> formats (c # p) ap = formats p ap"
  "formats (CHR ''%'' # CHR ''s'' # p) (ArgStr q # ap) = formats p ap" "formats (CHR ''%'' # CHR ''d'' # p) (ArgInt n # ap) = formats p ap"
  unfolding formats_def by simp_all

lemma irc_send_handled: "formats data ap \<Longrightarrow> good w \<Longrightarrow> handled w (irc_send data ap w)"
proof -
  assume "formats data ap" and g: "good w"
  then obtain w' where w': "irc_send data ap w = Some w'" "talks w w'" using irc_send_talks [of data ap w] by (auto simp: formats_def)
  then show ?thesis using talks_handled [OF g] by (simp add: handled_def)
qed

lemma send_performs_handled: "good w \<Longrightarrow> handled w (send_performs ps w)"
  by (induction ps arbitrary: w) (auto intro!: handled_bind irc_send_handled)

lemma join_channels_handled: "good w \<Longrightarrow> handled w (join_channels cs w)"
  by (induction cs arbitrary: w) (auto intro!: handled_bind irc_send_handled)

lemma m_perform_handled: "good w \<Longrightarrow> handled w (m_perform m w)"
  unfolding m_perform_def Let_def
  by (intro handled_bind send_performs_handled join_channels_handled) (auto intro!: irc_send_handled)

lemma m_ping_handled: "good w \<Longrightarrow> says m ps s \<Longrightarrow> handled w (m_ping m w)"
  by (auto simp: m_ping_def saysD intro!: irc_send_handled)

lemma m_invite_handled: "good w \<Longrightarrow> says m ps s \<Longrightarrow> handled w (m_invite m w)"
  by (auto simp: m_invite_def saysD intro!: irc_send_handled split: option.split)

lemma m_cannot_join_handled: "good w \<Longrightarrow> says m ps s \<Longrightarrow> handled w (m_cannot_join m w)"
  by (auto simp: m_cannot_join_def saysD intro!: irc_send_handled split: option.split)

lemma good_upd [simp]:
  "good (w\<lparr>RESTART := b\<rparr>) = good w" "good (w\<lparr>preg := b\<rparr>) = good w" "good (w\<lparr>IRC_RAW := raw\<rparr>) = good w" "good (w\<lparr>IRC_RAW_LEN := n\<rparr>) = good w"
  "good (w\<lparr>irc_parv := pv\<rparr>) = good w" "good (w\<lparr>IRC_LAST := t\<rparr>) = good w" "good (w\<lparr>STATS_CONNECTIONS := k\<rparr>) = good w"
  by (simp_all add: good_def quiet_def scan_inv_def cache_fine_def conns_ok_def fd_limit_def lookups_ok_def indices_ok_def
      static_ok_def blacklists_def asked_def queue_ok_def uptime_ok_def)

lemma m_kill_handled: "good w \<Longrightarrow> handled w (m_kill m w)"
  by (auto simp: m_kill_def main_restart_def same_line_def intro!: handledI)

lemma m_ctcp_handled: "good w \<Longrightarrow> says m ps s \<Longrightarrow> 4 \<le> length ps \<Longrightarrow> handled w (m_ctcp m u w)"
  by (auto simp: m_ctcp_def saysD intro!: irc_send_handled)

lemma command_parse_handled:
  assumes "good w" "param_ok (Some (command_param t))"
  shows "handled w (command_parse t msg target u w)"
proof -
  obtain w' where w': "command_parse t msg target u w = Some w'" "quiet w'" "queue_ok w'" "still w w'"
    using command_parse_ok [of w t msg target u] assms by (auto simp: good_def)
  have l: "same_line w w'" by (rule still_line [OF w'(4)])
  then have "good w'" using w' assms(1) by (simp add: good_def uptime_ok_def same_line_def)
  then show ?thesis using l w'(1) by (simp add: handledI)
qed

lemma m_userhost_handled:
  assumes "good w" "says m ps s" "fd_ok (sys_fds sys)"
  shows "handled w (m_userhost sys m w)"
proof (cases "length ps < 4")
  case True
  then show ?thesis using assms by (simp add: m_userhost_def says_def)
next
  case False
  obtain w' where w': "command_userhost (sys_fds sys) (before3 m) (ps ! 3) w = Some w'" "quiet w'" "queue_ok w'" "still w w'"
    using command_userhost_ok [of w "sys_fds sys" "before3 m" "ps ! 3"] assms by (auto simp: good_def)
  have l: "same_line w w'" by (rule still_line [OF w'(4)])
  then have "good w'" using w' assms(1) by (simp add: good_def uptime_ok_def same_line_def)
  then show ?thesis using False assms(2) l w'(1) by (simp add: m_userhost_def says_def handledI)
qed

lemma m_privmsg_handled:
  assumes "good w" "says m ps s" "4 \<le> length ps \<Longrightarrow> param_ok (Some (command_param (ps ! 3)))"
  shows "handled w (m_privmsg m w)"
proof (cases "source m = None \<or> length ps < 4")
  case True
  then show ?thesis using assms(1,2) by (auto simp: m_privmsg_def says_def split: option.split)
next
  case False
  then obtain u where u: "source m = Some u" "4 \<le> length ps" by auto
  have p: "parv m ! 3 = Some (ps ! 3)" "parv m ! 2 = Some (ps ! 2)" "\<not> parc m < 4" using assms(2) u(2) by (simp_all add: says_def)
  show ?thesis unfolding m_privmsg_def using u(1) p m_ctcp_handled [OF assms(1,2) u(2)] assms(1) assms(3) [OF u(2)]
    by (auto intro!: handled_bind command_parse_handled split: option.split)
qed

text \<open>What \<open>regexec\<close> promises for five entries: each is the position of a group in the text, or
  minus one twice when the group took no part.\<close>

definition regex_ok :: "irc_sys \<Rightarrow> bool" where
  "regex_ok sys \<longleftrightarrow> (\<forall>re t pm. regexec sys re t = Some pm \<longrightarrow> length pm = 5 \<and>
     (\<forall>(so, eo) \<in> set pm. so = -1 \<and> eo = -1 \<or> 0 \<le> so \<and> so \<le> eo \<and> eo \<le> int (length t)))"

lemma notice_cut_total:
  assumes "\<forall>(so, eo) \<in> set gs. -1 \<le> eo \<and> eo + 1 < int (length buf)"
  shows "\<exists>buf'. notice_cut gs buf = Some buf' \<and> length buf' = length buf"
  using assms
proof (induction gs arbitrary: buf)
  case (Cons g gs)
  obtain so eo where g: "g = (so, eo)" by (cases g)
  have "store_at buf (nat (eo + 1)) NUL = Some (buf[nat (eo + 1) := NUL])"
    using Cons.prems g by (auto simp: store_at_def)
  then show ?case using Cons.IH [of "buf[nat (eo + 1) := NUL]"] Cons.prems g by simp
qed simp

lemma notice_user_total:
  assumes "length gs = 4" "\<forall>(so, eo) \<in> set gs. -1 \<le> eo \<and> eo \<le> int (length t)" "length t \<le> 512"
  shows "\<exists>user. notice_user b t gs = Some user \<and> user_ok user"
proof -
  have "\<forall>(so, eo) \<in> set gs. -1 \<le> eo \<and> eo + 1 < int (length (b # t @ [NUL]))" using assms(2) by fastforce
  then obtain buf where buf: "notice_cut gs (b # t @ [NUL]) = Some buf" "length buf = length t + 2"
    using notice_cut_total [of gs "b # t @ [NUL]"] by auto
  have "good_str (buffer_string (drop k buf))" for k
    using buf(2) assms(3) length_takeWhile_le [of "\<lambda>c. c \<noteq> NUL" "drop k buf"]
    by (auto simp: good_str_def buffer_string_def cstring_def dest: set_takeWhileD)
  then show ?thesis using buf(1) assms(1) by (simp add: notice_user_def user_ok_def case_prod_beta)
qed

lemma m_notice_handled:
  assumes g: "good w" and s: "says m ps s" and r: "regex_ok sys" and l: "\<And>p. p \<in> set (tl ps) \<Longrightarrow> length p \<le> 512"
  shows "handled w (m_notice sys m w)"
proof (cases "length ps < 4 \<or> source m \<noteq> None \<or> \<not> preg w \<and> \<not> regcomp_ok sys (irc_connregex (IRCItem (cfg w)))")
  case True
  then show ?thesis using g s by (auto simp: m_notice_def says_def)
next
  case False
  define w1 where "w1 = w\<lparr>preg := True\<rparr>"
  have w1: "good w1" "same_line w w1" using g by (simp_all add: w1_def same_line_def)
  then have q1: "quiet w1" by (simp add: good_def)
  let ?re = "regexec sys (irc_connregex (IRCItem (cfg w))) (ps ! 3)"
  have p: "parv m ! 3 = Some (ps ! 3)" using s False by (simp add: says_def)
  have "2 < length (tl ps)" using False by auto
  moreover from this have "tl ps ! 2 = ps ! 3" by (simp add: nth_tl)
  ultimately have l3: "length (ps ! 3) \<le> 512" using l [of "ps ! 3"] nth_mem [of 2 "tl ps"] by simp
  show ?thesis
  proof (cases "?re = None \<or> fst (the ?re ! 4) = -1")
    case True
    then have "m_notice sys m w = Some w1" using False p saysD(1) [OF s]
      by (cases ?re) (auto simp: m_notice_def w1_def Let_def)
    then show ?thesis using w1 by (simp add: handledI)
  next
    case F: False
    then obtain pm where pm: "?re = Some pm" "fst (pm ! 4) \<noteq> -1" by auto
    have len: "length pm = 5" "\<forall>g \<in> set pm. -1 \<le> snd g \<and> snd g \<le> int (length (ps ! 3))" using r pm(1) unfolding regex_ok_def by fastforce+
    have "\<forall>(so, eo) \<in> set (map (\<lambda>i. pm ! (i + 1)) [0, 1, 2, 3]). -1 \<le> eo \<and> eo \<le> int (length (ps ! 3))"
      using len by (simp add: case_prod_beta)
    then obtain user where u: "notice_user (before3 m) (ps ! 3) (map (\<lambda>i. pm ! (i + 1)) [0, 1, 2, 3]) = Some user" "user_ok user"
      using notice_user_total [of "map (\<lambda>i. pm ! (i + 1)) [0, 1, 2, 3]" "ps ! 3" "before3 m"] l3 by auto
    obtain w2 where w2: "scan_connect user s w1 = Some w2" "quiet w2" "calm w1 w2" using scan_connect_inv [OF q1 u(2)] by blast
    have st: "still w1 w2" by (rule calm_still [OF w2(3)])
    have "queue_ok w2 = queue_ok w1" "uptime_ok w2 = uptime_ok w1"
      using w2(3) by (cases w1; cases w2; simp add: calm_def queue_ok_def uptime_ok_def)+
    then have "good w2" using w1(1) w2(2) by (simp add: good_def)
    then have "good (stats_connect w2)" by (simp add: stats_connect_def)
    moreover have "same_line w (stats_connect w2)" using same_line_trans [OF w1(2) still_line [OF st]] by (simp add: same_line_def stats_connect_def)
    moreover have "m_notice sys m w = Some (stats_connect w2)"
      using False p pm u(1) w2(1) saysD(1) [OF s] s by (auto simp: m_notice_def w1_def says_def Let_def)
    ultimately show ?thesis by (simp add: handledI)
  qed
qed

text \<open>A line that can be handled: it fits the buffer, it has a command and no more parts than the
  array has room for, and the first word of the parameter an operator command could have is short.\<close>

definition line_ok :: "string \<Rightarrow> bool" where
  "line_ok s \<longleftrightarrow> cstring s \<and> length s \<le> 512 \<and>
     (s \<noteq> [] \<longrightarrow> (let ps = line_parts [] s in 2 \<le> length ps \<and> length ps \<le> 17 \<and>
        (4 \<le> length ps \<longrightarrow> length (takeWhile (\<lambda>c. c \<noteq> CHR '' '') (command_param (ps ! 3))) < 256)))"

lemma line_parts_server: "length (line_parts server s) = length (line_parts [] s)" "line_parts server s ! Suc i = line_parts [] s ! Suc i"
  by (simp_all add: line_parts_def)

lemma toks_sub: "p \<in> set (toks s) \<Longrightarrow> set p \<subseteq> set s \<and> length p \<le> length s"
proof (induction s rule: length_induct)
  case (1 s)
  show ?case
  proof (cases rule: toks_cases [of s])
    case 1
    then show ?thesis using \<open>p \<in> set (toks s)\<close> toks_nospace [OF 1] by simp
  next
    case (2 u r)
    consider "p = u" | t where "r = CHR '':'' # t" "p = t" | "p \<in> set (toks r)"
      using \<open>p \<in> set (toks s)\<close> toks_space [OF 2(2), of r] 2(1) by (cases r) (auto simp: first_char_def split: if_splits)
    then show ?thesis using 2(1) 1(1) by cases force+
  qed
qed

lemma line_parts_sub: "p \<in> set (tl (line_parts server s)) \<Longrightarrow> set p \<subseteq> set s \<and> length p \<le> length s"
  using toks_sub [of p s] list.set_sel(2) [of "toks s" p] by (simp add: line_parts_def split: if_splits)

lemma strchr_sub: "strchr s c = Some r \<Longrightarrow> set (tl r) \<subseteq> set s"
  by (induction s) (auto split: if_splits)

lemma command_param_sub: "set (command_param s) \<subseteq> set s"
proof (cases "strchr s (CHR '' '')")
  case (Some r)
  then show ?thesis using strchr_sub [OF Some] strchr_sub [of "tl r" "CHR '' ''"]
    by (cases "strchr (tl r) (CHR '' '')") (auto simp: command_param_def)
qed (simp add: command_param_def)

lemma irc_dispatch_handled:
  assumes g: "good w" and s: "says m ps s" and sys: "regex_ok sys" "fd_ok (sys_fds sys)"
    and l: "\<And>p. p \<in> set (tl ps) \<Longrightarrow> length p \<le> 512" "4 \<le> length ps \<Longrightarrow> param_ok (Some (command_param (ps ! 3)))"
  shows "handled w (irc_dispatch sys cmd m w)"
proof -
  have "handled w (irc_handle sys h m w)" for h
    using m_notice_handled [OF g s sys(1) l(1)] m_privmsg_handled [OF g s l(2)] m_ping_handled [OF g s] m_invite_handled [OF g s]
      m_perform_handled [OF g] m_userhost_handled [OF g s sys(2)] m_cannot_join_handled [OF g s] m_kill_handled [OF g]
    by (cases h) (simp_all add: irc_handle_def)
  then show ?thesis using g by (simp add: irc_dispatch_def split: option.split)
qed

text \<open>What reading does not change.\<close>

definition apart :: "'a irc_st_scheme \<Rightarrow> 'a irc_st_scheme \<Rightarrow> bool" where
  "apart w w' \<longleftrightarrow> clock w' = clock w \<and> STATS_UPTIME w' = STATS_UPTIME w \<and> irc_st.more w' = irc_st.more w"

text \<open>The buffers of the reader.\<close>

definition buffers_ok :: "'a irc_st_scheme \<Rightarrow> bool" where
  "buffers_ok w \<longleftrightarrow> length (IRC_RAW w) = 513 \<and> length (irc_parv w) = 17"

lemma irc_parse_handled:
  assumes g: "good w" and b: "buffers_ok w" "IRC_RAW w = s @ NUL # rest" "IRC_RAW_LEN w = length s" and l: "line_ok s"
    and sys: "regex_ok sys" "fd_ok (sys_fds sys)"
  shows "\<exists>w'. irc_parse sys w = Some w' \<and> good w' \<and> buffers_ok w' \<and> apart w w'"
proof (cases "s = []")
  case True
  then show ?thesis using g b by (simp add: irc_parse_def apart_def)
next
  case False
  define ps where "ps = line_parts (irc_server (IRCItem (cfg w))) s"
  have ps: "length ps = length (line_parts [] s)" "ps ! 3 = line_parts [] s ! 3"
    using line_parts_server(1) [of "irc_server (IRCItem (cfg w))" s] line_parts_server(2) [of "irc_server (IRCItem (cfg w))" s 2]
    by (simp_all add: ps_def)
  have n: "2 \<le> length ps" "length ps \<le> 17" using l False by (simp_all add: ps(1) line_ok_def Let_def)
  have h: "holds_line s w" using b l False by (auto simp: holds_line_def line_ok_def buffers_ok_def)
  obtain m raw pv where m: "irc_parse sys w = irc_dispatch sys (ps ! 1) m (w\<lparr>IRC_LAST := clock w, IRC_RAW := raw, irc_parv := pv\<rparr>)"
      "says m ps s" "length raw = length (IRC_RAW w)" "length pv = 17"
    using irc_parse_line [OF h ps_def n, of sys] by blast
  have sub: "set p \<subseteq> set s \<and> length p \<le> length s" if "p \<in> set (tl ps)" for p using line_parts_sub that by (simp add: ps_def)
  have "param_ok (Some (command_param (ps ! 3)))" if "4 \<le> length ps"
  proof -
    have "2 < length (tl ps)" using that by simp
    moreover from this have "tl ps ! 2 = ps ! 3" by (simp add: nth_tl)
    ultimately have "ps ! 3 \<in> set (tl ps)" using nth_mem [of 2 "tl ps"] by simp
    then have "set (command_param (ps ! 3)) \<subseteq> set s" using command_param_sub [of "ps ! 3"] sub by blast
    then have "cstring (command_param (ps ! 3))" using l by (auto simp: cstring_def line_ok_def)
    then show ?thesis using l False that by (simp add: param_ok_def line_ok_def Let_def ps)
  qed
  moreover have "length p \<le> 512" if "p \<in> set (tl ps)" for p using sub [OF that] l by (simp add: line_ok_def)
  ultimately have "handled (w\<lparr>IRC_LAST := clock w, IRC_RAW := raw, irc_parv := pv\<rparr>) (irc_parse sys w)"
    using irc_dispatch_handled [OF _ m(2) sys, of "w\<lparr>IRC_LAST := clock w, IRC_RAW := raw, irc_parv := pv\<rparr>" "ps ! 1"] g m(1) by simp
  then show ?thesis using m(3,4) b(1) by (auto simp: handled_def same_line_def buffers_ok_def apart_def)
qed

section \<open>Reading is safe\<close>

definition reader_ok :: "'a irc_st_scheme \<Rightarrow> bool" where
  "reader_ok w \<longleftrightarrow> buffers_ok w \<and> IRC_RAW_LEN w \<le> 512 \<and> cstring (take (IRC_RAW_LEN w) (IRC_RAW w))"

text \<open>What can be waiting on the connection: with the part of the line already read, either a line
  that can be handled or the beginning of one that still fits.\<close>

definition input_ok :: "string \<Rightarrow> 'a irc_st_scheme \<Rightarrow> bool" where
  "input_ok inp w =
     (let a = takeWhile (\<lambda>c. c \<noteq> CHR 0x0A) inp; l = take (IRC_RAW_LEN w) (IRC_RAW w) @ line_bytes a in
      if a = inp then length l \<le> 512 else line_ok l)"

lemma irc_reconnect_talks: "talks w (irc_reconnect w)"
  by (simp add: talks_def keeps_def frames_def irc_reconnect_def record_event_def Let_def open_fds_def)

lemma good_reconnect: "good w \<Longrightarrow> good (irc_reconnect w) \<and> same_line w (irc_reconnect w)"
  using talks_handled irc_reconnect_talks by blast

lemma irc_read_handled:
  assumes g: "good w" and r: "reader_ok w" and i: "input_ok inp w" and sys: "regex_ok sys" "fd_ok (sys_fds sys)"
  shows "\<exists>inp' w'. irc_read sys e inp w = Some (inp', w') \<and> good w' \<and> reader_ok w' \<and> apart w w'"
proof -
  define a where "a = takeWhile (\<lambda>c. c \<noteq> CHR 0x0A) inp"
  define l where "l = take (IRC_RAW_LEN w) (IRC_RAW w) @ line_bytes a"
  have na: "CHR 0x0A \<notin> set a" by (auto simp: a_def dest: set_takeWhileD)
  have rb: "length (IRC_RAW w) = 513" "IRC_RAW_LEN w \<le> 512" "length (irc_parv w) = 17" "cstring (take (IRC_RAW_LEN w) (IRC_RAW w))"
    using r by (simp_all add: reader_ok_def buffers_ok_def)
  then have le: "IRC_RAW_LEN w \<le> length (IRC_RAW w)" by simp
  have ll: "length l = IRC_RAW_LEN w + length (line_bytes a)" using rb by (simp add: l_def)
  show ?thesis
  proof (cases "a = inp")
    case True
    then have le512: "length l \<le> 512" using i unfolding l_def by (simp add: input_ok_def Let_def a_def)
    define w1 where "w1 = fill (line_bytes a) w"
    have w1: "good w1" "reader_ok w1" "apart w w1"
      using g rb ll le512 line_bytes_cstring [of a] by (simp_all add: apart_def w1_def fill_def reader_ok_def buffers_ok_def cstring_def)
    have e1: "irc_read sys e inp w = irc_read sys e [] w1"
      using irc_read_bytes [OF na le, of sys e "[]"] True ll le512 rb by (simp add: w1_def)
    have "reader_ok ((irc_reconnect w1)\<lparr>IRC_RAW_LEN := 0\<rparr>)" "good (irc_reconnect w1)" "apart w ((irc_reconnect w1)\<lparr>IRC_RAW_LEN := 0\<rparr>)"
      using good_reconnect [OF w1(1)] w1(2,3) by (simp_all add: apart_def reader_ok_def buffers_ok_def same_line_def cstring_def)
    then show ?thesis using e1 w1 by (cases e) simp_all
  next
    case False
    then have "CHR 0x0A \<in> set inp" by (auto simp: a_def)
    then obtain u b where u: "inp = u @ CHR 0x0A # b" "CHR 0x0A \<notin> set u" by (meson split_list_first)
    then have inp: "inp = a @ CHR 0x0A # b" using takeWhile_stop [OF u(2)] by (simp add: a_def)
    have l: "line_ok l" using i False unfolding l_def by (simp add: input_ok_def Let_def a_def)
    then have le512: "length l \<le> 512" by (simp add: line_ok_def)
    have w1: "good (ended (line_bytes a) w)" "buffers_ok (ended (line_bytes a) w)" "IRC_RAW_LEN (ended (line_bytes a) w) = length l"
        "IRC_RAW (ended (line_bytes a) w) = l @ NUL # drop (IRC_RAW_LEN w + length (line_bytes a) + 1) (IRC_RAW w)"
        "apart w (ended (line_bytes a) w)"
      using g rb ll le512 by (simp_all add: apart_def ended_def buffers_ok_def l_def)
    obtain w2 where w2: "irc_parse sys (ended (line_bytes a) w) = Some w2" "good w2" "buffers_ok w2" "apart w w2"
      using irc_parse_handled [OF w1(1,2,4,3) l sys] w1(5) by (auto simp: apart_def)
    have "irc_read sys e inp w = Some (b, w2\<lparr>IRC_RAW_LEN := 0\<rparr>)"
      using irc_read_line [OF na le, of sys e b] w2(1) ll le512 rb(1) by (simp add: inp)
    then show ?thesis using w2 by (simp add: reader_ok_def buffers_ok_def cstring_def apart_def)
  qed
qed

end
