(* ===== verification/Conf_Lex.thy ===== *)
theory Conf_Lex
  imports Config
begin

text \<open>
  The scanner of the configuration file, config-lexer.l, with the meaning flex gives its rules: the longest
  match wins, the first rule among equally long ones; \<open>yymore\<close> puts the next match behind the text
  matched so far, and \<open>yyless (n)\<close> gives all of the text but its first \<open>n\<close> characters back.  The file is
  taken to be in the scanner's buffer as a whole, so that the strings the tokens point at stay what they
  are.  \<open>None\<close> is undefined behaviour: a line longer than \<open>linebuf\<close>, a number \<open>atoi\<close> cannot represent, a read
  behind the end of a string.
\<close>

section \<open>Evaluation\<close>

text \<open>The case of a letter and the range of the digits, by the bits of a character.\<close>

lemma tolower_bits [code]:
  "tolower (Char b0 b1 b2 b3 b4 b5 b6 b7) =
     (if b6 \<and> \<not> b5 \<and> \<not> b7 \<and> (b0 \<or> b1 \<or> b2 \<or> b3 \<or> b4) \<and> \<not> (b4 \<and> b3 \<and> (b2 \<or> b1 \<and> b0))
      then Char b0 b1 b2 b3 b4 True b6 b7 else Char b0 b1 b2 b3 b4 b5 b6 b7)"
  by (cases b0; cases b1; cases b2; cases b3; cases b4; cases b5; cases b6; cases b7) (simp_all add: tolower_def char_of_def bit_iff_odd)

lemma isdigit_bits [code]:
  "isdigit (Char b0 b1 b2 b3 b4 b5 b6 b7) \<longleftrightarrow> \<not> b7 \<and> \<not> b6 \<and> b5 \<and> b4 \<and> \<not> (b3 \<and> (b2 \<or> b1))"
  by (cases b0; cases b1; cases b2; cases b3; cases b4; cases b5; cases b6; cases b7) (simp_all add: isdigit_def)

section \<open>Tokens\<close>

datatype keyword =
  AWAY | BAN_UNKNOWN | BLACKLIST | CHANNEL | CONNREGEX | DNS_FDLIMIT | DNSBL_FROM | DNSBL_TO |
  EXEMPT | FD | INVITE | IRC | KLINE | KEY | MASK | MAX_READ | MODE | NAME | NEGCACHE | NICK |
  NICKSERV | OPER | OPM | OPTIONS | PASSWORD | PERFORM | PIDFILE | PORT | PROTOCOL | REALNAME |
  REPLY | SCANLOG | SCANNER | SENDMAIL | SERVER | TARGET_IP | TARGET_PORT | TARGET_STRING | TIMEOUT |
  TYPE_KW | USER | USERNAME | VHOST

text \<open>A character that no other rule matches is a token of its own.\<close>

datatype token = K keyword | NUMBER int | STRING string | PROTOCOLTYPE opm_type | Chr char

abbreviation (input) newline :: char where "newline \<equiv> CHR 0x0A"
abbreviation (input) quote :: char where "quote \<equiv> CHR 0x22"
abbreviation (input) backslash :: char where "backslash \<equiv> CHR 0x5C"

definition word_table :: "(string \<times> token) list" where
  "word_table =
     [(''AWAY'', K AWAY), (''BAN_UNKNOWN'', K BAN_UNKNOWN), (''BLACKLIST'', K BLACKLIST),
      (''CHANNEL'', K CHANNEL), (''CONNREGEX'', K CONNREGEX), (''DNS_FDLIMIT'', K DNS_FDLIMIT),
      (''DNSBL_FROM'', K DNSBL_FROM), (''DNSBL_TO'', K DNSBL_TO), (''EXEMPT'', K EXEMPT), (''FD'', K FD),
      (''INVITE'', K INVITE), (''IRC'', K IRC), (''KLINE'', K KLINE), (''KEY'', K KEY),
      (''MASK'', K MASK), (''MAX_READ'', K MAX_READ), (''MODE'', K MODE), (''NAME'', K NAME),
      (''NEGCACHE'', K NEGCACHE), (''NICK'', K NICK), (''NICKSERV'', K NICKSERV), (''OPER'', K OPER),
      (''OPM'', K OPM), (''OPTIONS'', K OPTIONS), (''PASSWORD'', K PASSWORD), (''PERFORM'', K PERFORM),
      (''PIDFILE'', K PIDFILE), (''PORT'', K PORT), (''PROTOCOL'', K PROTOCOL),
      (''REALNAME'', K REALNAME), (''REPLY'', K REPLY), (''SCANLOG'', K SCANLOG),
      (''SCANNER'', K SCANNER), (''SENDMAIL'', K SENDMAIL), (''SERVER'', K SERVER),
      (''TARGET_IP'', K TARGET_IP), (''TARGET_PORT'', K TARGET_PORT),
      (''TARGET_STRING'', K TARGET_STRING), (''TIMEOUT'', K TIMEOUT), (''TYPE'', K TYPE_KW),
      (''USER'', K USER), (''USERNAME'', K USERNAME), (''VHOST'', K VHOST),
      (''HTTP'', PROTOCOLTYPE OPM_TYPE_HTTP), (''HTTPPOST'', PROTOCOLTYPE OPM_TYPE_HTTPPOST),
      (''SOCKS4'', PROTOCOLTYPE OPM_TYPE_SOCKS4), (''SOCKS5'', PROTOCOLTYPE OPM_TYPE_SOCKS5),
      (''WINGATE'', PROTOCOLTYPE OPM_TYPE_WINGATE), (''ROUTER'', PROTOCOLTYPE OPM_TYPE_ROUTER)]"

definition bool_table :: "(string \<times> token) list" where
  "bool_table = [(''TRUE'', NUMBER 1), (''YES'', NUMBER 1), (''ON'', NUMBER 1), (''FALSE'', NUMBER 0), (''NO'', NUMBER 0),
     (''OFF'', NUMBER 0)]"

section \<open>Rules\<close>

datatype lex_rule = R_ccomment | R_hashcomment | R_string | R_word token | R_number | R_newline | R_space | R_char

text \<open>The length of the match of each pattern at the front of the input, 0 for none.\<close>

fun same_nc :: "string \<Rightarrow> string \<Rightarrow> bool" where
  "same_nc [] s = True"
| "same_nc (c # w) [] = False"
| "same_nc (c # w) (d # s) \<longleftrightarrow> tolower c = tolower d \<and> same_nc w s"

definition m_word :: "string \<Rightarrow> string \<Rightarrow> nat" where
  "m_word w inp = (if same_nc w inp then length w else 0)"

definition m_hash :: "string \<Rightarrow> nat" where
  "m_hash inp = (case inp of [] \<Rightarrow> 0 | c # r \<Rightarrow> if c = CHR ''#'' then 1 + length (takeWhile (\<lambda>c. c \<noteq> newline) r) else 0)"

definition m_string :: "string \<Rightarrow> nat" where
  "m_string inp =
     (case inp of [] \<Rightarrow> 0 | c # r \<Rightarrow>
        if c = quote \<and> dropWhile (\<lambda>c. c \<noteq> quote \<and> c \<noteq> newline) r \<noteq> []
        then 2 + length (takeWhile (\<lambda>c. c \<noteq> quote \<and> c \<noteq> newline) r) else 0)"

definition m_newline :: "string \<Rightarrow> nat" where
  "m_newline inp = (case inp of [] \<Rightarrow> 0 | c # r \<Rightarrow> if c = newline then 1 + length (takeWhile (\<lambda>c. c \<noteq> newline) r) else 0)"

definition lex_blank :: "char \<Rightarrow> bool" where
  "lex_blank c \<longleftrightarrow> c = CHR '' '' \<or> c = CHR 0x09 \<or> c = CHR 0x0D"

definition m_any :: "string \<Rightarrow> nat" where
  "m_any inp = (case inp of [] \<Rightarrow> 0 | c # r \<Rightarrow> if c = newline then 0 else 1)"

text \<open>The rules in the order of the file.\<close>

definition lex_rules :: "string \<Rightarrow> (nat \<times> lex_rule) list" where
  "lex_rules inp =
     [(m_word ''/*'' inp, R_ccomment), (m_hash inp, R_hashcomment), (m_string inp, R_string)] @
     map (\<lambda>(w, t). (m_word w inp, R_word t)) word_table @
     [(length (takeWhile isdigit inp), R_number)] @
     map (\<lambda>(w, t). (m_word w inp, R_word t)) bool_table @
     [(m_newline inp, R_newline), (length (takeWhile lex_blank inp), R_space), (m_any inp, R_char)]"

fun longest :: "(nat \<times> lex_rule) list \<Rightarrow> nat \<times> lex_rule \<Rightarrow> nat \<times> lex_rule" where
  "longest [] best = best"
| "longest (r # rs) best = longest rs (if fst best < fst r then r else best)"

definition lex_match :: "string \<Rightarrow> nat \<times> lex_rule" where
  "lex_match inp = longest (lex_rules inp) (0, R_char)"

section \<open>Actions\<close>

text \<open>\<open>lx_more\<close> is the text kept by \<open>yymore\<close>, \<open>lx_inp\<close> what is still to be matched.\<close>

record lexer =
  lx_more :: string
  lx_inp :: string
  lx_linenum :: nat

datatype lex_step = Skip lexer | Tok token lexer | Eof | Fatal

text \<open>\<open>ccomment\<close>, from the input behind the opening on; \<open>None\<close> is the end of the file.  The character
  behind a row of stars is not looked at for a newline.\<close>

function ccomment :: "string \<Rightarrow> nat \<Rightarrow> (string \<times> nat) option" where
  "ccomment [] linenum = None"
| "ccomment (c # inp) linenum =
     (if c \<noteq> CHR ''*'' then ccomment inp (if c = newline then linenum + 1 else linenum)
      else (case dropWhile (\<lambda>c. c = CHR ''*'') inp of
              [] \<Rightarrow> None
            | d # rest \<Rightarrow> if d = CHR ''/'' then Some (rest, linenum) else ccomment rest linenum))"
  by pat_completeness auto
termination
proof (relation "measure (\<lambda>(inp, n). length inp)")
  fix c inp d rest and linenum :: nat
  assume "dropWhile (\<lambda>c. c = CHR ''*'') inp = d # rest"
  then have "length (d # rest) \<le> length inp" by (metis length_dropWhile_le)
  then show "((rest, linenum), c # inp, linenum) \<in> measure (\<lambda>(inp, n). length inp)" by simp
qed auto

text \<open>The loop that removes the backslashes of a string in place, up to the NUL; \<open>None\<close> when it runs out of
  the text.\<close>

fun unescape :: "string \<Rightarrow> string option" where
  "unescape [] = None"
| "unescape (c # s) =
     (if c = NUL then Some []
      else if c \<noteq> backslash then map_option (\<lambda>r. c # r) (unescape s)
      else (case s of [] \<Rightarrow> None | d # s \<Rightarrow> map_option (\<lambda>r. d # r) (unescape s)))"

text \<open>The string a pointer to these bytes is.\<close>

definition c_string :: "string \<Rightarrow> string" where
  "c_string s = takeWhile (\<lambda>c. c \<noteq> NUL) s"

definition string_action :: "string \<Rightarrow> string \<Rightarrow> nat \<Rightarrow> lex_step option" where
  "string_action yytext rest linenum =
     (let yyleng = length yytext in
      if yytext ! (yyleng - 2) = backslash then
        Some (Skip \<lparr>lx_more = take (yyleng - 1) yytext, lx_inp = drop (yyleng - 1) yytext @ rest, lx_linenum = linenum\<rparr>)
      else if yytext ! (yyleng - 1) \<noteq> quote then Some (Skip \<lparr>lx_more = [], lx_inp = rest, lx_linenum = linenum\<rparr>)
      else do {
        v \<leftarrow> unescape (butlast (tl yytext) @ [NUL]);
        Some (Tok (STRING (c_string v)) \<lparr>lx_more = [], lx_inp = rest, lx_linenum = linenum\<rparr>) })"

definition LINEBUF :: nat where "LINEBUF = 512"

definition newline_action :: "string \<Rightarrow> string \<Rightarrow> nat \<Rightarrow> lex_step option" where
  "newline_action yytext rest linenum =
     (if length (c_string (tl yytext)) < LINEBUF
      then Some (Skip \<lparr>lx_more = [], lx_inp = tl yytext @ rest, lx_linenum = linenum + 1\<rparr>) else None)"

definition number_action :: "string \<Rightarrow> string \<Rightarrow> nat \<Rightarrow> lex_step option" where
  "number_action yytext rest linenum =
     (let n = digits_val (takeWhile isdigit yytext) in
      if n < 2 ^ 31 then Some (Tok (NUMBER (int n)) \<lparr>lx_more = [], lx_inp = rest, lx_linenum = linenum\<rparr>) else None)"

definition lex_step :: "lexer \<Rightarrow> lex_step option" where
  "lex_step st =
     (if lx_inp st = [] then Some Eof
      else
        let (n, rule) = lex_match (lx_inp st);
            yytext = lx_more st @ take n (lx_inp st); rest = drop n (lx_inp st); linenum = lx_linenum st;
            st' = \<lparr>lx_more = [], lx_inp = rest, lx_linenum = linenum\<rparr>
        in (case rule of
              R_ccomment \<Rightarrow>
                (case ccomment rest linenum of
                   None \<Rightarrow> Some Fatal
                 | Some (rest, linenum) \<Rightarrow> Some (Skip \<lparr>lx_more = [], lx_inp = rest, lx_linenum = linenum\<rparr>))
            | R_hashcomment \<Rightarrow> Some (Skip st')
            | R_string \<Rightarrow> string_action yytext rest linenum
            | R_word t \<Rightarrow> Some (Tok t st')
            | R_number \<Rightarrow> number_action yytext rest linenum
            | R_newline \<Rightarrow> newline_action yytext rest linenum
            | R_space \<Rightarrow> Some (Skip st')
            | R_char \<Rightarrow> Some (Tok (Chr (yytext ! 0)) st')))"

section \<open>The matches\<close>

lemma longest_in: "longest rs b \<in> set rs \<union> {b}"
  by (induction rs arbitrary: b) (auto split: if_splits)

lemma longest_ge: "fst b \<le> fst (longest rs b) \<and> (\<forall>r \<in> set rs. fst r \<le> fst (longest rs b))"
proof (induction rs arbitrary: b)
  case (Cons r rs)
  show ?case using Cons.IH [of r] Cons.IH [of b] by (cases "fst b < fst r") auto
qed simp

lemma same_nc_length: "same_nc w s \<Longrightarrow> length w \<le> length s"
  by (induction w s rule: same_nc.induct) auto

lemma m_word_le: "m_word w inp \<le> length inp"
  using same_nc_length by (simp add: m_word_def)

lemma matches_le: "m_hash inp \<le> length inp" "m_string inp \<le> length inp" "m_newline inp \<le> length inp" "m_any inp \<le> length inp"
proof -
  show "m_hash inp \<le> length inp" "m_newline inp \<le> length inp" "m_any inp \<le> length inp"
    by (auto simp: m_hash_def m_newline_def m_any_def length_takeWhile_le split: list.split)
  show "m_string inp \<le> length inp"
  proof (cases inp)
    case (Cons c r)
    have "dropWhile P r \<noteq> [] \<Longrightarrow> 1 + length (takeWhile P r) \<le> length r" for P
      using takeWhile_dropWhile_len [of P r] by (cases "dropWhile P r") auto
    then show ?thesis by (auto simp: m_string_def Cons)
  qed (simp add: m_string_def)
qed

text \<open>What is matched is not empty, lies in the input and is what the rule says.\<close>

lemma lex_match_bounds:
  assumes "inp \<noteq> []"
  shows "0 < fst (lex_match inp)" "fst (lex_match inp) \<le> length inp" "lex_match inp \<in> set (lex_rules inp)"
proof -
  have "(m_any inp, R_char) \<in> set (lex_rules inp)" "(m_newline inp, R_newline) \<in> set (lex_rules inp)" by (simp_all add: lex_rules_def)
  then have "m_any inp \<le> fst (lex_match inp)" "m_newline inp \<le> fst (lex_match inp)"
    using longest_ge [of "(0, R_char)" "lex_rules inp"] by (force simp: lex_match_def)+
  then show p: "0 < fst (lex_match inp)" using assms by (cases inp) (auto simp: m_any_def m_newline_def split: if_splits)
  show i: "lex_match inp \<in> set (lex_rules inp)"
    using longest_in [of "lex_rules inp" "(0, R_char)"] p by (auto simp: lex_match_def)
  have "n \<le> length inp" if "(n, r) \<in> set (lex_rules inp)" for n r
    using that m_word_le matches_le by (auto simp: lex_rules_def length_takeWhile_le)
  then show "fst (lex_match inp) \<le> length inp" using i by (metis prod.collapse)
qed

lemma lex_match_rule:
  assumes "lex_match inp = (n, r)" "inp \<noteq> []"
  shows "r = R_string \<Longrightarrow> n = m_string inp" "r = R_newline \<Longrightarrow> n = m_newline inp" "r = R_char \<Longrightarrow> n = m_any inp"
    "r = R_number \<Longrightarrow> n = length (takeWhile isdigit inp)" "r = R_ccomment \<Longrightarrow> n = m_word ''/*'' inp"
  using lex_match_bounds(3) [OF assms(2)] unfolding assms(1) lex_rules_def by auto

section \<open>Progress\<close>

text \<open>A step either gives up text for good or, with \<open>yymore\<close>, moves it to the text kept.\<close>

definition lex_size :: "lexer \<Rightarrow> nat" where
  "lex_size st = length (lx_more st) + length (lx_inp st)"

definition lex_before :: "(lexer \<times> lexer) set" where
  "lex_before = measures [lex_size, \<lambda>st. length (lx_inp st)]"

lemma wf_lex_before: "wf lex_before"
  by (simp add: lex_before_def)

lemma ccomment_shorter: "ccomment inp n = Some (rest, m) \<Longrightarrow> length rest < length inp"
proof (induction inp n rule: ccomment.induct)
  case (2 c inp n)
  show ?case
  proof (cases "c = CHR ''*''")
    case True
    then obtain d ds where d: "dropWhile (\<lambda>c. c = CHR ''*'') inp = d # ds" using 2(3) by (auto split: list.splits)
    then have "length (d # ds) \<le> length inp" by (metis length_dropWhile_le)
    then show ?thesis using 2(2,3) True d by (auto split: if_splits)
  qed (use 2 in force)
qed simp

lemma rest_shorter:
  assumes "lex_match inp = (n, r)" "inp \<noteq> []"
  shows "length (drop n inp) < length inp" "0 < n" "n \<le> length inp"
  using lex_match_bounds(1,2) [OF assms(2)] assms by auto

text \<open>The text of a string: from the quote to the next quote or newline.\<close>

lemma m_string_text:
  assumes "0 < m_string inp"
  obtains a d where "take (m_string inp) inp = quote # a @ [d]" "d = quote \<or> d = newline" "quote \<notin> set a" "newline \<notin> set a"
proof -
  let ?P = "\<lambda>c. c \<noteq> quote \<and> c \<noteq> newline"
  obtain c r where c: "inp = c # r" using assms by (cases inp) (simp_all add: m_string_def)
  have "c = quote \<and> dropWhile ?P r \<noteq> []"
  proof (rule ccontr)
    assume "\<not> (c = quote \<and> dropWhile ?P r \<noteq> [])"
    then have "m_string inp = 0" unfolding m_string_def c list.case by (rule if_not_P)
    then show False using assms by simp
  qed
  then have r: "inp = quote # r" "dropWhile ?P r \<noteq> []" using c by blast+
  obtain d t where d: "dropWhile ?P r = d # t" using r(2) by (cases "dropWhile ?P r") auto
  define tw where "tw = takeWhile ?P r"
  have e: "r = tw @ d # t" unfolding tw_def by (metis d takeWhile_dropWhile_id)
  have n: "m_string inp = 2 + length tw" unfolding m_string_def r(1) list.case tw_def using r(2) by (subst if_P) simp_all
  have i: "inp = quote # tw @ d # t" using r(1) unfolding e .
  have "take (m_string inp) inp = take (2 + length tw) (quote # tw @ d # t)" by (rule arg_cong2 [OF n i])
  also have "\<dots> = quote # tw @ [d]" by simp
  finally have "take (m_string inp) inp = quote # tw @ [d]" .
  moreover have "\<not> ?P d" using hd_dropWhile [of ?P r] r(2) unfolding d list.sel .
  moreover have "quote \<notin> set tw" "newline \<notin> set tw" unfolding tw_def using set_takeWhileD [of quote ?P r] set_takeWhileD [of newline ?P r] by blast+
  ultimately show ?thesis using that [of tw d] by blast
qed

lemma string_action_progress:
  assumes "string_action (kept @ txt) rest n = Some r" "2 \<le> length txt" "r = Skip st \<or> r = Tok t st"
  shows "lex_size st < length kept + length txt + length rest \<or>
    lex_size st = length kept + length txt + length rest \<and> length (lx_inp st) < length txt + length rest"
  using assms by (auto simp: string_action_def lex_size_def Let_def bind_Some_iff split: if_splits)

lemma lex_step_progress:
  assumes "lex_step st = Some r" "r = Skip st' \<or> r = Tok t st'"
  shows "(st', st) \<in> lex_before"
proof -
  have ne: "lx_inp st \<noteq> []" using assms by (auto simp: lex_step_def)
  obtain n rule where m: "lex_match (lx_inp st) = (n, rule)" by force
  let ?txt = "take n (lx_inp st)" let ?rest = "drop n (lx_inp st)"
  note l = rest_shorter [OF m ne]
  have size: "lex_size st = length (lx_more st) + length ?txt + length ?rest" "length (lx_inp st) = length ?txt + length ?rest" by (simp_all add: lex_size_def)
  have smaller: "lex_size st' < lex_size st \<or> lex_size st' = lex_size st \<and> length (lx_inp st') < length (lx_inp st)"
  proof (cases rule)
    case R_ccomment
    then obtain rest k where c: "ccomment ?rest (lx_linenum st) = Some (rest, k)" "lx_inp st' = rest" "lx_more st' = []"
      using assms m ne by (auto simp: lex_step_def Let_def split: option.splits)
    then show ?thesis using ccomment_shorter [OF c(1)] l by (simp add: lex_size_def)
  next
    case R_string
    have "string_action (lx_more st @ ?txt) ?rest (lx_linenum st) = Some r" using assms(1) m ne R_string by (simp add: lex_step_def Let_def)
    moreover obtain a d where "?txt = quote # a @ [d]"
      using m_string_text [of "lx_inp st"] lex_match_rule(1) [OF m ne R_string] l(2) by metis
    then have "2 \<le> length ?txt" by simp
    ultimately show ?thesis using string_action_progress [OF _ _ assms(2)] unfolding size by blast
  next
    case R_newline
    then have "r = Skip \<lparr>lx_more = [], lx_inp = tl (lx_more st @ ?txt) @ ?rest, lx_linenum = lx_linenum st + 1\<rparr>"
      using assms(1) m ne by (simp add: lex_step_def Let_def newline_action_def split: if_splits)
    moreover have "lx_more st @ ?txt \<noteq> []" using l(2) ne by simp
    ultimately show ?thesis using assms(2) l by (auto simp: lex_size_def)
  next
    case R_number
    then show ?thesis using assms m ne l by (auto simp: lex_step_def Let_def number_action_def lex_size_def split: if_splits)
  qed (use assms m ne l in \<open>auto simp: lex_step_def Let_def lex_size_def\<close>)
  then show ?thesis by (auto simp: lex_before_def)
qed

section \<open>The stream of tokens\<close>

text \<open>What the parser gets to see: tokens with the line the scanner is in behind them, until the file ends, the
  scanner gives up in a comment that is not closed or does something undefined.  \<open>yylex\<close> returns a
  character as an \<open>int\<close>, and the parser takes a code that is not positive for the end: the character NUL
  and those with the highest bit set.\<close>

datatype stream = T token nat stream | T_end nat | T_fatal | T_undefined

definition ends_parse :: "token \<Rightarrow> bool" where
  "ends_parse t = (case t of Chr c \<Rightarrow> c = NUL \<or> 128 \<le> (of_char c :: nat) | _ \<Rightarrow> False)"

function tokens :: "lexer \<Rightarrow> stream" where
  "tokens st =
     (case lex_step st of
        None \<Rightarrow> T_undefined
      | Some Eof \<Rightarrow> T_end (lx_linenum st)
      | Some Fatal \<Rightarrow> T_fatal
      | Some (Skip st') \<Rightarrow> tokens st'
      | Some (Tok t st') \<Rightarrow> if ends_parse t then T_end (lx_linenum st') else T t (lx_linenum st') (tokens st'))"
  by pat_completeness auto
termination
  by (relation lex_before) (auto simp: wf_lex_before intro: lex_step_progress)

declare tokens.simps [simp del]

definition scan_config :: "string \<Rightarrow> stream" where
  "scan_config text = tokens \<lparr>lx_more = [], lx_inp = text, lx_linenum = 1\<rparr>"

lemma scan_example:
  "scan_config (''fd = '' @ [quote] @ ''a'' @ [backslash, quote] @ ''b'' @ [quote]) =
   T (K FD) 1 (T (Chr CHR ''='') 1 (T (STRING (''a'' @ [quote] @ ''b'')) 1 (T_end 1)))"
  by code_simp

section \<open>Printing tokens\<close>

definition escape :: "string \<Rightarrow> string" where
  "escape v = concat (map (\<lambda>c. if c = quote \<or> c = backslash then [backslash, c] else [c]) v)"

definition word_of :: "token \<Rightarrow> string" where
  "word_of t = fst (hd (filter (\<lambda>p. snd p = t) word_table))"

fun print_token :: "token \<Rightarrow> string" where
  "print_token (NUMBER n) = num_str 10 False (nat n)"
| "print_token (STRING v) = quote # escape v @ [quote]"
| "print_token (Chr c) = [c]"
| "print_token t = word_of t"

definition print_tokens :: "token list \<Rightarrow> string" where
  "print_tokens ts = concat (map (\<lambda>t. print_token t @ '' '') ts)"

text \<open>A string that ends in a backslash cannot be written: the quote behind it would not end it.\<close>

definition string_ok :: "string \<Rightarrow> bool" where
  "string_ok v \<longleftrightarrow> NUL \<notin> set v \<and> newline \<notin> set v \<and> (v \<noteq> [] \<longrightarrow> last v \<noteq> backslash)"

fun printable :: "token \<Rightarrow> bool" where
  "printable (K k) = True"
| "printable (NUMBER n) \<longleftrightarrow> 0 \<le> n \<and> n < 2 ^ 31"
| "printable (STRING v) = string_ok v"
| "printable (PROTOCOLTYPE t) \<longleftrightarrow> (\<forall>n. t \<noteq> OPM_TYPE_OTHER n)"
| "printable (Chr c) \<longleftrightarrow> c \<in> set ''{};=:''"

section \<open>Scanning what was printed\<close>

lemma longest_keep: "(\<And>r. r \<in> set ys \<Longrightarrow> fst r \<le> fst b) \<Longrightarrow> longest ys b = b"
proof (induction ys)
  case (Cons r ys)
  have "\<not> fst b < fst r" using Cons.prems [of r] by (simp add: not_less)
  moreover have "longest ys b = b" using Cons.prems by (intro Cons.IH) simp
  ultimately show ?case by simp
qed simp

lemma longest_first:
  assumes "fst b < n" "\<And>r. r \<in> set xs \<Longrightarrow> fst r < n" "\<And>r. r \<in> set ys \<Longrightarrow> fst r \<le> n"
  shows "longest (xs @ (n, rule) # ys) b = (n, rule)"
  using assms(1,2)
proof (induction xs arbitrary: b)
  case Nil
  then show ?case using longest_keep [of ys "(n, rule)"] assms(3) by simp
next
  case (Cons r xs)
  then show ?case by simp
qed

definition letter :: "char \<Rightarrow> bool" where
  "letter c \<longleftrightarrow> 97 \<le> (of_char (tolower c) :: nat) \<and> (of_char (tolower c) :: nat) \<le> 122"

lemma tolower_letter: "tolower d \<noteq> d \<Longrightarrow> letter d"
proof -
  assume "tolower d \<noteq> d"
  then have d: "65 \<le> (of_char d :: nat)" "(of_char d :: nat) \<le> 90" by (auto simp: tolower_def split: if_splits)
  then have "(of_char (tolower d) :: nat) = of_char d + 32" by (simp add: tolower_def)
  then show ?thesis using d by (simp add: letter_def)
qed

definition upper_first :: "string \<times> token \<Rightarrow> bool" where
  "upper_first p = (case fst p of [] \<Rightarrow> False | d # v \<Rightarrow> tolower d \<noteq> d)"

lemma words_start: "p \<in> set (word_table @ bool_table) \<Longrightarrow> \<exists>d v. fst p = d # v \<and> letter d"
proof -
  have "list_all upper_first (word_table @ bool_table)" by code_simp
  moreover assume "p \<in> set (word_table @ bool_table)"
  ultimately have "upper_first p" unfolding list_all_iff by (rule bspec)
  then show ?thesis using tolower_letter by (cases "fst p") (auto simp: upper_first_def)
qed

lemma no_word:
  assumes "\<not> letter c" "(w, t) \<in> set word_table \<or> (w, t) \<in> set bool_table"
  shows "m_word w (c # s) = 0"
proof -
  obtain d v where d: "w = d # v" "letter d" using words_start [of "(w, t)"] assms(2) unfolding set_append by auto
  then have "tolower d \<noteq> tolower c" using assms(1) unfolding letter_def by metis
  then show ?thesis by (simp add: m_word_def d(1))
qed

lemma no_words:
  assumes "\<not> letter c" "r \<in> set (map (\<lambda>(w, t). (m_word w (c # s), R_word t)) word_table) \<union>
    set (map (\<lambda>(w, t). (m_word w (c # s), R_word t)) bool_table)"
  shows "fst r = 0"
proof -
  obtain w t where "r = (m_word w (c # s), R_word t)" "(w, t) \<in> set word_table \<or> (w, t) \<in> set bool_table" using assms(2) by auto
  then show ?thesis using no_word [OF assms(1)] by simp
qed

text \<open>What can match an input that does not start with a letter or a slash.\<close>

lemma lex_rules_other:
  assumes "\<not> letter c" "c \<noteq> CHR ''/''"
  obtains xs ys where "lex_rules (c # s) = [(0, R_ccomment), (m_hash (c # s), R_hashcomment), (m_string (c # s), R_string)] @ xs @
      [(length (takeWhile isdigit (c # s)), R_number)] @ ys @
      [(m_newline (c # s), R_newline), (length (takeWhile lex_blank (c # s)), R_space), (m_any (c # s), R_char)]"
    "\<And>r. r \<in> set xs \<union> set ys \<Longrightarrow> fst r = 0"
proof -
  have "tolower c \<noteq> CHR ''/''"
  proof
    assume a: "tolower c = CHR ''/''"
    then have "\<not> letter c" "tolower c = c" using assms(1) tolower_letter by blast+
    then show False using a assms(2) by simp
  qed
  then have "tolower CHR ''/'' \<noteq> tolower c" by (simp add: tolower_def)
  then have "m_word ''/*'' (c # s) = 0" by (simp add: m_word_def)
  then show ?thesis using that no_words [OF assms(1)] unfolding lex_rules_def by metis
qed

lemma not_letter: "(of_char c :: nat) < 65 \<or> 90 < (of_char c :: nat) \<and> (of_char c :: nat) < 97 \<or> 122 < (of_char c :: nat) \<Longrightarrow> \<not> letter c"
  by (auto simp: letter_def tolower_def)

lemma digit_facts:
  assumes "isdigit c"
  shows "\<not> letter c" "c \<noteq> CHR ''/''" "c \<noteq> CHR ''#''" "c \<noteq> quote" "c \<noteq> newline" "\<not> lex_blank c"
  using assms not_letter [of c] by (auto simp: isdigit_def lex_blank_def)

lemma lex_pick:
  assumes "lex_rules inp = xs @ (n, rule) # ys" "0 < n" "\<And>r. r \<in> set xs \<Longrightarrow> fst r < n" "\<And>r. r \<in> set ys \<Longrightarrow> fst r \<le> n"
  shows "lex_match inp = (n, rule)"
  unfolding lex_match_def assms(1) by (rule longest_first) (use assms(2-4) in auto)

lemma lex_match_number:
  assumes "isdigit c"
  shows "lex_match (c # s) = (length (takeWhile isdigit (c # s)), R_number)"
proof -
  note c = digit_facts [OF assms]
  obtain xs ys where e: "lex_rules (c # s) = [(0, R_ccomment), (m_hash (c # s), R_hashcomment), (m_string (c # s), R_string)] @ xs @
      [(length (takeWhile isdigit (c # s)), R_number)] @ ys @
      [(m_newline (c # s), R_newline), (length (takeWhile lex_blank (c # s)), R_space), (m_any (c # s), R_char)]"
      and z: "\<And>r. r \<in> set xs \<union> set ys \<Longrightarrow> fst r = 0" using lex_rules_other [OF c(1,2)] by metis
  have m: "m_hash (c # s) = 0" "m_string (c # s) = 0" "m_newline (c # s) = 0" "m_any (c # s) = 1"
    using c by (simp_all add: m_hash_def m_string_def m_newline_def m_any_def)
  let ?xs = "[(0, R_ccomment), (m_hash (c # s), R_hashcomment), (m_string (c # s), R_string)] @ xs"
  let ?ys = "ys @ [(m_newline (c # s), R_newline), (length (takeWhile lex_blank (c # s)), R_space), (m_any (c # s), R_char)]"
  have e': "lex_rules (c # s) = ?xs @ (length (takeWhile isdigit (c # s)), R_number) # ?ys" using e by simp
  show ?thesis
  proof (rule lex_pick [OF e'])
    show "0 < length (takeWhile isdigit (c # s))" using assms by simp
    show "fst r < length (takeWhile isdigit (c # s))" if "r \<in> set ?xs" for r using that assms z [of r] m by auto
    show "fst r \<le> length (takeWhile isdigit (c # s))" if "r \<in> set ?ys" for r using that assms z [of r] m c by auto
  qed
qed

lemma lex_match_string:
  assumes "m_string (quote # s) = n" "0 < n"
  shows "lex_match (quote # s) = (n, R_string)"
proof -
  have c: "\<not> letter quote" "quote \<noteq> CHR ''/''" "\<not> isdigit quote" "\<not> lex_blank quote" using not_letter [of quote] by (auto simp: isdigit_def lex_blank_def)
  obtain xs ys where e: "lex_rules (quote # s) = [(0, R_ccomment), (m_hash (quote # s), R_hashcomment), (m_string (quote # s), R_string)] @ xs @
      [(length (takeWhile isdigit (quote # s)), R_number)] @ ys @
      [(m_newline (quote # s), R_newline), (length (takeWhile lex_blank (quote # s)), R_space), (m_any (quote # s), R_char)]"
      and z: "\<And>r. r \<in> set xs \<union> set ys \<Longrightarrow> fst r = 0" using lex_rules_other [OF c(1,2)] by metis
  have m: "m_hash (quote # s) = 0" "m_newline (quote # s) = 0" "m_any (quote # s) = 1"
    by (simp_all add: m_hash_def m_newline_def m_any_def)
  let ?xs = "[(0, R_ccomment), (m_hash (quote # s), R_hashcomment)]"
  let ?ys = "xs @ [(length (takeWhile isdigit (quote # s)), R_number)] @ ys @ [(m_newline (quote # s), R_newline), (length (takeWhile lex_blank (quote # s)), R_space), (m_any (quote # s), R_char)]"
  have e': "lex_rules (quote # s) = ?xs @ (n, R_string) # ?ys" using e assms(1) by simp
  show ?thesis
  proof (rule lex_pick [OF e' assms(2)])
    show "fst r < n" if "r \<in> set ?xs" for r using that assms(2) m by auto
    show "fst r \<le> n" if "r \<in> set ?ys" for r using that assms(2) z [of r] m c by auto
  qed
qed

lemma lex_match_space: "\<exists>n. lex_match (CHR '' '' # s) = (n, R_space) \<and> n = length (takeWhile lex_blank (CHR '' '' # s))"
proof -
  let ?c = "CHR '' ''" let ?n = "length (takeWhile lex_blank (?c # s))"
  have c: "\<not> letter ?c" "?c \<noteq> CHR ''/''" "\<not> isdigit ?c" "lex_blank ?c" using not_letter [of ?c] by (auto simp: isdigit_def lex_blank_def)
  obtain xs ys where e: "lex_rules (?c # s) = [(0, R_ccomment), (m_hash (?c # s), R_hashcomment), (m_string (?c # s), R_string)] @ xs @
      [(length (takeWhile isdigit (?c # s)), R_number)] @ ys @
      [(m_newline (?c # s), R_newline), (?n, R_space), (m_any (?c # s), R_char)]"
      and z: "\<And>r. r \<in> set xs \<union> set ys \<Longrightarrow> fst r = 0" using lex_rules_other [OF c(1,2)] by metis
  have m: "m_hash (?c # s) = 0" "m_string (?c # s) = 0" "m_newline (?c # s) = 0" "m_any (?c # s) = 1"
    by (simp_all add: m_hash_def m_string_def m_newline_def m_any_def)
  let ?xs = "[(0, R_ccomment), (m_hash (?c # s), R_hashcomment), (m_string (?c # s), R_string)] @ xs @
      [(length (takeWhile isdigit (?c # s)), R_number)] @ ys @ [(m_newline (?c # s), R_newline)]"
  have e': "lex_rules (?c # s) = ?xs @ (?n, R_space) # [(m_any (?c # s), R_char)]" using e by simp
  have "lex_match (?c # s) = (?n, R_space)"
  proof (rule lex_pick [OF e'])
    show "0 < ?n" using c by simp
    show "fst r < ?n" if "r \<in> set ?xs" for r using that z [of r] m c by auto
    show "fst r \<le> ?n" if "r \<in> set [(m_any (?c # s), R_char)]" for r using that m c by auto
  qed
  then show ?thesis by blast
qed

text \<open>Words and single characters: a space behind them changes nothing.\<close>

definition clear_word :: "string \<Rightarrow> bool" where
  "clear_word w = list_all (\<lambda>c. tolower c \<noteq> CHR '' '') w"

lemma same_nc_space: "clear_word v \<Longrightarrow> same_nc v (w @ CHR '' '' # s) = same_nc v w"
proof (induction v w rule: same_nc.induct)
  case (2 c w)
  have "tolower CHR '' '' = CHR '' ''" by (simp add: tolower_def)
  then show ?case using 2 by (simp add: clear_word_def)
qed (simp_all add: clear_word_def)

lemma words_clear: "list_all (\<lambda>p. clear_word (fst p)) (word_table @ bool_table)" "clear_word ''/*''"
  by code_simp+

lemma lex_match_word:
  assumes "c \<noteq> CHR ''#''" "c \<noteq> quote" "c \<noteq> newline" "\<not> lex_blank c" "\<not> isdigit c"
  shows "lex_match ((c # w) @ CHR '' '' # s) = lex_match (c # w)"
proof -
  have "map (\<lambda>(v, t). (m_word v ((c # w) @ CHR '' '' # s), R_word t)) tab = map (\<lambda>(v, t). (m_word v (c # w), R_word t)) tab"
    if "list_all (\<lambda>p. clear_word (fst p)) tab" for tab
    using that same_nc_space [of _ "c # w" s] by (induction tab) (auto simp: m_word_def)
  moreover have "list_all (\<lambda>p. clear_word (fst p)) word_table" "list_all (\<lambda>p. clear_word (fst p)) bool_table"
    using words_clear(1) unfolding list_all_append by blast+
  moreover have "m_word ''/*'' ((c # w) @ CHR '' '' # s) = m_word ''/*'' (c # w)"
    using same_nc_space [OF words_clear(2), of "c # w" s] by (simp add: m_word_def)
  ultimately have "lex_rules ((c # w) @ CHR '' '' # s) = lex_rules (c # w)"
    using assms unfolding lex_rules_def by (simp add: m_hash_def m_string_def m_newline_def m_any_def)
  then show ?thesis by (simp add: lex_match_def)
qed

text \<open>The scanner at the front of \<open>inp\<close> with no text kept.\<close>

abbreviation lex_at :: "string \<Rightarrow> nat \<Rightarrow> lexer" where
  "lex_at inp n \<equiv> \<lparr>lx_more = [], lx_inp = inp, lx_linenum = n\<rparr>"

lemma tokens_tok: "lex_step st = Some (Tok t st') \<Longrightarrow> \<not> ends_parse t \<Longrightarrow> tokens st = T t (lx_linenum st') (tokens st')"
  by (simp add: tokens.simps [of st])

lemma tokens_skip: "lex_step st = Some (Skip st') \<Longrightarrow> tokens st = tokens st'"
  by (simp add: tokens.simps [of st])

lemma tokens_space: "tokens (lex_at (CHR '' '' # s) n) = tokens (lex_at (dropWhile lex_blank s) n)"
proof -
  let ?k = "length (takeWhile lex_blank (CHR '' '' # s))"
  have "lex_match (CHR '' '' # s) = (?k, R_space)" using lex_match_space by auto
  moreover have "drop ?k (CHR '' '' # s) = dropWhile lex_blank s" by (simp add: lex_blank_def dropWhile_eq_drop)
  ultimately have "lex_step (lex_at (CHR '' '' # s) n) = Some (Skip (lex_at (dropWhile lex_blank s) n))"
    by (simp add: lex_step_def)
  then show ?thesis by (rule tokens_skip)
qed

lemma tokens_word:
  assumes "lex_match w = (length w, R_word t)" "w = c # v" "c \<noteq> CHR ''#''" "c \<noteq> quote" "c \<noteq> newline" "\<not> lex_blank c" "\<not> isdigit c" "\<not> ends_parse t"
  shows "tokens (lex_at (w @ CHR '' '' # s) n) = T t n (tokens (lex_at (CHR '' '' # s) n))"
proof -
  have "lex_match (w @ CHR '' '' # s) = (length w, R_word t)" using lex_match_word [OF assms(3-7), of v s] assms(1,2) by simp
  then have "lex_step (lex_at (w @ CHR '' '' # s) n) = Some (Tok t (lex_at (CHR '' '' # s) n))"
    using assms(2) by (simp add: lex_step_def)
  then show ?thesis using tokens_tok [OF _ assms(8)] by simp
qed

lemma tokens_char:
  assumes "c \<in> set ''{};=:''"
  shows "tokens (lex_at (c # CHR '' '' # s) n) = T (Chr c) n (tokens (lex_at (CHR '' '' # s) n))"
proof -
  have "lex_match [CHR ''{''] = (1, R_char)" "lex_match [CHR ''}''] = (1, R_char)" "lex_match [CHR '';''] = (1, R_char)"
    "lex_match [CHR ''=''] = (1, R_char)" "lex_match [CHR '':''] = (1, R_char)" by code_simp+
  then have "lex_match [c] = (1, R_char)" using assms by auto
  moreover have "c \<noteq> CHR ''#''" "c \<noteq> quote" "c \<noteq> newline" "\<not> lex_blank c" "\<not> isdigit c" using assms by (auto simp: lex_blank_def isdigit_def)
  ultimately have "lex_match (c # CHR '' '' # s) = (1, R_char)" using lex_match_word [of c "[]" s] by simp
  then have "lex_step (lex_at (c # CHR '' '' # s) n) = Some (Tok (Chr c) (lex_at (CHR '' '' # s) n))" by (simp add: lex_step_def)
  moreover have "\<not> ends_parse (Chr c)" using assms by (auto simp: ends_parse_def)
  ultimately show ?thesis using tokens_tok [of _ "Chr c"] by simp
qed

lemma tokens_number:
  assumes "0 \<le> i" "i < 2 ^ 31"
  shows "tokens (lex_at (num_str 10 False (nat i) @ CHR '' '' # s) n) = T (NUMBER i) n (tokens (lex_at (CHR '' '' # s) n))"
proof -
  let ?w = "num_str 10 False (nat i)"
  obtain c v where w: "?w = c # v" using num_str_nonempty by (metis neq_Nil_conv)
  have d: "\<forall>c \<in> set ?w. isdigit c" using num_str_digits by blast
  then have t: "takeWhile isdigit (?w @ CHR '' '' # s) = ?w" by (simp add: isdigit_def)
  have "lex_match (?w @ CHR '' '' # s) = (length ?w, R_number)"
    using lex_match_number [of c "v @ CHR '' '' # s"] d t w by simp
  moreover have "takeWhile isdigit ?w = ?w" using d by simp
  moreover have "nat i < 2 ^ 31" "digits_val (c # v) = nat i" using assms digits_val_num_str [of False "nat i"] w by simp_all
  ultimately have "lex_step (lex_at (?w @ CHR '' '' # s) n) = Some (Tok (NUMBER i) (lex_at (CHR '' '' # s) n))"
    using w assms by (simp add: lex_step_def number_action_def)
  then show ?thesis using tokens_tok [of _ "NUMBER i"] by (simp add: ends_parse_def)
qed

subsection \<open>Strings\<close>

lemma m_string_quoted: "quote \<notin> set a \<Longrightarrow> newline \<notin> set a \<Longrightarrow> m_string (quote # a @ quote # r) = length a + 2"
proof -
  assume a: "quote \<notin> set a" "newline \<notin> set a"
  then have "takeWhile (\<lambda>c. c \<noteq> quote \<and> c \<noteq> newline) (a @ quote # r) = a" "dropWhile (\<lambda>c. c \<noteq> quote \<and> c \<noteq> newline) (a @ quote # r) = quote # r"
    by (auto simp: takeWhile_append dropWhile_append intro!: takeWhile_eq_all_conv [THEN iffD2])
  then show ?thesis by (simp add: m_string_def)
qed

lemma lex_step_quoted:
  assumes "quote \<notin> set a" "newline \<notin> set a"
  shows "lex_step \<lparr>lx_more = m, lx_inp = quote # a @ quote # r, lx_linenum = n\<rparr> = string_action (m @ quote # a @ [quote]) r n"
proof -
  have "lex_match (quote # a @ quote # r) = (length a + 2, R_string)" using lex_match_string [OF m_string_quoted [OF assms]] by simp
  moreover have "take (length a + 2) (quote # a @ quote # r) = quote # a @ [quote]" "drop (length a + 2) (quote # a @ quote # r) = r" by simp_all
  ultimately show ?thesis by (simp add: lex_step_def)
qed

lemma string_action_more:
  "string_action (m @ [backslash, quote]) r n = Some (Skip \<lparr>lx_more = m @ [backslash], lx_inp = quote # r, lx_linenum = n\<rparr>)"
  by (simp add: string_action_def Let_def)

lemma escape_simps [simp]: "escape [] = []" "escape (c # v) = (if c = quote \<or> c = backslash then [backslash, c] else [c]) @ escape v"
  "escape (u @ v) = escape u @ escape v"
  by (simp_all add: escape_def)

lemma escape_clean: "quote \<notin> set v \<Longrightarrow> quote \<notin> set (escape v)" "newline \<notin> set v \<Longrightarrow> newline \<notin> set (escape v)"
  by (induction v) auto

lemma escape_last: "v \<noteq> [] \<Longrightarrow> last (escape v) = last v \<and> escape v \<noteq> []"
  by (cases v rule: rev_cases) auto

lemma unescape_escape: "NUL \<notin> set v \<Longrightarrow> unescape (escape v @ [NUL]) = Some v"
  by (induction v) auto

lemma string_action_done:
  assumes "string_ok v"
  shows "string_action (quote # escape v @ [quote]) r n = Some (Tok (STRING v) (lex_at r n))"
proof -
  have l: "(quote # escape v) ! length (escape v) \<noteq> backslash"
  proof (cases "v = []")
    case False
    then have "last (quote # escape v) \<noteq> backslash" using assms escape_last [OF False] by (simp add: string_ok_def)
    then show ?thesis by (metis length_Cons diff_Suc_1 last_conv_nth list.discI)
  qed simp
  have "(quote # escape v @ [quote]) ! length (escape v) = (quote # escape v) ! length (escape v)"
    by (simp only: append_Cons [symmetric] nth_append) simp
  then have "(quote # escape v @ [quote]) ! length (escape v) \<noteq> backslash" using l by simp
  moreover have "butlast (escape v @ [quote]) = escape v" "(quote # escape v @ [quote]) ! Suc (length (escape v)) = quote" by (simp_all add: nth_append)
  moreover have "c_string v = v" using assms by (auto simp: c_string_def string_ok_def)
  ultimately show ?thesis using assms unescape_escape [of v] by (simp add: string_action_def Let_def string_ok_def)
qed

text \<open>The text kept so far and the rest of the string make up the whole.\<close>

lemma tokens_string_from:
  assumes "m @ quote # escape w @ [quote] = quote # escape v @ [quote]" "string_ok v" "newline \<notin> set w"
  shows "tokens \<lparr>lx_more = m, lx_inp = quote # escape w @ quote # r, lx_linenum = n\<rparr> = T (STRING v) n (tokens (lex_at r n))"
  using assms(1,3)
proof (induction "length w" arbitrary: w m rule: less_induct)
  case less
  show ?case
  proof (cases "quote \<in> set w")
    case False
    have "lex_step \<lparr>lx_more = m, lx_inp = quote # escape w @ quote # r, lx_linenum = n\<rparr> = Some (Tok (STRING v) (lex_at r n))"
      using lex_step_quoted [of "escape w" m r n] escape_clean False less.prems string_action_done [OF assms(2)] by simp
    then show ?thesis using tokens_tok [of _ "STRING v"] by (simp add: ends_parse_def)
  next
    case True
    then obtain w1 w2 where w: "w = w1 @ quote # w2" "quote \<notin> set w1" by (meson split_list_first)
    let ?a = "escape w1 @ [backslash]"
    have a: "quote \<notin> set ?a" "newline \<notin> set ?a" using escape_clean [of w1] w less.prems(2) by auto
    have i: "quote # escape w @ quote # r = quote # ?a @ quote # (escape w2 @ quote # r)" by (simp add: w)
    have "lex_step \<lparr>lx_more = m, lx_inp = quote # escape w @ quote # r, lx_linenum = n\<rparr> =
        string_action ((m @ quote # escape w1) @ [backslash, quote]) (escape w2 @ quote # r) n"
      unfolding i lex_step_quoted [OF a] by simp
    also have "\<dots> = Some (Skip \<lparr>lx_more = (m @ quote # escape w1) @ [backslash], lx_inp = quote # escape w2 @ quote # r, lx_linenum = n\<rparr>)"
      by (rule string_action_more)
    finally have s: "lex_step \<lparr>lx_more = m, lx_inp = quote # escape w @ quote # r, lx_linenum = n\<rparr> =
        Some (Skip \<lparr>lx_more = (m @ quote # escape w1) @ [backslash], lx_inp = quote # escape w2 @ quote # r, lx_linenum = n\<rparr>)" .
    show ?thesis unfolding tokens_skip [OF s] by (rule less.hyps) (use w less.prems in simp_all)
  qed
qed

lemma tokens_string:
  "string_ok v \<Longrightarrow> tokens (lex_at ((quote # escape v @ [quote]) @ s) n) = T (STRING v) n (tokens (lex_at s n))"
  using tokens_string_from [of "[]" v v s n] by (simp add: string_ok_def)

subsection \<open>All tokens\<close>

definition word_lexed :: "string \<times> token \<Rightarrow> bool" where
  "word_lexed p \<longleftrightarrow> lex_match (fst p) = (length (fst p), R_word (snd p))"

definition plain_first :: "string \<times> token \<Rightarrow> bool" where
  "plain_first p = (case fst p of [] \<Rightarrow> False | c # v \<Rightarrow> \<not> lex_blank c \<and> \<not> isdigit c \<and> c \<noteq> CHR ''#'' \<and> c \<noteq> quote \<and> c \<noteq> newline)"

lemma words_lexed: "list_all word_lexed word_table" "list_all plain_first word_table"
  by code_simp+

lemma word_of_in:
  assumes "(\<exists>k. t = K k) \<or> (\<exists>ty. t = PROTOCOLTYPE ty \<and> (\<forall>n. ty \<noteq> OPM_TYPE_OTHER n))"
  shows "(word_of t, t) \<in> set word_table"
  using assms
proof
  assume "\<exists>k. t = K k"
  then obtain k where "t = K k" by blast
  then show ?thesis by (cases k) (simp_all add: word_of_def word_table_def)
next
  assume "\<exists>ty. t = PROTOCOLTYPE ty \<and> (\<forall>n. ty \<noteq> OPM_TYPE_OTHER n)"
  then obtain ty where "t = PROTOCOLTYPE ty" "\<forall>n. ty \<noteq> OPM_TYPE_OTHER n" by blast
  then show ?thesis by (cases ty) (simp_all add: word_of_def word_table_def)
qed

lemma tokens_word_of:
  assumes "(word_of t, t) \<in> set word_table" "\<not> ends_parse t"
  shows "tokens (lex_at (word_of t @ CHR '' '' # s) n) = T t n (tokens (lex_at (CHR '' '' # s) n))" "\<exists>c v. word_of t = c # v \<and> \<not> lex_blank c"
proof -
  have "word_lexed (word_of t, t)" "plain_first (word_of t, t)" using words_lexed assms(1) unfolding list_all_iff by blast+
  then obtain c v where w: "lex_match (word_of t) = (length (word_of t), R_word t)" "word_of t = c # v" "c \<noteq> CHR ''#''" "c \<noteq> quote" "c \<noteq> newline"
      "\<not> lex_blank c" "\<not> isdigit c" by (cases "word_of t") (auto simp: word_lexed_def plain_first_def)
  show "tokens (lex_at (word_of t @ CHR '' '' # s) n) = T t n (tokens (lex_at (CHR '' '' # s) n))" by (rule tokens_word [OF w assms(2)])
  show "\<exists>c v. word_of t = c # v \<and> \<not> lex_blank c" using w(2,6) by blast
qed

lemma tokens_print_token:
  assumes "printable t"
  shows "tokens (lex_at (print_token t @ CHR '' '' # s) n) = T t n (tokens (lex_at (CHR '' '' # s) n))"
    and "\<exists>c v. print_token t = c # v \<and> \<not> lex_blank c"
proof -
  have "tokens (lex_at (print_token t @ CHR '' '' # s) n) = T t n (tokens (lex_at (CHR '' '' # s) n)) \<and>
      (\<exists>c v. print_token t = c # v \<and> \<not> lex_blank c)"
  proof (cases t)
    case (K k)
    then show ?thesis using tokens_word_of [OF word_of_in [of t]] by (simp add: ends_parse_def)
  next
    case (PROTOCOLTYPE ty)
    then show ?thesis using tokens_word_of [OF word_of_in [of t]] assms by (simp add: ends_parse_def)
  next
    case (NUMBER i)
    obtain c v where c: "num_str 10 False (nat i) = c # v" using num_str_nonempty by (metis neq_Nil_conv)
    have "c \<in> set (num_str 10 False (nat i))" by (simp add: c)
    then have "\<not> lex_blank c" using num_str_digits digit_facts(6) by blast
    then show ?thesis using tokens_number [of i s n] assms NUMBER c by simp
  next
    case (STRING v)
    then show ?thesis using tokens_string [of v "CHR '' '' # s" n] assms by (simp add: lex_blank_def)
  next
    case (Chr c)
    have c: "c \<in> set ''{};=:''" using assms Chr by simp
    then have "\<not> lex_blank c" by (auto simp: lex_blank_def)
    then show ?thesis using tokens_char [OF c, of s n] Chr by simp
  qed
  then show "tokens (lex_at (print_token t @ CHR '' '' # s) n) = T t n (tokens (lex_at (CHR '' '' # s) n))"
    "\<exists>c v. print_token t = c # v \<and> \<not> lex_blank c" by blast+
qed

text \<open>The stream of a list of tokens on one line.\<close>

definition stream_of :: "nat \<Rightarrow> token list \<Rightarrow> stream" where
  "stream_of n ts = foldr (\<lambda>t s. T t n s) ts (T_end n)"

lemma tokens_printed: "list_all printable ts \<Longrightarrow> tokens (lex_at (print_tokens ts) n) = stream_of n ts"
proof (induction ts)
  case Nil
  then show ?case by (simp add: print_tokens_def stream_of_def tokens.simps [of "lex_at [] n"] lex_step_def)
next
  case (Cons t ts)
  have "dropWhile lex_blank (print_tokens ts) = print_tokens ts"
  proof (cases ts)
    case (Cons u us)
    then obtain c v where "print_token u = c # v" "\<not> lex_blank c" using tokens_print_token(2) [of u] Cons.prems by auto
    then show ?thesis using Cons by (simp add: print_tokens_def)
  qed (simp add: print_tokens_def)
  moreover have "print_tokens (t # ts) = print_token t @ CHR '' '' # print_tokens ts" by (simp add: print_tokens_def)
  ultimately show ?case using tokens_print_token(1) [of t "print_tokens ts" n] Cons tokens_space [of "print_tokens ts" n] by (simp add: stream_of_def)
qed

text \<open>Scanning is the inverse of printing: the tokens written with a space behind each, strings
  with a backslash before every quote and backslash, are the tokens the scanner returns.  Only strings
  that end in a backslash cannot be written, because the scanner takes a quote behind any backslash for
  part of the string.\<close>

lemma scan_print_round_trip:
  assumes "list_all printable ts"
  shows "scan_config (print_tokens ts) = stream_of 1 ts"
  unfolding scan_config_def by (rule tokens_printed [OF assms])

end
