(* ===== verification/Conf_Parse.thy ===== *)
theory Conf_Parse
  imports Conf_Lex
begin

text \<open>
  The grammar of the configuration file, config-parser.y, with its actions.  Each rule is a function from
  the configuration built so far and the stream of tokens to the new configuration and the rest.  A token
  that does not fit makes the generated parser call \<open>yyerror\<close>, which ends the program, so the
  alternatives with \<open>error\<close> are never used.  The global \<open>tmp\<close> always points at the item added last
  to the list of the block that is being read.
\<close>

section \<open>Results\<close>

text \<open>\<open>yyerror\<close> with its message and line, or the end of the file in a comment.\<close>

datatype conf_error = Yyerror string nat | Comment_open

text \<open>\<open>None\<close> is undefined behaviour.\<close>

type_synonym 'a parsed = "(conf_error + 'a \<times> stream) option"

definition ok :: "'a \<Rightarrow> stream \<Rightarrow> 'a parsed" where
  "ok x s = Some (Inr (x, s))"

definition after :: "'a parsed \<Rightarrow> ('a \<Rightarrow> stream \<Rightarrow> 'b parsed) \<Rightarrow> 'b parsed" where
  "after r f = (case r of None \<Rightarrow> None | Some (Inl e) \<Rightarrow> Some (Inl e) | Some (Inr (x, s)) \<Rightarrow> f x s)"

text \<open>The front of the stream does not fit any rule.\<close>

definition stuck :: "stream \<Rightarrow> 'a parsed" where
  "stuck s =
     (case s of
        T t n s \<Rightarrow> Some (Inl (Yyerror ''syntax error'' n))
      | T_end n \<Rightarrow> Some (Inl (Yyerror ''syntax error'' n))
      | T_fatal \<Rightarrow> Some (Inl Comment_open)
      | T_undefined \<Rightarrow> None)"

text \<open>A given token, with the line it is on; the tokens that carry values.\<close>

definition expect :: "token \<Rightarrow> stream \<Rightarrow> nat parsed" where
  "expect t s = (case s of T u n s' \<Rightarrow> if u = t then ok n s' else stuck s | _ \<Rightarrow> stuck s)"

definition string_token :: "stream \<Rightarrow> string parsed" where
  "string_token s = (case s of T (STRING v) n s' \<Rightarrow> ok v s' | _ \<Rightarrow> stuck s)"

definition number_token :: "stream \<Rightarrow> int parsed" where
  "number_token s = (case s of T (NUMBER i) n s' \<Rightarrow> ok i s' | _ \<Rightarrow> stuck s)"

definition protocol_token :: "stream \<Rightarrow> opm_type parsed" where
  "protocol_token s = (case s of T (PROTOCOLTYPE ty) n s' \<Rightarrow> ok ty s' | _ \<Rightarrow> stuck s)"

text \<open>\<open>'=' STRING ';'\<close> and \<open>'=' NUMBER ';'\<close>; the string comes with the line of the semicolon.\<close>

definition string_value :: "stream \<Rightarrow> (string \<times> nat) parsed" where
  "string_value s =
     after (expect (Chr CHR ''='') s) (\<lambda>_ s. after (string_token s) (\<lambda>v s.
     after (expect (Chr CHR '';'') s) (\<lambda>n s. ok (v, n) s)))"

definition number_value :: "stream \<Rightarrow> int parsed" where
  "number_value s =
     after (expect (Chr CHR ''='') s) (\<lambda>_ s. after (number_token s) (\<lambda>i s.
     after (expect (Chr CHR '';'') s) (\<lambda>_ s. ok i s)))"

section \<open>Lists of items\<close>

fun stream_len :: "stream \<Rightarrow> nat" where
  "stream_len (T t n s) = Suc (stream_len s)"
| "stream_len s = 0"

text \<open>Items as long as the closing token (or, at the top level, the end) is not there.  Every item takes a
  token at least; the test that it has is there for the termination only.\<close>

function many :: "(stream \<Rightarrow> bool) \<Rightarrow> ('c \<Rightarrow> stream \<Rightarrow> 'c parsed) \<Rightarrow> 'c \<Rightarrow> stream \<Rightarrow> 'c parsed" where
  "many stop item c s =
     (if stop s then ok c s
      else (case item c s of
              None \<Rightarrow> None
            | Some (Inl e) \<Rightarrow> Some (Inl e)
            | Some (Inr (c, s')) \<Rightarrow> if stream_len s' < stream_len s then many stop item c s' else None))"
  by pat_completeness auto
termination
  by (relation "measure (\<lambda>(stop, item, c, s). stream_len s)") auto

declare many.simps [simp del]

definition at_close :: "stream \<Rightarrow> bool" where
  "at_close s = (case s of T t n s' \<Rightarrow> t = Chr CHR ''}'' | _ \<Rightarrow> False)"

definition at_end :: "stream \<Rightarrow> bool" where
  "at_end s = (case s of T_end n \<Rightarrow> True | _ \<Rightarrow> False)"

text \<open>\<open>'{' items '}' ';'\<close>, where the items may be missing or not.\<close>

definition block :: "bool \<Rightarrow> ('c \<Rightarrow> stream \<Rightarrow> 'c parsed) \<Rightarrow> 'c \<Rightarrow> stream \<Rightarrow> 'c parsed" where
  "block may_be_empty item c s =
     after (expect (Chr CHR ''{'') s) (\<lambda>_ s.
     after (if may_be_empty then ok c s else item c s) (\<lambda>c s.
     after (many at_close item c s) (\<lambda>c s.
     after (expect (Chr CHR ''}'') s) (\<lambda>_ s.
     after (expect (Chr CHR '';'') s) (\<lambda>_ s. ok c s)))))"

section \<open>Items\<close>

text \<open>The configuration while it is read, with \<open>target_string_created\<close> of the scanner added last.\<close>

record parse_st = conf +
  ts_created :: bool

text \<open>The change to the item added last.\<close>

definition update_last :: "('a \<Rightarrow> 'a) \<Rightarrow> 'a list \<Rightarrow> 'a list" where
  "update_last f xs = butlast xs @ [f (last xs)]"

definition upd_irc :: "(irc_conf \<Rightarrow> irc_conf) \<Rightarrow> parse_st \<Rightarrow> parse_st" where
  "upd_irc f c = c\<lparr>IRCItem := f (IRCItem c)\<rparr>"

definition upd_opt :: "(options_conf \<Rightarrow> options_conf) \<Rightarrow> parse_st \<Rightarrow> parse_st" where
  "upd_opt f c = c\<lparr>OptionsItem := f (OptionsItem c)\<rparr>"

definition upd_opm :: "(opm_conf \<Rightarrow> opm_conf) \<Rightarrow> parse_st \<Rightarrow> parse_st" where
  "upd_opm f c = c\<lparr>OpmItem := f (OpmItem c)\<rparr>"

text \<open>An item that is a keyword with a string, one with a number, or neither.\<close>

datatype 'c item_kind = String_item "string \<Rightarrow> 'c \<Rightarrow> 'c" | Number_item "int \<Rightarrow> 'c \<Rightarrow> 'c" | Other_item

definition simple_item ::
  "(keyword \<Rightarrow> 'c item_kind) \<Rightarrow> (keyword \<Rightarrow> 'c \<Rightarrow> stream \<Rightarrow> stream \<Rightarrow> 'c parsed) \<Rightarrow> 'c \<Rightarrow> stream \<Rightarrow> 'c parsed" where
  "simple_item kind other c s =
     (case s of
        T (K k) n s' \<Rightarrow>
          (case kind k of
             String_item f \<Rightarrow> after (string_value s') (\<lambda>(v, n) s. ok (f v c) s)
           | Number_item f \<Rightarrow> after (number_value s') (\<lambda>i s. ok (f i c) s)
           | Other_item \<Rightarrow> other k c s s')
      | _ \<Rightarrow> stuck s)"

subsection \<open>Options\<close>

definition options_kind :: "keyword \<Rightarrow> parse_st item_kind" where
  "options_kind k =
     (case k of
        NEGCACHE \<Rightarrow> Number_item (\<lambda>i. upd_opt (\<lambda>x. x\<lparr>opt_negcache := i\<rparr>))
      | PIDFILE \<Rightarrow> String_item (\<lambda>v. upd_opt (\<lambda>x. x\<lparr>opt_pidfile := v\<rparr>))
      | DNS_FDLIMIT \<Rightarrow> Number_item (\<lambda>i. upd_opt (\<lambda>x. x\<lparr>opt_dns_fdlimit := nat i\<rparr>))
      | SCANLOG \<Rightarrow> String_item (\<lambda>v. upd_opt (\<lambda>x. x\<lparr>opt_scanlog := Some v\<rparr>))
      | _ \<Rightarrow> Other_item)"

definition options_item :: "parse_st \<Rightarrow> stream \<Rightarrow> parse_st parsed" where
  "options_item = simple_item options_kind (\<lambda>k c s s'. stuck s)"

subsection \<open>IRC and channels\<close>

definition channel_kind :: "keyword \<Rightarrow> parse_st item_kind" where
  "channel_kind k =
     (let upd = \<lambda>f. upd_irc (\<lambda>x. x\<lparr>irc_conf_channels := update_last f (irc_conf_channels x)\<rparr>) in
      case k of
        NAME \<Rightarrow> String_item (\<lambda>v. upd (\<lambda>ch. ch\<lparr>chan_name := v\<rparr>))
      | KEY \<Rightarrow> String_item (\<lambda>v. upd (\<lambda>ch. ch\<lparr>chan_key := v\<rparr>))
      | INVITE \<Rightarrow> String_item (\<lambda>v. upd (\<lambda>ch. ch\<lparr>chan_invite := v\<rparr>))
      | _ \<Rightarrow> Other_item)"

definition channel_item :: "parse_st \<Rightarrow> stream \<Rightarrow> parse_st parsed" where
  "channel_item = simple_item channel_kind (\<lambda>k c s s'. stuck s)"

definition channel_entry :: "parse_st \<Rightarrow> stream \<Rightarrow> parse_st parsed" where
  "channel_entry c s =
     (let c = upd_irc (\<lambda>x. x\<lparr>irc_conf_channels := irc_conf_channels x @
                [\<lparr>chan_name = [], chan_key = [], chan_invite = []\<rparr>]\<rparr>) c
      in after (expect (K CHANNEL) s) (\<lambda>_ s. block False channel_item c s))"

definition irc_kind :: "keyword \<Rightarrow> parse_st item_kind" where
  "irc_kind k =
     (case k of
        AWAY \<Rightarrow> String_item (\<lambda>v. upd_irc (\<lambda>x. x\<lparr>irc_away := v\<rparr>))
      | KLINE \<Rightarrow> String_item (\<lambda>v. upd_irc (\<lambda>x. x\<lparr>irc_kline := v\<rparr>))
      | MODE \<Rightarrow> String_item (\<lambda>v. upd_irc (\<lambda>x. x\<lparr>irc_mode := v\<rparr>))
      | NICK \<Rightarrow> String_item (\<lambda>v. upd_irc (\<lambda>x. x\<lparr>irc_nick := v\<rparr>))
      | NICKSERV \<Rightarrow> String_item (\<lambda>v. upd_irc (\<lambda>x. x\<lparr>irc_nickserv := v\<rparr>))
      | OPER \<Rightarrow> String_item (\<lambda>v. upd_irc (\<lambda>x. x\<lparr>irc_oper := v\<rparr>))
      | PASSWORD \<Rightarrow> String_item (\<lambda>v. upd_irc (\<lambda>x. x\<lparr>irc_password := v\<rparr>))
      | PERFORM \<Rightarrow> String_item (\<lambda>v. upd_irc (\<lambda>x. x\<lparr>irc_performs := irc_performs x @ [v]\<rparr>))
      | PORT \<Rightarrow> Number_item (\<lambda>i. upd_irc (\<lambda>x. x\<lparr>irc_port := i\<rparr>))
      | REALNAME \<Rightarrow> String_item (\<lambda>v. upd_irc (\<lambda>x. x\<lparr>irc_realname := v\<rparr>))
      | SERVER \<Rightarrow> String_item (\<lambda>v. upd_irc (\<lambda>x. x\<lparr>irc_server := v\<rparr>))
      | USERNAME \<Rightarrow> String_item (\<lambda>v. upd_irc (\<lambda>x. x\<lparr>irc_username := v\<rparr>))
      | VHOST \<Rightarrow> String_item (\<lambda>v. upd_irc (\<lambda>x. x\<lparr>irc_vhost := v\<rparr>))
      | CONNREGEX \<Rightarrow> String_item (\<lambda>v. upd_irc (\<lambda>x. x\<lparr>irc_connregex := v\<rparr>))
      | _ \<Rightarrow> Other_item)"

definition irc_item :: "parse_st \<Rightarrow> stream \<Rightarrow> parse_st parsed" where
  "irc_item = simple_item irc_kind (\<lambda>k c s s'. if k = CHANNEL then channel_entry c s else stuck s)"

subsection \<open>Users\<close>

definition user_kind :: "keyword \<Rightarrow> parse_st item_kind" where
  "user_kind k =
     (let upd = \<lambda>f c. c\<lparr>UserItemList := update_last f (UserItemList c)\<rparr> in
      case k of
        MASK \<Rightarrow> String_item (\<lambda>v. upd (\<lambda>u. u\<lparr>user_masks := user_masks u @ [v]\<rparr>))
      | SCANNER \<Rightarrow> String_item (\<lambda>v. upd (\<lambda>u. u\<lparr>user_scanners := user_scanners u @ [v]\<rparr>))
      | _ \<Rightarrow> Other_item)"

definition user_item :: "parse_st \<Rightarrow> stream \<Rightarrow> parse_st parsed" where
  "user_item = simple_item user_kind (\<lambda>k c s s'. stuck s)"

definition user_entry :: "parse_st \<Rightarrow> stream \<Rightarrow> parse_st parsed" where
  "user_entry c s =
     (let c = c\<lparr>UserItemList := UserItemList c @ [\<lparr>user_masks = [], user_scanners = []\<rparr>]\<rparr>
      in after (expect (K USER) s) (\<lambda>_ s. block False user_item c s))"

subsection \<open>Scanners\<close>

text \<open>A scanner starts with the values of the one before it, or the defaults.  The list of target strings is
  shared with the one before until the scanner gets a string of its own.\<close>

definition new_scanner :: "parse_st \<Rightarrow> parse_st" where
  "new_scanner c =
     (let scs = ScannerItemList c in
      if scs \<noteq> [] then
        c\<lparr>ScannerItemList := scs @ [(last scs)\<lparr>sc_name := ''undefined'', sc_protocols := []\<rparr>], ts_created := False\<rparr>
      else
        c\<lparr>ScannerItemList := [\<lparr>sc_name = ''undefined'', sc_protocols = [], sc_vhost = ''0.0.0.0'', sc_fd = 512,
             sc_target_ip = ''127.0.0.1'', sc_target_port = 6667, sc_timeout = 30, sc_max_read = 4096, sc_target_string = []\<rparr>],
          ts_created := True\<rparr>)"

definition upd_scanner :: "(scanner_conf \<Rightarrow> scanner_conf) \<Rightarrow> parse_st \<Rightarrow> parse_st" where
  "upd_scanner f c = c\<lparr>ScannerItemList := update_last f (ScannerItemList c)\<rparr>"

definition add_target_string :: "string \<Rightarrow> parse_st \<Rightarrow> parse_st" where
  "add_target_string v c =
     (let c = (if ts_created c then c else (upd_scanner (\<lambda>x. x\<lparr>sc_target_string := []\<rparr>) c)\<lparr>ts_created := True\<rparr>)
      in upd_scanner (\<lambda>x. x\<lparr>sc_target_string := sc_target_string x @ [v]\<rparr>) c)"

definition scanner_kind :: "keyword \<Rightarrow> parse_st item_kind" where
  "scanner_kind k =
     (case k of
        NAME \<Rightarrow> String_item (\<lambda>v. upd_scanner (\<lambda>x. x\<lparr>sc_name := v\<rparr>))
      | VHOST \<Rightarrow> String_item (\<lambda>v. upd_scanner (\<lambda>x. x\<lparr>sc_vhost := v\<rparr>))
      | FD \<Rightarrow> Number_item (\<lambda>i. upd_scanner (\<lambda>x. x\<lparr>sc_fd := i\<rparr>))
      | TARGET_IP \<Rightarrow> String_item (\<lambda>v. upd_scanner (\<lambda>x. x\<lparr>sc_target_ip := v\<rparr>))
      | TARGET_PORT \<Rightarrow> Number_item (\<lambda>i. upd_scanner (\<lambda>x. x\<lparr>sc_target_port := i\<rparr>))
      | TARGET_STRING \<Rightarrow> String_item add_target_string
      | TIMEOUT \<Rightarrow> Number_item (\<lambda>i. upd_scanner (\<lambda>x. x\<lparr>sc_timeout := i\<rparr>))
      | MAX_READ \<Rightarrow> Number_item (\<lambda>i. upd_scanner (\<lambda>x. x\<lparr>sc_max_read := i\<rparr>))
      | _ \<Rightarrow> Other_item)"

text \<open>\<open>PROTOCOL '=' PROTOCOLTYPE ':' NUMBER ';'\<close>\<close>

definition scanner_protocol :: "parse_st \<Rightarrow> stream \<Rightarrow> parse_st parsed" where
  "scanner_protocol c s =
     after (expect (Chr CHR ''='') s) (\<lambda>_ s. after (protocol_token s) (\<lambda>ty s.
     after (expect (Chr CHR '':'') s) (\<lambda>_ s. after (number_token s) (\<lambda>i s.
     after (expect (Chr CHR '';'') s) (\<lambda>_ s.
     ok (upd_scanner (\<lambda>x. x\<lparr>sc_protocols := sc_protocols x @ [\<lparr>proto_type = ty, proto_port = nat i\<rparr>]\<rparr>) c) s)))))"

definition scanner_item :: "parse_st \<Rightarrow> stream \<Rightarrow> parse_st parsed" where
  "scanner_item = simple_item scanner_kind (\<lambda>k c s s'. if k = PROTOCOL then scanner_protocol c s' else stuck s)"

definition scanner_entry :: "parse_st \<Rightarrow> stream \<Rightarrow> parse_st parsed" where
  "scanner_entry c s = after (expect (K SCANNER) s) (\<lambda>_ s. block False scanner_item (new_scanner c) s)"

subsection \<open>Blacklists\<close>

definition upd_blacklist :: "(blacklist_conf \<Rightarrow> blacklist_conf) \<Rightarrow> parse_st \<Rightarrow> parse_st" where
  "upd_blacklist f = upd_opm (\<lambda>x. x\<lparr>opm_blacklists := update_last f (opm_blacklists x)\<rparr>)"

definition blacklist_kind :: "keyword \<Rightarrow> parse_st item_kind" where
  "blacklist_kind k =
     (case k of
        NAME \<Rightarrow> String_item (\<lambda>v. upd_blacklist (\<lambda>x. x\<lparr>bl_name := v\<rparr>))
      | KLINE \<Rightarrow> String_item (\<lambda>v. upd_blacklist (\<lambda>x. x\<lparr>bl_kline := v\<rparr>))
      | BAN_UNKNOWN \<Rightarrow> Number_item (\<lambda>i. upd_blacklist (\<lambda>x. x\<lparr>bl_ban_unknown := (i \<noteq> 0)\<rparr>))
      | _ \<Rightarrow> Other_item)"

definition blacklist_type_item :: "parse_st \<Rightarrow> stream \<Rightarrow> parse_st parsed" where
  "blacklist_type_item c s =
     after (string_value s) (\<lambda>(v, n) s.
       if v = ''A record bitmask'' then ok (upd_blacklist (\<lambda>x. x\<lparr>bl_type := A_BITMASK\<rparr>) c) s
       else if v = ''A record reply'' then ok (upd_blacklist (\<lambda>x. x\<lparr>bl_type := A_REPLY\<rparr>) c) s
       else Some (Inl (Yyerror ''Unknown blacklist type defined'' n)))"

text \<open>\<open>NUMBER '=' STRING ';'\<close>; the number is kept in a \<open>char\<close>.\<close>

definition reply_item :: "parse_st \<Rightarrow> stream \<Rightarrow> parse_st parsed" where
  "reply_item c s =
     after (number_token s) (\<lambda>i s. after (string_value s) (\<lambda>(v, n) s.
     ok (upd_blacklist (\<lambda>x. x\<lparr>bl_reply := bl_reply x @ [\<lparr>reply_number = word_of_int i, reply_type = v\<rparr>]\<rparr>) c) s))"

definition blacklist_item :: "parse_st \<Rightarrow> stream \<Rightarrow> parse_st parsed" where
  "blacklist_item = simple_item blacklist_kind (\<lambda>k c s s'.
     if k = TYPE_KW then blacklist_type_item c s'
     else if k = REPLY then block True reply_item c s'
     else stuck s)"

definition blacklist_entry :: "parse_st \<Rightarrow> stream \<Rightarrow> parse_st parsed" where
  "blacklist_entry c s =
     (let c = upd_opm (\<lambda>x. x\<lparr>opm_blacklists := opm_blacklists x @ [\<lparr>bl_name = [], bl_kline = [], bl_type = A_BITMASK,
                bl_ban_unknown = False, bl_reply = [], bl_stats_recv = 0\<rparr>]\<rparr>) c
      in after (expect (K BLACKLIST) s) (\<lambda>_ s. block True blacklist_item c s))"

definition opm_kind :: "keyword \<Rightarrow> parse_st item_kind" where
  "opm_kind k =
     (case k of
        DNSBL_FROM \<Rightarrow> String_item (\<lambda>v. upd_opm (\<lambda>x. x\<lparr>opm_dnsbl_from := v\<rparr>))
      | DNSBL_TO \<Rightarrow> String_item (\<lambda>v. upd_opm (\<lambda>x. x\<lparr>opm_dnsbl_to := v\<rparr>))
      | SENDMAIL \<Rightarrow> String_item (\<lambda>v. upd_opm (\<lambda>x. x\<lparr>opm_sendmail := v\<rparr>))
      | _ \<Rightarrow> Other_item)"

definition opm_item :: "parse_st \<Rightarrow> stream \<Rightarrow> parse_st parsed" where
  "opm_item = simple_item opm_kind (\<lambda>k c s s'. if k = BLACKLIST then blacklist_entry c s else stuck s)"

subsection \<open>Exemptions\<close>

definition exempt_kind :: "keyword \<Rightarrow> parse_st item_kind" where
  "exempt_kind k = (case k of MASK \<Rightarrow> String_item (\<lambda>v c. c\<lparr>ExemptMasks := ExemptMasks c @ [v]\<rparr>) | _ \<Rightarrow> Other_item)"

definition exempt_item :: "parse_st \<Rightarrow> stream \<Rightarrow> parse_st parsed" where
  "exempt_item = simple_item exempt_kind (\<lambda>k c s s'. stuck s)"

section \<open>The file\<close>

definition config_items :: "parse_st \<Rightarrow> stream \<Rightarrow> parse_st parsed" where
  "config_items c s =
     (case s of
        T (K k) n s' \<Rightarrow>
          (case k of
             IRC \<Rightarrow> block False irc_item c s'
           | OPTIONS \<Rightarrow> block True options_item c s'
           | OPM \<Rightarrow> block True opm_item c s'
           | USER \<Rightarrow> user_entry c s
           | SCANNER \<Rightarrow> scanner_entry c s
           | EXEMPT \<Rightarrow> block True exempt_item c s'
           | _ \<Rightarrow> stuck s)
      | _ \<Rightarrow> stuck s)"

text \<open>What \<open>yyparse\<close> makes of a file, starting from the configuration \<open>c\<close>.\<close>

definition parse_stream :: "conf \<Rightarrow> stream \<Rightarrow> (conf_error + conf) option" where
  "parse_stream c s =
     (case many at_end config_items (conf.extend c (parse_st.fields False)) s of
        None \<Rightarrow> None
      | Some (Inl e) \<Rightarrow> Some (Inl e)
      | Some (Inr (c, s)) \<Rightarrow> Some (Inr (conf.truncate c)))"

definition yyparse :: "conf \<Rightarrow> string \<Rightarrow> (conf_error + conf) option" where
  "yyparse c text = parse_stream c (scan_config text)"

end
