(* ===== verification/Conf_Print.thy ===== *)
theory Conf_Print
  imports Conf_Parse
begin

text \<open>
  Writing a configuration in the language of the file and reading it back: every configuration that the
  language can express is the result of parsing its text.
\<close>

section \<open>The text of a configuration\<close>

definition string_tokens :: "keyword \<Rightarrow> string \<Rightarrow> token list" where
  "string_tokens k v = [K k, Chr CHR ''='', STRING v, Chr CHR '';'']"

definition number_tokens :: "keyword \<Rightarrow> int \<Rightarrow> token list" where
  "number_tokens k i = [K k, Chr CHR ''='', NUMBER i, Chr CHR '';'']"

definition braces :: "keyword \<Rightarrow> token list \<Rightarrow> token list" where
  "braces k ts = K k # Chr CHR ''{'' # ts @ [Chr CHR ''}'', Chr CHR '';'']"

text \<open>The items of each block with what they do to the configuration.\<close>

type_synonym 'c item = "token list \<times> ('c \<Rightarrow> 'c)"

definition string_item :: "(keyword \<Rightarrow> 'c item_kind) \<Rightarrow> keyword \<Rightarrow> string \<Rightarrow> 'c item" where
  "string_item kind k v = (string_tokens k v, case kind k of String_item f \<Rightarrow> f v | _ \<Rightarrow> id)"

definition number_item :: "(keyword \<Rightarrow> 'c item_kind) \<Rightarrow> keyword \<Rightarrow> int \<Rightarrow> 'c item" where
  "number_item kind k i = (number_tokens k i, case kind k of Number_item f \<Rightarrow> f i | _ \<Rightarrow> id)"

definition item_text :: "'c item list \<Rightarrow> token list" where
  "item_text its = concat (map fst its)"

definition item_effect :: "'c item list \<Rightarrow> 'c \<Rightarrow> 'c" where
  "item_effect its = fold snd its"

definition options_items :: "options_conf \<Rightarrow> parse_st item list" where
  "options_items o' =
     [number_item options_kind NEGCACHE (opt_negcache o'), number_item options_kind DNS_FDLIMIT (int (opt_dns_fdlimit o')),
      string_item options_kind PIDFILE (opt_pidfile o')] @
     (case opt_scanlog o' of None \<Rightarrow> [] | Some v \<Rightarrow> [string_item options_kind SCANLOG v])"

definition channel_items :: "channel_conf \<Rightarrow> parse_st item list" where
  "channel_items ch =
     [string_item channel_kind NAME (chan_name ch), string_item channel_kind KEY (chan_key ch),
      string_item channel_kind INVITE (chan_invite ch)]"

definition add_channel :: "channel_conf \<Rightarrow> parse_st \<Rightarrow> parse_st" where
  "add_channel ch = upd_irc (\<lambda>x. x\<lparr>irc_conf_channels := irc_conf_channels x @ [ch]\<rparr>)"

definition irc_items :: "irc_conf \<Rightarrow> parse_st item list" where
  "irc_items i =
     [string_item irc_kind NICK (irc_nick i), string_item irc_kind USERNAME (irc_username i),
      string_item irc_kind REALNAME (irc_realname i), string_item irc_kind SERVER (irc_server i),
      number_item irc_kind PORT (irc_port i), string_item irc_kind PASSWORD (irc_password i),
      string_item irc_kind VHOST (irc_vhost i), string_item irc_kind NICKSERV (irc_nickserv i),
      string_item irc_kind OPER (irc_oper i), string_item irc_kind MODE (irc_mode i),
      string_item irc_kind AWAY (irc_away i), string_item irc_kind CONNREGEX (irc_connregex i),
      string_item irc_kind KLINE (irc_kline i)] @
     map (\<lambda>ch. (braces CHANNEL (item_text (channel_items ch)), add_channel ch)) (irc_conf_channels i) @
     map (string_item irc_kind PERFORM) (irc_performs i)"

definition reply_tokens :: "blacklist_reply \<Rightarrow> token list" where
  "reply_tokens r = [NUMBER (uint (reply_number r)), Chr CHR ''='', STRING (reply_type r), Chr CHR '';'']"

definition add_reply :: "blacklist_reply \<Rightarrow> parse_st \<Rightarrow> parse_st" where
  "add_reply r = upd_blacklist (\<lambda>x. x\<lparr>bl_reply := bl_reply x @ [r]\<rparr>)"

definition reply_items :: "blacklist_conf \<Rightarrow> parse_st item list" where
  "reply_items bl = map (\<lambda>r. (reply_tokens r, add_reply r)) (bl_reply bl)"

definition type_name :: "blacklist_type \<Rightarrow> string" where
  "type_name t = (case t of A_BITMASK \<Rightarrow> ''A record bitmask'' | A_REPLY \<Rightarrow> ''A record reply'')"

definition blacklist_items :: "blacklist_conf \<Rightarrow> parse_st item list" where
  "blacklist_items bl =
     [string_item blacklist_kind NAME (bl_name bl), string_item blacklist_kind KLINE (bl_kline bl),
      (string_tokens TYPE_KW (type_name (bl_type bl)), upd_blacklist (\<lambda>x. x\<lparr>bl_type := bl_type bl\<rparr>)),
      number_item blacklist_kind BAN_UNKNOWN (if bl_ban_unknown bl then 1 else 0),
      (braces REPLY (item_text (reply_items bl)), item_effect (reply_items bl))]"

definition add_blacklist :: "blacklist_conf \<Rightarrow> parse_st \<Rightarrow> parse_st" where
  "add_blacklist bl = upd_opm (\<lambda>x. x\<lparr>opm_blacklists := opm_blacklists x @ [bl]\<rparr>)"

definition opm_items :: "opm_conf \<Rightarrow> parse_st item list" where
  "opm_items o' =
     [string_item opm_kind DNSBL_FROM (opm_dnsbl_from o'), string_item opm_kind DNSBL_TO (opm_dnsbl_to o'),
      string_item opm_kind SENDMAIL (opm_sendmail o')] @
     map (\<lambda>bl. (braces BLACKLIST (item_text (blacklist_items bl)), add_blacklist (bl\<lparr>bl_stats_recv := 0\<rparr>))) (opm_blacklists o')"

definition user_items :: "user_conf \<Rightarrow> parse_st item list" where
  "user_items u = map (string_item user_kind MASK) (user_masks u) @ map (string_item user_kind SCANNER) (user_scanners u)"

definition add_user :: "user_conf \<Rightarrow> parse_st \<Rightarrow> parse_st" where
  "add_user u c = c\<lparr>UserItemList := UserItemList c @ [u]\<rparr>"

definition protocol_tokens :: "protocol_conf \<Rightarrow> token list" where
  "protocol_tokens p = [K PROTOCOL, Chr CHR ''='', PROTOCOLTYPE (proto_type p), Chr CHR '':'', NUMBER (int (proto_port p)), Chr CHR '';'']"

definition add_protocol :: "protocol_conf \<Rightarrow> parse_st \<Rightarrow> parse_st" where
  "add_protocol p = upd_scanner (\<lambda>x. x\<lparr>sc_protocols := sc_protocols x @ [p]\<rparr>)"

definition scanner_items :: "scanner_conf \<Rightarrow> parse_st item list" where
  "scanner_items sc =
     [string_item scanner_kind NAME (sc_name sc), string_item scanner_kind VHOST (sc_vhost sc), number_item scanner_kind FD (sc_fd sc),
      string_item scanner_kind TARGET_IP (sc_target_ip sc), number_item scanner_kind TARGET_PORT (sc_target_port sc),
      number_item scanner_kind TIMEOUT (sc_timeout sc), number_item scanner_kind MAX_READ (sc_max_read sc)] @
     map (\<lambda>p. (protocol_tokens p, add_protocol p)) (sc_protocols sc) @
     map (string_item scanner_kind TARGET_STRING) (sc_target_string sc)"

definition add_scanner :: "scanner_conf \<Rightarrow> parse_st \<Rightarrow> parse_st" where
  "add_scanner sc c = item_effect (scanner_items sc) (new_scanner c)"

definition exempt_items :: "string list \<Rightarrow> parse_st item list" where
  "exempt_items ms = map (string_item exempt_kind MASK) ms"

definition config_blocks :: "conf \<Rightarrow> parse_st item list" where
  "config_blocks c =
     [(braces OPTIONS (item_text (options_items (OptionsItem c))), item_effect (options_items (OptionsItem c))),
      (braces IRC (item_text (irc_items (IRCItem c))), item_effect (irc_items (IRCItem c))),
      (braces OPM (item_text (opm_items (OpmItem c))), item_effect (opm_items (OpmItem c)))] @
     map (\<lambda>u. (braces USER (item_text (user_items u)), add_user u)) (UserItemList c) @
     map (\<lambda>sc. (braces SCANNER (item_text (scanner_items sc)), add_scanner sc)) (ScannerItemList c) @
     [(braces EXEMPT (item_text (exempt_items (ExemptMasks c))), item_effect (exempt_items (ExemptMasks c)))]"

definition config_tokens :: "conf \<Rightarrow> token list" where
  "config_tokens c = item_text (config_blocks c)"

definition config_text :: "conf \<Rightarrow> string" where
  "config_text c = print_tokens (config_tokens c)"

text \<open>What the language can express: every user block has an item, a scanner without target strings does not
  come behind one with some, whose strings it would get, and nothing has been received yet.\<close>

fun targets_ok :: "string list \<Rightarrow> scanner_conf list \<Rightarrow> bool" where
  "targets_ok ts [] = True"
| "targets_ok ts (sc # scs) \<longleftrightarrow> (sc_target_string sc = [] \<longrightarrow> ts = []) \<and> targets_ok (sc_target_string sc) scs"

definition expressible :: "conf \<Rightarrow> bool" where
  "expressible c \<longleftrightarrow> list_all printable (config_tokens c) \<and>
     list_all (\<lambda>u. user_masks u \<noteq> [] \<or> user_scanners u \<noteq> []) (UserItemList c) \<and>
     targets_ok [] (ScannerItemList c) \<and> list_all (\<lambda>bl. bl_stats_recv bl = 0) (opm_blacklists (OpmItem c))"

section \<open>Reading items\<close>

text \<open>Tokens on one line in front of a stream.\<close>

definition before :: "nat \<Rightarrow> token list \<Rightarrow> stream \<Rightarrow> stream" where
  "before n ts s = foldr (\<lambda>t s. T t n s) ts s"

lemma before_simps [simp]: "before n [] s = s" "before n (t # ts) s = T t n (before n ts s)"
  "before n (ts @ us) s = before n ts (before n us s)"
  by (simp_all add: before_def)

lemma before_len [simp]: "stream_len (before n ts s) = length ts + stream_len s"
  by (induction ts) simp_all

lemma after_ok [simp]: "after (ok x s) f = f x s"
  by (simp add: after_def ok_def)

lemma tokens_taken [simp]:
  "expect t (T t n s) = ok n s" "string_token (T (STRING v) n s) = ok v s" "number_token (T (NUMBER i) n s) = ok i s"
  "protocol_token (T (PROTOCOLTYPE ty) n s) = ok ty s"
  by (simp_all add: expect_def string_token_def number_token_def protocol_token_def)

lemma values_taken [simp]:
  "string_value (T (Chr CHR ''='') n (T (STRING v) n (T (Chr CHR '';'') n s))) = ok (v, n) s"
  "number_value (T (Chr CHR ''='') n (T (NUMBER i) n (T (Chr CHR '';'') n s))) = ok i s"
  by (simp_all add: string_value_def number_value_def)

text \<open>An item is read as a whole and has its effect; it is told from a closing brace.\<close>

definition reads :: "nat \<Rightarrow> ('c \<Rightarrow> stream \<Rightarrow> 'c parsed) \<Rightarrow> 'c item \<Rightarrow> bool" where
  "reads n parse it \<longleftrightarrow> fst it \<noteq> [] \<and> hd (fst it) \<noteq> Chr CHR ''}'' \<and> (\<forall>c s. parse c (before n (fst it) s) = ok (snd it c) s)"

lemma many_step:
  assumes "reads n parse it" "\<not> stop (before n (fst it) s)"
  shows "many stop parse c (before n (fst it) s) = many stop parse (snd it c) s"
proof -
  have "parse c (before n (fst it) s) = ok (snd it c) s" "fst it \<noteq> []" using assms(1) by (simp_all add: reads_def)
  then show ?thesis using assms(2) by (subst many.simps) (simp add: ok_def)
qed

lemma not_at_close: "reads n parse it \<Longrightarrow> \<not> at_close (before n (fst it) s)" "reads n parse it \<Longrightarrow> \<not> at_end (before n (fst it) s)"
  by (cases "fst it"; simp add: reads_def at_close_def at_end_def)+

lemma many_items:
  assumes "\<And>it. it \<in> set its \<Longrightarrow> reads n parse it" "stop = at_close \<or> stop = at_end"
  shows "many stop parse c (before n (item_text its) s) = many stop parse (item_effect its c) s"
  using assms(1)
proof (induction its arbitrary: c)
  case (Cons it its)
  have r: "reads n parse it" using Cons.prems by simp
  have "before n (item_text (it # its)) s = before n (fst it) (before n (item_text its) s)" by (simp add: item_text_def)
  then have "many stop parse c (before n (item_text (it # its)) s) = many stop parse (snd it c) (before n (item_text its) s)"
    using many_step [OF r] not_at_close [OF r] assms(2) by auto
  then show ?case using Cons by (simp add: item_effect_def)
qed (simp add: item_text_def item_effect_def)

lemma block_reads:
  assumes "\<And>it. it \<in> set its \<Longrightarrow> reads n parse it" "b \<or> its \<noteq> []"
  shows "block b parse c (before n (Chr CHR ''{'' # item_text its @ [Chr CHR ''}'', Chr CHR '';'']) s) = ok (item_effect its c) s"
proof -
  let ?close = "T (Chr CHR ''}'') n (T (Chr CHR '';'') n s)"
  have stop: "many at_close parse d ?close = ok d ?close" for d by (subst many.simps) (simp add: at_close_def)
  show ?thesis
  proof (cases b)
    case True
    have "many at_close parse c (before n (item_text its) ?close) = ok (item_effect its c) ?close"
      using many_items [OF assms(1), where stop = at_close and c = c and s = ?close] stop by simp
    then show ?thesis using True by (simp add: block_def)
  next
    case False
    then obtain it rest where its: "its = it # rest" using assms(2) by (cases its) auto
    have r: "reads n parse it" "\<And>it. it \<in> set rest \<Longrightarrow> reads n parse it" using assms(1) its by auto
    have "parse c (before n (item_text its) ?close) = ok (snd it c) (before n (item_text rest) ?close)"
      using r(1) by (simp add: its item_text_def reads_def)
    moreover have "many at_close parse (snd it c) (before n (item_text rest) ?close) = ok (item_effect rest (snd it c)) ?close"
      using many_items [OF r(2), where stop = at_close and c = "snd it c" and s = ?close] stop by simp
    ultimately show ?thesis using False by (simp add: block_def its item_effect_def)
  qed
qed

lemma string_item_reads:
  assumes "\<exists>f. kind k = String_item f"
  shows "reads n (simple_item kind other) (string_item kind k v)"
  using assms by (auto simp: reads_def string_item_def string_tokens_def simple_item_def)

lemma number_item_reads:
  assumes "\<exists>f. kind k = Number_item f"
  shows "reads n (simple_item kind other) (number_item kind k i)"
  using assms by (auto simp: reads_def number_item_def number_tokens_def simple_item_def)

text \<open>Which keywords take a string and which a number.\<close>

lemma kinds [simp]:
  "\<exists>f. options_kind NEGCACHE = Number_item f" "\<exists>f. options_kind DNS_FDLIMIT = Number_item f"
  "\<exists>f. options_kind PIDFILE = String_item f" "\<exists>f. options_kind SCANLOG = String_item f"
  "\<exists>f. channel_kind NAME = String_item f" "\<exists>f. channel_kind KEY = String_item f" "\<exists>f. channel_kind INVITE = String_item f"
  "\<exists>f. irc_kind NICK = String_item f" "\<exists>f. irc_kind USERNAME = String_item f" "\<exists>f. irc_kind REALNAME = String_item f"
  "\<exists>f. irc_kind SERVER = String_item f" "\<exists>f. irc_kind PORT = Number_item f" "\<exists>f. irc_kind PASSWORD = String_item f"
  "\<exists>f. irc_kind VHOST = String_item f" "\<exists>f. irc_kind NICKSERV = String_item f" "\<exists>f. irc_kind OPER = String_item f"
  "\<exists>f. irc_kind MODE = String_item f" "\<exists>f. irc_kind AWAY = String_item f" "\<exists>f. irc_kind CONNREGEX = String_item f"
  "\<exists>f. irc_kind KLINE = String_item f" "\<exists>f. irc_kind PERFORM = String_item f"
  "\<exists>f. blacklist_kind NAME = String_item f" "\<exists>f. blacklist_kind KLINE = String_item f" "\<exists>f. blacklist_kind BAN_UNKNOWN = Number_item f"
  "\<exists>f. opm_kind DNSBL_FROM = String_item f" "\<exists>f. opm_kind DNSBL_TO = String_item f" "\<exists>f. opm_kind SENDMAIL = String_item f"
  "\<exists>f. user_kind MASK = String_item f" "\<exists>f. user_kind SCANNER = String_item f"
  "\<exists>f. scanner_kind NAME = String_item f" "\<exists>f. scanner_kind VHOST = String_item f" "\<exists>f. scanner_kind FD = Number_item f"
  "\<exists>f. scanner_kind TARGET_IP = String_item f" "\<exists>f. scanner_kind TARGET_PORT = Number_item f" "\<exists>f. scanner_kind TIMEOUT = Number_item f"
  "\<exists>f. scanner_kind MAX_READ = Number_item f" "\<exists>f. scanner_kind TARGET_STRING = String_item f" "\<exists>f. exempt_kind MASK = String_item f"
  by (simp_all add: options_kind_def channel_kind_def irc_kind_def blacklist_kind_def opm_kind_def user_kind_def scanner_kind_def
      exempt_kind_def Let_def)

lemmas item_reads = string_item_reads number_item_reads

section \<open>Reading blocks\<close>

lemma braces_hd [simp]: "braces k ts \<noteq> []" "hd (braces k ts) = K k"
  by (simp_all add: braces_def)

lemma before_braces: "before n (braces k ts) s = T (K k) n (before n (Chr CHR ''{'' # ts @ [Chr CHR ''}'', Chr CHR '';'']) s)"
  by (simp add: braces_def)

lemma options_reads: "it \<in> set (options_items x) \<Longrightarrow> reads n options_item it"
  by (auto simp: options_items_def options_item_def intro!: item_reads split: option.splits)

lemma channel_reads: "it \<in> set (channel_items ch) \<Longrightarrow> reads n channel_item it"
  by (auto simp: channel_items_def channel_item_def intro!: item_reads)

text \<open>A channel: the empty entry that the block starts with is filled in.\<close>

lemma update_last_snoc [simp]: "update_last f (xs @ [x]) = xs @ [f x]"
  by (simp add: update_last_def)

lemma channel_effect:
  "item_effect (channel_items ch) (upd_irc (\<lambda>x. x\<lparr>irc_conf_channels := irc_conf_channels x @
     [\<lparr>chan_name = [], chan_key = [], chan_invite = []\<rparr>]\<rparr>) c) = add_channel ch c"
  by (cases ch) (simp add: item_effect_def channel_items_def string_item_def channel_kind_def Let_def upd_irc_def add_channel_def)

lemma channel_entry_reads: "reads n irc_item (braces CHANNEL (item_text (channel_items ch)), add_channel ch)"
proof -
  have "irc_item c (before n (braces CHANNEL (item_text (channel_items ch))) s) = ok (add_channel ch c) s" for c s
  proof -
    have b: "block False channel_item d (before n (Chr CHR ''{'' # item_text (channel_items ch) @ [Chr CHR ''}'', Chr CHR '';'']) s) =
        ok (item_effect (channel_items ch) d) s" for d
      by (rule block_reads) (use channel_reads in \<open>auto simp: channel_items_def\<close>)
    have k: "irc_kind CHANNEL = Other_item" by (simp add: irc_kind_def)
    show ?thesis unfolding before_braces irc_item_def simple_item_def
      by (simp only: stream.case token.case k item_kind.case if_True simp_thms) (simp only: channel_entry_def Let_def tokens_taken after_ok b channel_effect)
  qed
  then show ?thesis by (simp add: reads_def)
qed

lemma irc_reads: "it \<in> set (irc_items i) \<Longrightarrow> reads n irc_item it"
proof -
  assume "it \<in> set (irc_items i)"
  then consider "it \<in> set (map (\<lambda>ch. (braces CHANNEL (item_text (channel_items ch)), add_channel ch)) (irc_conf_channels i))"
    | k v where "it = string_item irc_kind k v" "\<exists>f. irc_kind k = String_item f" | k v where "it = number_item irc_kind k v" "\<exists>f. irc_kind k = Number_item f"
    unfolding irc_items_def by fastforce
  then show ?thesis
    by cases (use channel_entry_reads in \<open>auto simp: irc_item_def intro!: item_reads\<close>)
qed

lemma reply_reads: "it \<in> set (reply_items bl) \<Longrightarrow> reads n reply_item it"
proof -
  assume "it \<in> set (reply_items bl)"
  then obtain r where r: "it = (reply_tokens r, add_reply r)" by (auto simp: reply_items_def)
  show ?thesis
    by (cases r) (simp add: r reads_def reply_tokens_def reply_item_def add_reply_def)
qed

lemma blacklist_reads: "it \<in> set (blacklist_items bl) \<Longrightarrow> reads n blacklist_item it"
proof -
  assume it: "it \<in> set (blacklist_items bl)"
  have t: "reads n blacklist_item (string_tokens TYPE_KW (type_name ty), upd_blacklist (\<lambda>x. x\<lparr>bl_type := ty\<rparr>))" for ty
    by (cases ty) (simp_all add: reads_def string_tokens_def blacklist_item_def simple_item_def blacklist_kind_def blacklist_type_item_def type_name_def)
  have "blacklist_item c (before n (braces REPLY (item_text (reply_items bl))) s) = ok (item_effect (reply_items bl) c) s" for c s
  proof -
    have b: "block True reply_item c (before n (Chr CHR ''{'' # item_text (reply_items bl) @ [Chr CHR ''}'', Chr CHR '';'']) s) =
        ok (item_effect (reply_items bl) c) s" by (rule block_reads) (use reply_reads in auto)
    have k: "blacklist_kind REPLY = Other_item" by (simp add: blacklist_kind_def)
    show ?thesis unfolding before_braces blacklist_item_def simple_item_def
      by (simp only: stream.case token.case k item_kind.case) (simp only: keyword.distinct if_False if_True simp_thms b)
  qed
  then have r: "reads n blacklist_item (braces REPLY (item_text (reply_items bl)), item_effect (reply_items bl))" by (simp add: reads_def)
  consider k v where "it = string_item blacklist_kind k v" "\<exists>f. blacklist_kind k = String_item f"
    | k v where "it = number_item blacklist_kind k v" "\<exists>f. blacklist_kind k = Number_item f"
    | "it = (string_tokens TYPE_KW (type_name (bl_type bl)), upd_blacklist (\<lambda>x. x\<lparr>bl_type := bl_type bl\<rparr>))"
    | "it = (braces REPLY (item_text (reply_items bl)), item_effect (reply_items bl))"
    using it unfolding blacklist_items_def by fastforce
  then show ?thesis
    by cases (use r t in \<open>auto simp: blacklist_item_def intro!: item_reads\<close>)
qed

text \<open>The replies are added to the blacklist that is read.\<close>

lemma replies_effect:
  "item_effect (reply_items bl) (upd_opm (\<lambda>x. x\<lparr>opm_blacklists := bls @ [b]\<rparr>) c) =
   upd_opm (\<lambda>x. x\<lparr>opm_blacklists := bls @ [b\<lparr>bl_reply := bl_reply b @ bl_reply bl\<rparr>]\<rparr>) c"
proof -
  have "fold snd (map (\<lambda>r. (reply_tokens r, add_reply r)) rs) (upd_opm (\<lambda>x. x\<lparr>opm_blacklists := bls @ [b]\<rparr>) c) =
      upd_opm (\<lambda>x. x\<lparr>opm_blacklists := bls @ [b\<lparr>bl_reply := bl_reply b @ rs\<rparr>]\<rparr>) c" for rs
    by (induction rs arbitrary: b) (simp_all add: add_reply_def upd_blacklist_def upd_opm_def)
  then show ?thesis by (simp add: item_effect_def reply_items_def)
qed

lemma blacklist_effect:
  "item_effect (blacklist_items bl) (upd_opm (\<lambda>x. x\<lparr>opm_blacklists := opm_blacklists x @ [\<lparr>bl_name = [], bl_kline = [], bl_type = A_BITMASK,
     bl_ban_unknown = False, bl_reply = [], bl_stats_recv = 0\<rparr>]\<rparr>) c) = add_blacklist (bl\<lparr>bl_stats_recv := 0\<rparr>) c"
proof -
  let ?bls = "opm_blacklists (OpmItem c)"
  let ?b = "bl\<lparr>bl_reply := [], bl_stats_recv := 0\<rparr>"
  have "item_effect (blacklist_items bl) (upd_opm (\<lambda>x. x\<lparr>opm_blacklists := opm_blacklists x @ [\<lparr>bl_name = [], bl_kline = [], bl_type = A_BITMASK,
     bl_ban_unknown = False, bl_reply = [], bl_stats_recv = 0\<rparr>]\<rparr>) c) =
     item_effect (reply_items bl) (upd_opm (\<lambda>x. x\<lparr>opm_blacklists := ?bls @ [?b]\<rparr>) c)"
    by (cases bl) (simp add: item_effect_def blacklist_items_def string_item_def number_item_def blacklist_kind_def upd_blacklist_def upd_opm_def)
  also have "\<dots> = add_blacklist (bl\<lparr>bl_stats_recv := 0\<rparr>) c"
    unfolding replies_effect by (cases bl) (simp add: add_blacklist_def upd_opm_def)
  finally show ?thesis .
qed

lemma blacklist_entry_reads: "reads n opm_item (braces BLACKLIST (item_text (blacklist_items bl)), add_blacklist (bl\<lparr>bl_stats_recv := 0\<rparr>))"
proof -
  have "opm_item c (before n (braces BLACKLIST (item_text (blacklist_items bl))) s) = ok (add_blacklist (bl\<lparr>bl_stats_recv := 0\<rparr>) c) s" for c s
  proof -
    have b: "block True blacklist_item d (before n (Chr CHR ''{'' # item_text (blacklist_items bl) @ [Chr CHR ''}'', Chr CHR '';'']) s) =
        ok (item_effect (blacklist_items bl) d) s" for d by (rule block_reads) (use blacklist_reads in auto)
    have k: "opm_kind BLACKLIST = Other_item" by (simp add: opm_kind_def)
    show ?thesis unfolding before_braces opm_item_def simple_item_def
      by (simp only: stream.case token.case k item_kind.case if_True simp_thms) (simp only: blacklist_entry_def Let_def tokens_taken after_ok b blacklist_effect)
  qed
  then show ?thesis by (simp add: reads_def)
qed

lemma opm_reads: "it \<in> set (opm_items x) \<Longrightarrow> reads n opm_item it"
proof -
  assume "it \<in> set (opm_items x)"
  then consider bl where "it = (braces BLACKLIST (item_text (blacklist_items bl)), add_blacklist (bl\<lparr>bl_stats_recv := 0\<rparr>))"
    | k v where "it = string_item opm_kind k v" "\<exists>f. opm_kind k = String_item f"
    unfolding opm_items_def by fastforce
  then show ?thesis
    by cases (use blacklist_entry_reads in \<open>auto simp: opm_item_def intro!: item_reads\<close>)
qed

lemma user_reads: "it \<in> set (user_items u) \<Longrightarrow> reads n user_item it"
  by (auto simp: user_items_def user_item_def intro!: item_reads)

lemma user_effect: "item_effect (user_items u) (c\<lparr>UserItemList := UserItemList c @ [\<lparr>user_masks = [], user_scanners = []\<rparr>]\<rparr>) = add_user u c"
proof -
  let ?u = "\<lambda>v d. d\<lparr>UserItemList := UserItemList c @ [v]\<rparr>"
  have "fold snd (map (string_item user_kind MASK) ms) (?u v c) = ?u (v\<lparr>user_masks := user_masks v @ ms\<rparr>) c" for ms v
    by (induction ms arbitrary: v) (simp_all add: string_item_def user_kind_def Let_def)
  moreover have "fold snd (map (string_item user_kind SCANNER) ss) (?u v c) = ?u (v\<lparr>user_scanners := user_scanners v @ ss\<rparr>) c" for ss v
    by (induction ss arbitrary: v) (simp_all add: string_item_def user_kind_def Let_def)
  ultimately show ?thesis by (cases u) (simp add: item_effect_def user_items_def add_user_def)
qed

lemma scanner_reads: "it \<in> set (scanner_items sc) \<Longrightarrow> reads n scanner_item it"
proof -
  have p: "reads n scanner_item (protocol_tokens p, add_protocol p)" for p
    by (cases p) (simp add: reads_def protocol_tokens_def scanner_item_def simple_item_def scanner_kind_def scanner_protocol_def add_protocol_def)
  assume "it \<in> set (scanner_items sc)"
  then consider q where "it = (protocol_tokens q, add_protocol q)"
    | k v where "it = string_item scanner_kind k v" "\<exists>f. scanner_kind k = String_item f"
    | k v where "it = number_item scanner_kind k v" "\<exists>f. scanner_kind k = Number_item f"
    unfolding scanner_items_def by fastforce
  then show ?thesis
    by cases (use p in \<open>auto simp: scanner_item_def intro!: item_reads\<close>)
qed

text \<open>A scanner that is added: its own values, and target strings of its own or those it gets, of which
  there are none.\<close>

abbreviation with_scanners :: "parse_st \<Rightarrow> scanner_conf list \<Rightarrow> bool \<Rightarrow> parse_st" where
  "with_scanners c scs b \<equiv> c\<lparr>ScannerItemList := scs, ts_created := b\<rparr>"

lemma upd_scanner_last [simp]: "upd_scanner f (with_scanners c (scs @ [x]) b) = with_scanners c (scs @ [f x]) b"
  by (simp add: upd_scanner_def)

lemma add_target_last [simp]:
  "add_target_string v (with_scanners c (scs @ [x]) b) =
   with_scanners c (scs @ [x\<lparr>sc_target_string := (if b then sc_target_string x else []) @ [v]\<rparr>]) True"
  by (simp add: add_target_string_def upd_scanner_def Let_def)

lemma protocols_effect:
  "fold snd (map (\<lambda>p. (protocol_tokens p, add_protocol p)) ps) (with_scanners c (scs @ [x]) b) =
   with_scanners c (scs @ [x\<lparr>sc_protocols := sc_protocols x @ ps\<rparr>]) b"
  by (induction ps arbitrary: x) (simp_all add: add_protocol_def)

lemma targets_effect:
  "fold snd (map (string_item scanner_kind TARGET_STRING) ts) (with_scanners c (scs @ [x]) b) =
   (if ts = [] then with_scanners c (scs @ [x]) b
    else with_scanners c (scs @ [x\<lparr>sc_target_string := (if b then sc_target_string x else []) @ ts\<rparr>]) True)"
proof -
  have k: "snd (string_item scanner_kind TARGET_STRING v) = add_target_string v" for v by (simp add: string_item_def scanner_kind_def)
  have t: "fold snd (map (string_item scanner_kind TARGET_STRING) ts) (with_scanners c (scs @ [x]) True) =
      with_scanners c (scs @ [x\<lparr>sc_target_string := sc_target_string x @ ts\<rparr>]) True" for ts x
    by (induction ts arbitrary: x) (simp_all add: k)
  show ?thesis
  proof (cases ts)
    case (Cons v vs)
    have "fold snd (map (string_item scanner_kind TARGET_STRING) (v # vs)) (with_scanners c (scs @ [x]) b) =
        fold snd (map (string_item scanner_kind TARGET_STRING) vs) (with_scanners c (scs @ [x\<lparr>sc_target_string := (if b then sc_target_string x else []) @ [v]\<rparr>]) True)"
      by (simp add: k)
    then show ?thesis unfolding Cons t by simp
  qed simp
qed

lemma scanner_effect:
  assumes "sc_target_string sc = [] \<Longrightarrow> ScannerItemList c \<noteq> [] \<Longrightarrow> sc_target_string (last (ScannerItemList c)) = []"
  shows "\<exists>b. add_scanner sc c = with_scanners c (ScannerItemList c @ [sc]) b"
proof -
  let ?scs = "ScannerItemList c"
  let ?b = "?scs = []" let ?t = "if ?scs = [] then [] else sc_target_string (last ?scs)"
  have new: "\<exists>x. new_scanner c = with_scanners c (?scs @ [x]) ?b \<and> sc_target_string x = ?t \<and> sc_protocols x = []"
  proof (cases "?scs = []")
    case True
    show ?thesis
      by (rule exI [of _ "\<lparr>sc_name = ''undefined'', sc_protocols = [], sc_vhost = ''0.0.0.0'', sc_fd = 512, sc_target_ip = ''127.0.0.1'',
          sc_target_port = 6667, sc_timeout = 30, sc_max_read = 4096, sc_target_string = []\<rparr>"]) (simp add: new_scanner_def True Let_def)
  next
    case False
    show ?thesis
      by (rule exI [of _ "(last ?scs)\<lparr>sc_name := ''undefined'', sc_protocols := []\<rparr>"]) (simp add: new_scanner_def False Let_def)
  qed
  then obtain x where x: "new_scanner c = with_scanners c (?scs @ [x]) ?b" "sc_target_string x = ?t" "sc_protocols x = []" by blast
  let ?y = "sc\<lparr>sc_protocols := [], sc_target_string := ?t\<rparr>"
  have "add_scanner sc c = fold snd (map (string_item scanner_kind TARGET_STRING) (sc_target_string sc))
      (fold snd (map (\<lambda>p. (protocol_tokens p, add_protocol p)) (sc_protocols sc)) (with_scanners c (?scs @ [?y]) ?b))"
    using x(2,3) unfolding add_scanner_def x(1)
    by (cases sc; cases x) (simp add: item_effect_def scanner_items_def string_item_def number_item_def scanner_kind_def)
  also have "\<dots> = with_scanners c (?scs @ [sc]) (?b \<or> sc_target_string sc \<noteq> [])"
    unfolding protocols_effect targets_effect using assms by (cases sc) auto
  finally show ?thesis by blast
qed

lemma exempt_reads: "it \<in> set (exempt_items ms) \<Longrightarrow> reads n exempt_item it"
  by (auto simp: exempt_items_def exempt_item_def intro!: item_reads)

section \<open>Reading the file\<close>

lemma entry_reads:
  "reads n config_items (braces OPTIONS (item_text (options_items x)), item_effect (options_items x))"
  "reads n config_items (braces IRC (item_text (irc_items i)), item_effect (irc_items i))"
  "reads n config_items (braces OPM (item_text (opm_items y)), item_effect (opm_items y))"
  "reads n config_items (braces EXEMPT (item_text (exempt_items ms)), item_effect (exempt_items ms))"
proof -
  have b: "block True options_item c (before n (Chr CHR ''{'' # item_text (options_items x) @ [Chr CHR ''}'', Chr CHR '';'']) s) = ok (item_effect (options_items x) c) s"
    "block False irc_item c (before n (Chr CHR ''{'' # item_text (irc_items i) @ [Chr CHR ''}'', Chr CHR '';'']) s) = ok (item_effect (irc_items i) c) s"
    "block True opm_item c (before n (Chr CHR ''{'' # item_text (opm_items y) @ [Chr CHR ''}'', Chr CHR '';'']) s) = ok (item_effect (opm_items y) c) s"
    "block True exempt_item c (before n (Chr CHR ''{'' # item_text (exempt_items ms) @ [Chr CHR ''}'', Chr CHR '';'']) s) = ok (item_effect (exempt_items ms) c) s" for c s
    by (rule block_reads; use options_reads irc_reads opm_reads exempt_reads in \<open>auto simp: irc_items_def\<close>)+
  show "reads n config_items (braces OPTIONS (item_text (options_items x)), item_effect (options_items x))"
    "reads n config_items (braces IRC (item_text (irc_items i)), item_effect (irc_items i))"
    "reads n config_items (braces OPM (item_text (opm_items y)), item_effect (opm_items y))"
    "reads n config_items (braces EXEMPT (item_text (exempt_items ms)), item_effect (exempt_items ms))"
    unfolding reads_def before_braces fst_conv snd_conv config_items_def stream.case token.case keyword.case b by simp_all
qed

lemma user_entry_reads:
  assumes "user_masks u \<noteq> [] \<or> user_scanners u \<noteq> []"
  shows "reads n config_items (braces USER (item_text (user_items u)), add_user u)"
proof -
  have "block False user_item c (before n (Chr CHR ''{'' # item_text (user_items u) @ [Chr CHR ''}'', Chr CHR '';'']) s) = ok (item_effect (user_items u) c) s" for c s
    by (rule block_reads) (use user_reads assms in \<open>auto simp: user_items_def\<close>)
  then show ?thesis
    unfolding reads_def fst_conv snd_conv before_braces config_items_def stream.case token.case keyword.case user_entry_def Let_def tokens_taken after_ok
    by (simp add: user_effect del: before_simps)
qed

lemma scanner_entry_reads: "reads n config_items (braces SCANNER (item_text (scanner_items sc)), add_scanner sc)"
proof -
  have "block False scanner_item c (before n (Chr CHR ''{'' # item_text (scanner_items sc) @ [Chr CHR ''}'', Chr CHR '';'']) s) = ok (item_effect (scanner_items sc) c) s" for c s
    by (rule block_reads) (use scanner_reads in \<open>auto simp: scanner_items_def\<close>)
  then show ?thesis
    unfolding reads_def fst_conv snd_conv before_braces config_items_def stream.case token.case keyword.case scanner_entry_def tokens_taken after_ok
    by (simp add: add_scanner_def del: before_simps)
qed

section \<open>The configuration that was read\<close>

lemma options_effect: "opt_scanlog (OptionsItem c) = None \<Longrightarrow> item_effect (options_items x) c = c\<lparr>OptionsItem := x\<rparr>"
  by (cases x; cases "OptionsItem c"; cases "opt_scanlog x")
    (simp_all add: item_effect_def options_items_def string_item_def number_item_def options_kind_def upd_opt_def)

lemma channels_effect:
  "fold snd (map (\<lambda>ch. (braces CHANNEL (item_text (channel_items ch)), add_channel ch)) chs) (c\<lparr>IRCItem := i\<rparr>) =
   c\<lparr>IRCItem := i\<lparr>irc_conf_channels := irc_conf_channels i @ chs\<rparr>\<rparr>"
  by (induction chs arbitrary: i) (simp_all add: add_channel_def upd_irc_def)

lemma performs_effect:
  "fold snd (map (string_item irc_kind PERFORM) ps) (c\<lparr>IRCItem := i\<rparr>) = c\<lparr>IRCItem := i\<lparr>irc_performs := irc_performs i @ ps\<rparr>\<rparr>"
  by (induction ps arbitrary: i) (simp_all add: string_item_def irc_kind_def upd_irc_def)

lemma irc_effect:
  assumes "irc_conf_channels (IRCItem c) = []" "irc_performs (IRCItem c) = []"
  shows "item_effect (irc_items i) c = c\<lparr>IRCItem := i\<rparr>"
proof -
  have "item_effect (irc_items i) c = fold snd (map (string_item irc_kind PERFORM) (irc_performs i))
      (fold snd (map (\<lambda>ch. (braces CHANNEL (item_text (channel_items ch)), add_channel ch)) (irc_conf_channels i))
        (c\<lparr>IRCItem := i\<lparr>irc_conf_channels := [], irc_performs := []\<rparr>\<rparr>))"
    using assms by (cases i; cases "IRCItem c")
      (simp add: item_effect_def irc_items_def string_item_def number_item_def irc_kind_def upd_irc_def)
  also have "\<dots> = c\<lparr>IRCItem := i\<rparr>" unfolding channels_effect performs_effect by (cases i) simp
  finally show ?thesis .
qed

lemma blacklists_effect:
  "fold snd (map (\<lambda>bl. (braces BLACKLIST (item_text (blacklist_items bl)), add_blacklist (bl\<lparr>bl_stats_recv := 0\<rparr>))) bls) (c\<lparr>OpmItem := x\<rparr>) =
   c\<lparr>OpmItem := x\<lparr>opm_blacklists := opm_blacklists x @ map (\<lambda>bl. bl\<lparr>bl_stats_recv := 0\<rparr>) bls\<rparr>\<rparr>"
  by (induction bls arbitrary: x) (simp_all add: add_blacklist_def upd_opm_def)

lemma opm_effect:
  assumes "opm_blacklists (OpmItem c) = []" "list_all (\<lambda>bl. bl_stats_recv bl = 0) (opm_blacklists x)"
  shows "item_effect (opm_items x) c = c\<lparr>OpmItem := x\<rparr>"
proof -
  have "map (\<lambda>bl. bl\<lparr>bl_stats_recv := 0\<rparr>) bls = bls" if "list_all (\<lambda>bl. bl_stats_recv bl = 0) bls" for bls :: "blacklist_conf list"
    using that by (induction bls) auto
  moreover have "item_effect (opm_items x) c =
      fold snd (map (\<lambda>bl. (braces BLACKLIST (item_text (blacklist_items bl)), add_blacklist (bl\<lparr>bl_stats_recv := 0\<rparr>))) (opm_blacklists x))
        (c\<lparr>OpmItem := x\<lparr>opm_blacklists := []\<rparr>\<rparr>)"
    using assms(1) by (cases x; cases "OpmItem c") (simp add: item_effect_def opm_items_def string_item_def opm_kind_def upd_opm_def)
  ultimately show ?thesis unfolding blacklists_effect using assms(2) by (cases x) simp
qed

lemma users_effect:
  "fold snd (map (\<lambda>u. (braces USER (item_text (user_items u)), add_user u)) us) c = c\<lparr>UserItemList := UserItemList c @ us\<rparr>"
  by (induction us arbitrary: c) (simp_all add: add_user_def)

lemma scanners_effect:
  assumes "targets_ok (if ScannerItemList c = [] then [] else sc_target_string (last (ScannerItemList c))) scs"
  shows "\<exists>b. fold snd (map (\<lambda>sc. (braces SCANNER (item_text (scanner_items sc)), add_scanner sc)) scs) c =
    with_scanners c (ScannerItemList c @ scs) b"
  using assms
proof (induction scs arbitrary: c)
  case Nil
  show ?case by (intro exI [of _ "ts_created c"]) simp
next
  case (Cons sc scs)
  obtain b where b: "add_scanner sc c = with_scanners c (ScannerItemList c @ [sc]) b"
    using scanner_effect [of sc c] Cons.prems by (auto split: if_splits)
  show ?case using Cons.IH [of "add_scanner sc c"] Cons.prems by (auto simp: b)
qed

lemma exempt_effect: "item_effect (exempt_items ms) c = c\<lparr>ExemptMasks := ExemptMasks c @ ms\<rparr>"
  unfolding item_effect_def exempt_items_def
  by (induction ms arbitrary: c) (simp_all add: string_item_def exempt_kind_def)

lemma config_effect:
  assumes "expressible c" "d = conf.extend config_init_setup (parse_st.fields False)"
  shows "conf.truncate (item_effect (config_blocks c) d) = c"
proof -
  have d: "opt_scanlog (OptionsItem d) = None" "irc_conf_channels (IRCItem d) = []" "irc_performs (IRCItem d) = []" "opm_blacklists (OpmItem d) = []"
      "UserItemList d = []" "ScannerItemList d = []" "ExemptMasks d = []"
    by (simp_all add: assms(2) conf.defs parse_st.defs config_init_setup_def)
  define d1 where "d1 = d\<lparr>OptionsItem := OptionsItem c, IRCItem := IRCItem c, OpmItem := OpmItem c, UserItemList := UserItemList c\<rparr>"
  have e: "item_effect (it # its) x = item_effect its (snd it x)" "item_effect (its @ its') x = item_effect its' (item_effect its x)"
    "item_effect [] x = x" "item_effect (map f xs) x = fold snd (map f xs) x"
    for it :: "parse_st item" and its its' x and f :: "'d \<Rightarrow> parse_st item" and xs by (simp_all add: item_effect_def)
  have "item_effect (config_blocks c) d = item_effect (exempt_items (ExemptMasks c))
      (fold snd (map (\<lambda>sc. (braces SCANNER (item_text (scanner_items sc)), add_scanner sc)) (ScannerItemList c)) d1)"
    using options_effect [of d] irc_effect [of "d\<lparr>OptionsItem := OptionsItem c\<rparr>"] opm_effect [of "d\<lparr>OptionsItem := OptionsItem c, IRCItem := IRCItem c\<rparr>"]
      d assms(1) by (simp add: config_blocks_def e users_effect d1_def expressible_def)
  moreover obtain b where "fold snd (map (\<lambda>sc. (braces SCANNER (item_text (scanner_items sc)), add_scanner sc)) (ScannerItemList c)) d1 =
      with_scanners d1 (ScannerItemList c) b"
    using scanners_effect [of d1 "ScannerItemList c"] d assms(1) by (auto simp: d1_def expressible_def)
  ultimately show ?thesis using d by (cases c; cases d) (simp add: exempt_effect d1_def conf.truncate_def)
qed

lemma blocks_read:
  assumes "expressible c" "it \<in> set (config_blocks c)"
  shows "reads n config_items it"
  using assms entry_reads user_entry_reads scanner_entry_reads by (auto simp: config_blocks_def expressible_def list_all_iff)

lemma parse_config_text:
  assumes "expressible c"
  shows "yyparse config_init_setup (config_text c) = Some (Inr c)"
proof -
  let ?d = "conf.extend config_init_setup (parse_st.fields False)"
  have "scan_config (config_text c) = before 1 (config_tokens c) (T_end 1)"
    using tokens_printed [of "config_tokens c" 1] assms by (simp add: scan_config_def config_text_def expressible_def stream_of_def before_def)
  moreover have "many at_end config_items ?d (before 1 (config_tokens c) (T_end 1)) = ok (item_effect (config_blocks c) ?d) (T_end 1)"
    unfolding config_tokens_def
    by (subst many_items) (use blocks_read [OF assms] in \<open>auto simp: many.simps [of at_end] at_end_def\<close>)
  ultimately show ?thesis using config_effect [OF assms refl] by (simp add: yyparse_def parse_stream_def ok_def)
qed



end
