(* ===== verification/Conf_Safe.thy ===== *)
theory Conf_Safe
  imports Conf_Parse "HOL-Library.Sublist"
begin

text \<open>
  What the scanner and the parser of the configuration promise: a file whose lines fit the scanner's line
  buffer and whose numbers fit an \<open>int\<close> is always read to an end, with an error that is reported or a
  configuration whose values have the types the rest of the program relies on.
\<close>

section \<open>The text\<close>

text \<open>Every place of the text: the line and the one behind it fit the line buffer, and a number is an \<open>int\<close>.\<close>

definition place_ok :: "string \<Rightarrow> bool" where
  "place_ok t \<longleftrightarrow>
     (newline \<in> set t \<longrightarrow>
        length (takeWhile (\<lambda>c. c \<noteq> newline) t) + length (takeWhile (\<lambda>c. c \<noteq> newline) (tl (dropWhile (\<lambda>c. c \<noteq> newline) t))) < LINEBUF) \<and>
     digits_val (takeWhile isdigit t) < 2 ^ 31"

definition text_ok :: "string \<Rightarrow> bool" where
  "text_ok s \<longleftrightarrow> list_all place_ok (suffixes s)"

lemma place_okI: "text_ok s \<Longrightarrow> suffix t s \<Longrightarrow> place_ok t"
  by (simp add: text_ok_def list_all_iff)

section \<open>Tokens\<close>

definition str_ok :: "string \<Rightarrow> bool" where
  "str_ok v \<longleftrightarrow> NUL \<notin> set v \<and> newline \<notin> set v"

definition int_ok :: "int \<Rightarrow> bool" where
  "int_ok i \<longleftrightarrow> 0 \<le> i \<and> i < 2 ^ 31"

definition type_ok :: "opm_type \<Rightarrow> bool" where
  "type_ok t \<longleftrightarrow> (\<forall>n. t \<noteq> OPM_TYPE_OTHER n)"

fun token_ok :: "token \<Rightarrow> bool" where
  "token_ok (NUMBER i) = int_ok i"
| "token_ok (STRING v) = str_ok v"
| "token_ok (PROTOCOLTYPE t) = type_ok t"
| "token_ok t = True"

fun stream_ok :: "stream \<Rightarrow> bool" where
  "stream_ok (T t n s) \<longleftrightarrow> token_ok t \<and> stream_ok s"
| "stream_ok T_undefined = False"
| "stream_ok s = True"

subsection \<open>Steps of the scanner\<close>

text \<open>The text kept and the input make up a rest of the file; text is kept only in front of a quote or a newline.\<close>

definition lex_inv :: "string \<Rightarrow> lexer \<Rightarrow> bool" where
  "lex_inv s st \<longleftrightarrow> suffix (lx_more st @ lx_inp st) s \<and> newline \<notin> set (lx_more st) \<and>
     (lx_more st \<noteq> [] \<longrightarrow> (\<exists>c r. lx_inp st = c # r \<and> (c = quote \<or> c = newline)))"

lemma lex_inv_at: "lex_inv s \<lparr>lx_more = [], lx_inp = t, lx_linenum = n\<rparr> \<longleftrightarrow> suffix t s"
  by (simp add: lex_inv_def)

lemma suffix_rest: "suffix (m @ take n i @ drop n i) s \<Longrightarrow> suffix (drop n i) s"
  by (meson suffix_appendD)

lemma lex_match_special:
  assumes "lex_match (c # s) = (n, r)" "c = quote \<or> c = newline"
  shows "r = R_string \<or> r = R_newline \<or> r = R_char"
proof -
  have c: "\<not> letter c" "c \<noteq> CHR ''/''" "\<not> isdigit c" "\<not> lex_blank c" "c \<noteq> CHR ''#''"
    using assms(2) not_letter [of c] by (auto simp: isdigit_def lex_blank_def)
  obtain xs ys where e: "lex_rules (c # s) = [(0, R_ccomment), (m_hash (c # s), R_hashcomment), (m_string (c # s), R_string)] @ xs @
      [(length (takeWhile isdigit (c # s)), R_number)] @ ys @
      [(m_newline (c # s), R_newline), (length (takeWhile lex_blank (c # s)), R_space), (m_any (c # s), R_char)]"
      and z: "\<And>r. r \<in> set xs \<union> set ys \<Longrightarrow> fst r = 0" using lex_rules_other [OF c(1,2)] by metis
  have "m_hash (c # s) = 0" using c by (simp add: m_hash_def)
  moreover have "0 < n" "(n, r) \<in> set (lex_rules (c # s))" using lex_match_bounds [of "c # s"] assms(1) by simp_all
  ultimately show ?thesis using z [of "(n, r)"] c unfolding e by auto
qed

lemma more_rules:
  assumes "lex_inv s st" "lex_match (lx_inp st) = (n, r)" "r \<noteq> R_string" "r \<noteq> R_newline" "r \<noteq> R_char"
  shows "lx_more st = []"
  using assms lex_match_special unfolding lex_inv_def by metis

lemma ccomment_suffix: "ccomment inp n = Some (rest, m) \<Longrightarrow> suffix rest inp"
proof (induction inp n rule: ccomment.induct)
  case (2 c inp n)
  show ?case
  proof (cases "c = CHR ''*''")
    case True
    then obtain d ds where d: "dropWhile (\<lambda>c. c = CHR ''*'') inp = d # ds" using 2(3) by (auto split: list.splits)
    have "suffix (d # ds) inp" using suffix_dropWhile [of "\<lambda>c. c = CHR ''*''" inp] unfolding d .
    then have i: "suffix ds (c # inp)" using suffix_ConsD [of d ds inp] suffix_ConsI [of ds inp c] by blast
    have "rest = ds \<or> suffix rest ds"
    proof (cases "d = CHR ''/''")
      case False
      then have "ccomment ds n = Some (rest, m)" using 2(3) True d by simp
      then show ?thesis using 2(2) [of d ds] True d False by blast
    qed (use 2(3) True d in simp)
    then show ?thesis using i suffix_order.trans [of rest ds "c # inp"] by auto
  next
    case False
    then have "ccomment inp (if c = newline then n + 1 else n) = Some (rest, m)" using 2(3) by simp
    then have "suffix rest inp" using 2(1) False by blast
    then show ?thesis by (rule suffix_ConsI)
  qed
qed simp

lemma unescape_total: "v = [] \<or> last v \<noteq> backslash \<Longrightarrow> \<exists>u. unescape (v @ [NUL]) = Some u \<and> set u \<subseteq> set v"
proof (induction v rule: length_induct)
  case (1 v)
  have ih: "\<exists>u. unescape (w @ [NUL]) = Some u \<and> set u \<subseteq> set w" if "length w < length v" "w = [] \<or> last w \<noteq> backslash" for w
    using 1(1) that by blast
  show ?case
  proof (cases v)
    case (Cons c s)
    show ?thesis
    proof (cases "c = backslash")
      case True
      then obtain d w where s: "s = d # w" using 1(2) Cons by (cases s) simp_all
      then have "w = [] \<or> last w \<noteq> backslash" using 1(2) Cons by (cases w) simp_all
      then obtain u where "unescape (w @ [NUL]) = Some u" "set u \<subseteq> set w" using ih [of w] Cons s by auto
      then have "unescape (v @ [NUL]) = Some (d # u)" "set (d # u) \<subseteq> set v" using True Cons s by auto
      then show ?thesis by blast
    next
      case False
      have "s = [] \<or> last s \<noteq> backslash" using 1(2) Cons by (cases s) simp_all
      then obtain u where "unescape (s @ [NUL]) = Some u" "set u \<subseteq> set s" using ih [of s] Cons by auto
      then have "unescape (v @ [NUL]) = Some (if c = NUL then [] else c # u)" "set (if c = NUL then [] else c # u) \<subseteq> set v"
        using False Cons by auto
      then show ?thesis by blast
    qed
  qed simp
qed

lemma c_string_ok: "newline \<notin> set v \<Longrightarrow> str_ok (c_string v)"
  by (auto simp: str_ok_def c_string_def dest: set_takeWhileD)

lemma string_action_total:
  assumes "newline \<notin> set m" "newline \<notin> set a" "d = quote \<or> d = newline"
  shows "\<exists>r. string_action (m @ quote # a @ [d]) rest n = Some r \<and>
    (r = Skip \<lparr>lx_more = m @ quote # a, lx_inp = d # rest, lx_linenum = n\<rparr> \<or> r = Skip \<lparr>lx_more = [], lx_inp = rest, lx_linenum = n\<rparr> \<or>
     (\<exists>v. str_ok v \<and> r = Tok (STRING v) \<lparr>lx_more = [], lx_inp = rest, lx_linenum = n\<rparr>))"
proof -
  let ?t = "m @ quote # a"
  have y: "m @ quote # a @ [d] = ?t @ [d]" by simp
  have snoc: "(t @ [d]) ! (length (t @ [d]) - 1) = d" "t \<noteq> [] \<Longrightarrow> (t @ [d]) ! (length (t @ [d]) - 2) = last t" for t
    by (simp_all add: nth_append last_conv_nth)
  have l: "(?t @ [d]) ! (length (?t @ [d]) - 1) = d" "(?t @ [d]) ! (length (?t @ [d]) - 2) = last ?t" by (rule snoc(1), rule snoc(2), simp)
  show ?thesis
  proof (cases "last ?t = backslash \<or> d \<noteq> quote")
    case True
    then show ?thesis unfolding y string_action_def Let_def l by auto
  next
    case False
    have "tl (?t @ [d]) = tl ?t @ [d]" by (rule tl_append2) simp
    then have "butlast (tl (?t @ [d])) = tl ?t" by (simp only: butlast_snoc)
    moreover have "tl ?t = [] \<or> last (tl ?t) \<noteq> backslash" using False last_tl [of ?t] by auto
    then obtain u where u: "unescape (tl ?t @ [NUL]) = Some u" "set u \<subseteq> set (tl ?t)" using unescape_total [of "tl ?t"] by blast
    have "set (tl ?t) \<subseteq> set ?t" using list.set_sel(2) [of ?t] by auto
    then have "newline \<notin> set u" using u(2) assms(1,2) by auto
    then have "str_ok (c_string u)" by (rule c_string_ok)
    ultimately show ?thesis unfolding y string_action_def Let_def l using False u(1) by auto
  qed
qed

lemma word_tokens_ok: "list_all (\<lambda>p. token_ok (snd p)) (word_table @ bool_table)"
  by (simp add: word_table_def bool_table_def type_ok_def int_ok_def)

text \<open>What a step promises.\<close>

definition step_ok :: "string \<Rightarrow> lex_step option \<Rightarrow> bool" where
  "step_ok s r = (case r of None \<Rightarrow> False | Some (Skip st) \<Rightarrow> lex_inv s st | Some (Tok t st) \<Rightarrow> lex_inv s st \<and> token_ok t | _ \<Rightarrow> True)"

lemma newline_action_ok:
  assumes "text_ok s" "suffix (m @ newline # i) s" "newline \<notin> set m"
  shows "step_ok s (newline_action (m @ newline # takeWhile (\<lambda>c. c \<noteq> newline) i) (dropWhile (\<lambda>c. c \<noteq> newline) i) n)"
proof -
  let ?P = "\<lambda>c. c \<noteq> newline"
  let ?l = "takeWhile ?P i"
  have m: "takeWhile ?P (m @ newline # i) = m" "dropWhile ?P (m @ newline # i) = newline # i"
    using assms(3) by (simp_all add: takeWhile_append dropWhile_append)
  have "place_ok (m @ newline # i)" by (rule place_okI [OF assms(1,2)])
  then have "length m + length ?l < LINEBUF" unfolding place_ok_def m by simp
  moreover have "length (tl (m @ newline # ?l)) = length m + length ?l" by simp
  moreover have "length (c_string (tl (m @ newline # ?l))) \<le> length (tl (m @ newline # ?l))" unfolding c_string_def by (rule length_takeWhile_le)
  ultimately have "length (c_string (tl (m @ newline # ?l))) < LINEBUF" by simp
  moreover have "tl (m @ newline # ?l) @ dropWhile ?P i = tl (m @ newline # i)" by (cases m) simp_all
  moreover have "suffix (tl (m @ newline # i)) s" using assms(2) suffix_tl suffix_order.trans by blast
  ultimately show ?thesis by (simp add: newline_action_def step_ok_def lex_inv_at)
qed

lemma m_newline_text:
  assumes "m_newline i = n" "0 < n"
  obtains r where "i = newline # r" "take n i = newline # takeWhile (\<lambda>c. c \<noteq> newline) r" "drop n i = dropWhile (\<lambda>c. c \<noteq> newline) r"
proof -
  obtain r where i: "i = newline # r" using assms by (cases i) (auto simp: m_newline_def split: if_splits)
  then have n: "n = Suc (length (takeWhile (\<lambda>c. c \<noteq> newline) r))" using assms by (simp add: m_newline_def)
  have "take n i = newline # take (length (takeWhile (\<lambda>c. c \<noteq> newline) r)) r" "drop n i = drop (length (takeWhile (\<lambda>c. c \<noteq> newline) r)) r"
    unfolding i n by simp_all
  then show ?thesis using that i by (simp only: takeWhile_eq_take [symmetric] dropWhile_eq_drop [symmetric])
qed

lemma string_rule_ok:
  assumes "lex_inv s st" "lex_match (lx_inp st) = (n, R_string)" "lx_inp st \<noteq> []"
  shows "step_ok s (lex_step st)"
proof -
  let ?rest = "drop n (lx_inp st)"
  have "n = m_string (lx_inp st)" "0 < n" using lex_match_rule(1) [OF assms(2,3) refl] rest_shorter(2) [OF assms(2,3)] by blast+
  then obtain a d where t: "take n (lx_inp st) = quote # a @ [d]" "d = quote \<or> d = newline" "newline \<notin> set a" using m_string_text by metis
  have m: "newline \<notin> set (lx_more st)" using assms(1) by (simp add: lex_inv_def)
  have "lx_inp st = quote # a @ d # ?rest" using append_take_drop_id [of n "lx_inp st"] unfolding t(1) by simp
  then have f: "suffix ((lx_more st @ quote # a) @ d # ?rest) s" using assms(1) by (simp add: lex_inv_def)
  then have f': "suffix ?rest s" using suffix_appendD [of "lx_more st @ quote # a @ [d]" ?rest s] by simp
  have "lex_step st = string_action (lx_more st @ quote # a @ [d]) ?rest (lx_linenum st)" using assms(2,3) t(1) by (simp add: lex_step_def)
  then show ?thesis using string_action_total [OF m t(3,2), of ?rest "lx_linenum st"] f f' t m by (auto simp: step_ok_def lex_inv_def)
qed

lemma newline_rule_ok:
  assumes "text_ok s" "lex_inv s st" "lex_match (lx_inp st) = (n, R_newline)" "lx_inp st \<noteq> []"
  shows "step_ok s (lex_step st)"
proof -
  have "m_newline (lx_inp st) = n" "0 < n" using lex_match_rule(2) [OF assms(3,4) refl] rest_shorter(2) [OF assms(3,4)] by simp_all
  then obtain r where r: "lx_inp st = newline # r" "take n (lx_inp st) = newline # takeWhile (\<lambda>c. c \<noteq> newline) r"
      "drop n (lx_inp st) = dropWhile (\<lambda>c. c \<noteq> newline) r" by (rule m_newline_text)
  have "lex_step st = newline_action (lx_more st @ newline # takeWhile (\<lambda>c. c \<noteq> newline) r) (dropWhile (\<lambda>c. c \<noteq> newline) r) (lx_linenum st)"
    using assms(3,4) r(2,3) by (simp add: lex_step_def)
  then show ?thesis using newline_action_ok [OF assms(1)] assms(2) r(1) by (simp add: lex_inv_def)
qed

lemma number_rule_ok:
  assumes "text_ok s" "lex_inv s st" "lex_match (lx_inp st) = (n, R_number)" "lx_inp st \<noteq> []" "suffix (drop n (lx_inp st)) s"
  shows "step_ok s (lex_step st)"
proof -
  have m: "lx_more st = []" by (rule more_rules [OF assms(2,3)]) simp_all
  have "n = length (takeWhile isdigit (lx_inp st))" using lex_match_rule(4) [OF assms(3,4) refl] .
  then have t: "take n (lx_inp st) = takeWhile isdigit (lx_inp st)" by (metis takeWhile_eq_take)
  have tt: "takeWhile isdigit (takeWhile isdigit (lx_inp st)) = takeWhile isdigit (lx_inp st)" by (rule takeWhile_idem)
  have "place_ok (lx_inp st)" using place_okI [OF assms(1)] assms(2) m by (simp add: lex_inv_def)
  then have b: "digits_val (takeWhile isdigit (lx_inp st)) < 2 ^ 31" by (simp only: place_ok_def)
  have "lex_step st = number_action (takeWhile isdigit (lx_inp st)) (drop n (lx_inp st)) (lx_linenum st)"
    using assms(3,4) m t by (simp add: lex_step_def)
  then have "lex_step st = Some (Tok (NUMBER (int (digits_val (takeWhile isdigit (lx_inp st))))) \<lparr>lx_more = [], lx_inp = drop n (lx_inp st), lx_linenum = lx_linenum st\<rparr>)"
    unfolding number_action_def tt Let_def using b by simp
  then show ?thesis using b assms(5) by (simp add: step_ok_def lex_inv_at int_ok_def)
qed

lemma comment_rule_ok:
  assumes "lex_match (lx_inp st) = (n, R_ccomment)" "lx_inp st \<noteq> []" "suffix (drop n (lx_inp st)) s"
  shows "step_ok s (lex_step st)"
proof (cases "ccomment (drop n (lx_inp st)) (lx_linenum st)")
  case None
  then show ?thesis using assms(1,2) by (simp add: lex_step_def step_ok_def)
next
  case (Some p)
  obtain r k where p: "p = (r, k)" by force
  have "suffix r s" using ccomment_suffix Some p assms(3) suffix_order.trans by blast
  then show ?thesis using assms(1,2) Some p by (simp add: lex_step_def step_ok_def lex_inv_at)
qed

lemma lex_step_ok:
  assumes "text_ok s" "lex_inv s st"
  shows "step_ok s (lex_step st)"
proof (cases "lx_inp st = []")
  case False
  obtain n rule where m: "lex_match (lx_inp st) = (n, rule)" by force
  have "suffix (lx_inp st) s" using assms(2) suffix_appendD by (auto simp: lex_inv_def)
  then have f: "suffix (drop n (lx_inp st)) s" using suffix_drop suffix_order.trans by blast
  show ?thesis
  proof (cases rule)
    case R_ccomment
    then show ?thesis using comment_rule_ok m False f by blast
  next
    case R_string
    then show ?thesis using string_rule_ok assms(2) m False by blast
  next
    case (R_word t)
    have "(n, R_word t) \<in> set (lex_rules (lx_inp st))" using lex_match_bounds(3) [OF False] m R_word by simp
    then have "\<exists>w. (w, t) \<in> set (word_table @ bool_table)" by (auto simp: lex_rules_def)
    then have "token_ok t" using word_tokens_ok unfolding list_all_iff by fastforce
    then show ?thesis using m False f R_word by (simp add: lex_step_def step_ok_def lex_inv_at)
  next
    case R_number
    then show ?thesis using number_rule_ok assms m False f by blast
  next
    case R_newline
    then show ?thesis using newline_rule_ok assms m False by blast
  qed (use m False f in \<open>simp_all add: lex_step_def step_ok_def lex_inv_at\<close>)
qed (simp add: lex_step_def step_ok_def)

lemma tokens_ok:
  assumes "text_ok s" "lex_inv s st"
  shows "stream_ok (tokens st)"
  using assms(2)
proof (induction st rule: tokens.induct)
  case (1 st)
  have g: "step_ok s (lex_step st)" by (rule lex_step_ok [OF assms(1) "1.prems"])
  show ?case
  proof (cases "lex_step st")
    case None
    then show ?thesis using g by (simp add: step_ok_def)
  next
    case (Some r)
    show ?thesis
    proof (cases r)
      case (Skip st')
      have "lex_inv s st'" using g Some Skip by (simp add: step_ok_def)
      then show ?thesis using "1.IH"(1) [OF Some Skip] Some Skip by (simp add: tokens.simps [of st])
    next
      case (Tok t st')
      have "lex_inv s st'" "token_ok t" using g Some Tok by (simp_all add: step_ok_def)
      then show ?thesis using "1.IH"(2) [OF Some Tok] Some Tok by (simp add: tokens.simps [of st])
    qed (use Some in \<open>simp_all add: tokens.simps [of st]\<close>)
  qed
qed

lemma scan_config_ok: "text_ok s \<Longrightarrow> stream_ok (scan_config s)"
  unfolding scan_config_def by (rule tokens_ok [of s]) (simp_all add: lex_inv_at suffix_order.refl)

section \<open>Values\<close>

lemma int_ok_nat: "int_ok i \<Longrightarrow> int_ok (int (nat i))"
  by (simp only: int_ok_def int_nat_eq) simp

lemma str_ok_literals [simp]: "str_ok []" "str_ok ''undefined''"
  by (simp_all add: str_ok_def)

text \<open>The types of a configuration.\<close>

definition channel_typed :: "channel_conf \<Rightarrow> bool" where
  "channel_typed ch \<longleftrightarrow> str_ok (chan_name ch) \<and> str_ok (chan_key ch) \<and> str_ok (chan_invite ch)"

definition irc_typed :: "irc_conf \<Rightarrow> bool" where
  "irc_typed i \<longleftrightarrow> list_all str_ok [irc_nick i, irc_username i, irc_realname i, irc_server i, irc_password i, irc_vhost i,
       irc_nickserv i, irc_oper i, irc_mode i, irc_away i, irc_connregex i, irc_kline i] \<and>
     int_ok (irc_port i) \<and> list_all channel_typed (irc_conf_channels i) \<and> list_all str_ok (irc_performs i)"

definition options_typed :: "options_conf \<Rightarrow> bool" where
  "options_typed x \<longleftrightarrow> int_ok (opt_negcache x) \<and> int_ok (int (opt_dns_fdlimit x)) \<and> str_ok (opt_pidfile x) \<and>
     (case opt_scanlog x of None \<Rightarrow> True | Some v \<Rightarrow> str_ok v)"

definition blacklist_typed :: "blacklist_conf \<Rightarrow> bool" where
  "blacklist_typed bl \<longleftrightarrow> str_ok (bl_name bl) \<and> str_ok (bl_kline bl) \<and> list_all (\<lambda>r. str_ok (reply_type r)) (bl_reply bl) \<and> bl_stats_recv bl = 0"

definition opm_typed :: "opm_conf \<Rightarrow> bool" where
  "opm_typed x \<longleftrightarrow> str_ok (opm_dnsbl_from x) \<and> str_ok (opm_dnsbl_to x) \<and> str_ok (opm_sendmail x) \<and> list_all blacklist_typed (opm_blacklists x)"

definition user_strings :: "user_conf \<Rightarrow> bool" where
  "user_strings u \<longleftrightarrow> list_all str_ok (user_masks u) \<and> list_all str_ok (user_scanners u)"

text \<open>A user block has an item.\<close>

definition user_typed :: "user_conf \<Rightarrow> bool" where
  "user_typed u \<longleftrightarrow> user_strings u \<and> (user_masks u \<noteq> [] \<or> user_scanners u \<noteq> [])"

definition scanner_typed :: "scanner_conf \<Rightarrow> bool" where
  "scanner_typed sc \<longleftrightarrow> list_all str_ok [sc_name sc, sc_vhost sc, sc_target_ip sc] \<and> list_all str_ok (sc_target_string sc) \<and>
     list_all int_ok [sc_fd sc, sc_target_port sc, sc_timeout sc, sc_max_read sc] \<and>
     list_all (\<lambda>p. type_ok (proto_type p) \<and> int_ok (int (proto_port p))) (sc_protocols sc)"

text \<open>All of it but the users, and a configuration.\<close>

definition most_typed :: "'a conf_scheme \<Rightarrow> bool" where
  "most_typed c \<longleftrightarrow> irc_typed (IRCItem c) \<and> options_typed (OptionsItem c) \<and> opm_typed (OpmItem c) \<and>
     list_all scanner_typed (ScannerItemList c) \<and> list_all str_ok (ExemptMasks c)"

definition conf_typed :: "'a conf_scheme \<Rightarrow> bool" where
  "conf_typed c \<longleftrightarrow> most_typed c \<and> list_all user_typed (UserItemList c)"

lemma defaults_typed: "conf_typed config_init_setup"
  by (simp add: conf_typed_def most_typed_def irc_typed_def options_typed_def opm_typed_def int_ok_def str_ok_def config_init_setup_def
      default_connregex_def bsl_def)

section \<open>Parsing\<close>

text \<open>The messages of the parser.\<close>

definition error_ok :: "conf_error \<Rightarrow> bool" where
  "error_ok e = (case e of Yyerror m n \<Rightarrow> m = ''syntax error'' \<or> m = ''Unknown blacklist type defined'' | Comment_open \<Rightarrow> True)"

text \<open>A parse of a stream: it returns, with an error, or with a result and the rest of the stream, at least \<open>k\<close>
  tokens shorter.\<close>

definition parses :: "nat \<Rightarrow> ('a \<Rightarrow> bool) \<Rightarrow> stream \<Rightarrow> 'a parsed \<Rightarrow> bool" where
  "parses k Q s r \<longleftrightarrow> (case r of None \<Rightarrow> False | Some (Inl e) \<Rightarrow> error_ok e
     | Some (Inr (x, s')) \<Rightarrow> Q x \<and> stream_ok s' \<and> stream_len s' + k \<le> stream_len s)"

lemma parses_ok: "Q x \<Longrightarrow> stream_ok s' \<Longrightarrow> stream_len s' + k \<le> stream_len s \<Longrightarrow> parses k Q s (ok x s')"
  by (simp add: parses_def ok_def)

lemma parses_stuck: "stream_ok s' \<Longrightarrow> parses k Q s (stuck s')"
  by (cases s') (simp_all add: parses_def stuck_def error_ok_def)

lemma parses_after:
  assumes "parses j P s r" "\<And>x s'. P x \<Longrightarrow> stream_ok s' \<Longrightarrow> stream_len s' + j \<le> stream_len s \<Longrightarrow> parses k Q s (f x s')"
  shows "parses k Q s (after r f)"
proof (cases r)
  case None
  then show ?thesis using assms(1) by (simp add: parses_def)
next
  case (Some v)
  show ?thesis
  proof (cases v)
    case (Inl e)
    then show ?thesis using Some assms(1) by (simp add: after_def parses_def)
  next
    case (Inr p)
    then have r: "r = Some (Inr (fst p, snd p))" using Some by simp
    then have "parses k Q s (f (fst p) (snd p))" using assms by (auto simp: parses_def [of j])
    then show ?thesis by (simp add: after_def r case_prod_beta)
  qed
qed

lemma parses_weaken: "parses j P s r \<Longrightarrow> k \<le> j \<Longrightarrow> (\<And>x. P x \<Longrightarrow> Q x) \<Longrightarrow> parses k Q s r"
  by (auto simp: parses_def split: option.splits sum.splits)

text \<open>The same from an earlier place of the stream.\<close>

lemma parses_earlier: "parses j P s' r \<Longrightarrow> stream_len s' + k \<le> stream_len s + j \<Longrightarrow> parses k P s r"
  by (auto simp: parses_def split: option.splits sum.splits)

lemma expect_parses: "stream_ok s \<Longrightarrow> parses 1 (\<lambda>_. True) s (expect t s)"
  by (cases s) (auto simp: expect_def intro!: parses_ok parses_stuck)

lemma string_token_parses: "stream_ok s \<Longrightarrow> parses 1 str_ok s (string_token s)"
  by (auto simp: string_token_def split: stream.split token.split intro!: parses_ok parses_stuck)

lemma number_token_parses: "stream_ok s \<Longrightarrow> parses 1 int_ok s (number_token s)"
  by (auto simp: number_token_def split: stream.split token.split intro!: parses_ok parses_stuck)

lemma protocol_token_parses: "stream_ok s \<Longrightarrow> parses 1 type_ok s (protocol_token s)"
  by (auto simp: protocol_token_def split: stream.split token.split intro!: parses_ok parses_stuck)

lemma after_expect:
  assumes "stream_ok s" "\<And>n s'. stream_ok s' \<Longrightarrow> parses k Q s' (f n s')"
  shows "parses k Q s (after (expect t s) f)"
  by (rule parses_after [OF expect_parses [OF assms(1)]]) (rule parses_earlier [OF assms(2)], simp_all)

lemma string_value_parses: "stream_ok s \<Longrightarrow> parses 1 (\<lambda>p. str_ok (fst p)) s (string_value s)"
  unfolding string_value_def
  by (rule after_expect, assumption, rule parses_after, erule string_token_parses, rule parses_earlier, rule after_expect, assumption)
     (rule parses_ok, auto)

lemma number_value_parses: "stream_ok s \<Longrightarrow> parses 1 int_ok s (number_value s)"
  unfolding number_value_def
  by (rule after_expect, assumption, rule parses_after, erule number_token_parses, rule parses_earlier, rule after_expect, assumption)
     (rule parses_ok, auto)

lemma many_parses:
  assumes "\<And>c s. Q c \<Longrightarrow> stream_ok s \<Longrightarrow> parses 1 Q s (item c s)" "Q c" "stream_ok s"
  shows "parses 0 Q s (many stop item c s)"
  using assms(2,3)
proof (induction "stream_len s" arbitrary: c s rule: less_induct)
  case less
  note i = assms(1) [OF less.prems]
  show ?case
  proof (cases "stop s")
    case True
    then show ?thesis using less.prems parses_ok [of Q c s 0 s] by (simp add: many.simps [of stop item c s])
  next
    case False
    consider e where "item c s = Some (Inl e)" "error_ok e" | d t where "item c s = Some (Inr (d, t))" "Q d" "stream_ok t" "stream_len t < stream_len s"
      using i by (auto simp: parses_def split: option.splits sum.splits)
    then show ?thesis
    proof cases
      case 1
      then show ?thesis using False by (simp add: many.simps [of stop item c s] parses_def)
    next
      case 2
      have "parses 0 Q s (many stop item d t)" by (rule parses_earlier [OF less.hyps [OF 2(4,2,3)]]) (use 2(4) in simp)
      then show ?thesis using False 2 by (simp add: many.simps [of stop item c s])
    qed
  qed
qed

lemma block_parses:
  assumes i: "\<And>c s. P c \<Longrightarrow> stream_ok s \<Longrightarrow> parses 1 Q s (item c s)" and w: "\<And>c. Q c \<Longrightarrow> P c" and e: "b \<Longrightarrow> P c \<Longrightarrow> Q c"
    and c: "P c" "stream_ok s"
  shows "parses 1 Q s (block b item c s)"
  unfolding block_def
proof (rule parses_after [OF expect_parses [OF c(2)]])
  fix n :: nat and s1
  assume s1: "stream_ok s1" "stream_len s1 + 1 \<le> stream_len s"
  have "parses 0 Q s1 (if b then ok c s1 else item c s1)"
    using i [OF c(1) s1(1)] e c(1) s1 by (auto intro: parses_ok parses_weaken)
  then have "parses 0 Q s1 (after (if b then ok c s1 else item c s1) (\<lambda>c s. after (many at_close item c s)
      (\<lambda>c s. after (expect (Chr CHR ''}'') s) (\<lambda>_ s. after (expect (Chr CHR '';'') s) (\<lambda>_ s. ok c s)))))"
  proof (rule parses_after)
    fix d s2
    assume d: "Q d" "stream_ok s2" "stream_len s2 + 0 \<le> stream_len s1"
    have m: "parses 0 Q s2 (many at_close item d s2)" by (rule many_parses) (use i w d in auto)
    have "parses 0 Q s2 (after (many at_close item d s2)
        (\<lambda>c s. after (expect (Chr CHR ''}'') s) (\<lambda>_ s. after (expect (Chr CHR '';'') s) (\<lambda>_ s. ok c s))))"
      by (rule parses_after [OF m], rule parses_earlier [of 0], (rule after_expect, assumption)+, rule parses_ok) auto
    then show "parses 0 Q s1 (after (many at_close item d s2)
        (\<lambda>c s. after (expect (Chr CHR ''}'') s) (\<lambda>_ s. after (expect (Chr CHR '';'') s) (\<lambda>_ s. ok c s))))"
      by (rule parses_earlier) (use d in simp)
  qed
  then show "parses 1 Q s (after (if b then ok c s1 else item c s1) (\<lambda>c s. after (many at_close item c s)
      (\<lambda>c s. after (expect (Chr CHR ''}'') s) (\<lambda>_ s. after (expect (Chr CHR '';'') s) (\<lambda>_ s. ok c s)))))"
    by (rule parses_earlier) (use s1 in simp)
qed

lemma entry_parses:
  assumes "\<And>c s. P c \<Longrightarrow> stream_ok s \<Longrightarrow> parses 1 Q s (item c s)" "\<And>c. Q c \<Longrightarrow> P c" "\<And>c. Q c \<Longrightarrow> R c" "b \<Longrightarrow> P d \<Longrightarrow> Q d"
    "P d" "stream_ok s"
  shows "parses 1 R s (after (expect t s) (\<lambda>_ s. block b item d s))"
proof (rule after_expect [OF assms(6)])
  fix n :: nat and s'
  assume "stream_ok s'"
  with assms(1,2,4,5) have "parses 1 Q s' (block b item d s')" by (rule block_parses)
  then show "parses 1 R s' (block b item d s')" by (rule parses_weaken) (simp_all add: assms(3))
qed

lemma simple_item_parses:
  assumes "stream_ok s"
    and str: "\<And>k f v. kind k = String_item f \<Longrightarrow> str_ok v \<Longrightarrow> Q (f v c)"
    and num: "\<And>k f i. kind k = Number_item f \<Longrightarrow> int_ok i \<Longrightarrow> Q (f i c)"
    and oth: "\<And>k n s'. kind k = Other_item \<Longrightarrow> s = T (K k) n s' \<Longrightarrow> parses 1 Q s (other k c s s')"
  shows "parses 1 Q s (simple_item kind other c s)"
proof (cases "\<exists>k n s'. s = T (K k) n s'")
  case True
  then obtain k n s' where s: "s = T (K k) n s'" by blast
  then have s': "stream_ok s'" "stream_len s' + 1 \<le> stream_len s + 0" using assms(1) by simp_all
  show ?thesis
  proof (cases "kind k")
    case (String_item f)
    have "parses 0 Q s' (after (string_value s') (\<lambda>(v, n) s. ok (f v c) s))"
      by (rule parses_after [OF string_value_parses [OF s'(1)]]) (auto intro!: parses_ok str [OF String_item])
    then show ?thesis using parses_earlier [of 0 Q s' _ 1 s] s'(2) by (simp add: simple_item_def s String_item)
  next
    case (Number_item f)
    have "parses 0 Q s' (after (number_value s') (\<lambda>i s. ok (f i c) s))"
      by (rule parses_after [OF number_value_parses [OF s'(1)]]) (auto intro!: parses_ok num [OF Number_item])
    then show ?thesis using parses_earlier [of 0 Q s' _ 1 s] s'(2) by (simp add: simple_item_def s Number_item)
  next
    case Other_item
    then show ?thesis using oth [OF Other_item s] by (simp add: simple_item_def s)
  qed
next
  case False
  then have "simple_item kind other c s = stuck s" by (auto simp: simple_item_def split: stream.split token.split)
  then show ?thesis using parses_stuck [OF assms(1)] by simp
qed

section \<open>Blocks\<close>

lemma update_last_all:
  "xs \<noteq> [] \<Longrightarrow> list_all P xs \<Longrightarrow> (P (last xs) \<Longrightarrow> P (f (last xs))) \<Longrightarrow> list_all P (update_last f xs)"
  by (auto simp: update_last_def list_all_iff dest: in_set_butlastD)

lemma update_last_nonempty [simp]: "update_last f xs \<noteq> []" "butlast (update_last f xs) = butlast xs" "last (update_last f xs) = f (last xs)"
  by (simp_all add: update_last_def)

lemmas typed_defs = conf_typed_def most_typed_def irc_typed_def options_typed_def opm_typed_def upd_irc_def upd_opt_def upd_opm_def

lemma options_item_parses: "conf_typed c \<Longrightarrow> stream_ok s \<Longrightarrow> parses 1 conf_typed s (options_item c s)"
  unfolding options_item_def
proof (rule simple_item_parses)
  assume c: "conf_typed c"
  show "conf_typed (f v c)" if "options_kind k = String_item f" "str_ok v" for k f v
    using that c by (cases k) (auto simp: options_kind_def typed_defs)
  show "conf_typed (f i c)" if "options_kind k = Number_item f" "int_ok i" for k f i
    using that c by (cases k) (auto simp: options_kind_def typed_defs int_ok_def)
qed (auto intro: parses_stuck)

subsection \<open>IRC and channels\<close>

definition in_channel :: "parse_st \<Rightarrow> bool" where
  "in_channel c \<longleftrightarrow> conf_typed c \<and> irc_conf_channels (IRCItem c) \<noteq> []"

lemma last_channel: "in_channel c \<Longrightarrow> channel_typed (last (irc_conf_channels (IRCItem c)))"
  by (auto simp: in_channel_def typed_defs list_all_iff)

lemma channel_item_parses: "in_channel c \<Longrightarrow> stream_ok s \<Longrightarrow> parses 1 in_channel s (channel_item c s)"
  unfolding channel_item_def
proof (rule simple_item_parses)
  assume c: "in_channel c"
  note l = last_channel [OF c]
  show "in_channel (f v c)" if "channel_kind k = String_item f" "str_ok v" for k f v
    using that c l by (cases k) (auto simp: channel_kind_def in_channel_def typed_defs Let_def channel_typed_def [abs_def] intro!: update_last_all)
  show "in_channel (f i c)" if "channel_kind k = Number_item f" "int_ok i" for k f i
    using that by (cases k) (simp_all add: channel_kind_def Let_def)
qed (auto intro: parses_stuck)

lemma channel_entry_parses:
  assumes "conf_typed c" "stream_ok s"
  shows "parses 1 conf_typed s (channel_entry c s)"
proof -
  define d where "d = upd_irc (\<lambda>x. x\<lparr>irc_conf_channels := irc_conf_channels x @ [\<lparr>chan_name = [], chan_key = [], chan_invite = []\<rparr>]\<rparr>) c"
  have d: "in_channel d" using assms(1) by (simp add: d_def in_channel_def typed_defs channel_typed_def str_ok_def)
  show ?thesis unfolding channel_entry_def Let_def d_def [symmetric]
    by (rule entry_parses [where P = in_channel and Q = in_channel], erule channel_item_parses)
       (use d assms(2) in \<open>auto simp: in_channel_def\<close>)
qed

lemma irc_item_parses: "conf_typed c \<Longrightarrow> stream_ok s \<Longrightarrow> parses 1 conf_typed s (irc_item c s)"
  unfolding irc_item_def
proof (rule simple_item_parses)
  assume c: "conf_typed c" and s: "stream_ok s"
  show "conf_typed (f v c)" if "irc_kind k = String_item f" "str_ok v" for k f v
    using that c by (cases k) (auto simp: irc_kind_def typed_defs)
  show "conf_typed (f i c)" if "irc_kind k = Number_item f" "int_ok i" for k f i
    using that c by (cases k) (auto simp: irc_kind_def typed_defs)
  show "parses 1 conf_typed s (if k = CHANNEL then channel_entry c s else stuck s)" for k
    by (simp add: channel_entry_parses [OF c s, simplified] parses_stuck [OF s])
qed

subsection \<open>Users\<close>

text \<open>While a user is read it may have no item yet.\<close>

definition in_user :: "parse_st \<Rightarrow> bool" where
  "in_user c \<longleftrightarrow> most_typed c \<and> UserItemList c \<noteq> [] \<and> list_all user_typed (butlast (UserItemList c)) \<and> user_strings (last (UserItemList c))"

definition user_read :: "parse_st \<Rightarrow> bool" where
  "user_read c \<longleftrightarrow> in_user c \<and> user_typed (last (UserItemList c))"

lemma user_read_typed: "user_read c \<Longrightarrow> conf_typed c"
proof -
  assume u: "user_read c"
  then obtain us u where "UserItemList c = us @ [u]" by (cases "UserItemList c" rule: rev_cases) (auto simp: user_read_def in_user_def)
  then show ?thesis using u by (simp add: user_read_def in_user_def conf_typed_def)
qed

lemma user_item_parses: "in_user c \<Longrightarrow> stream_ok s \<Longrightarrow> parses 1 user_read s (user_item c s)"
  unfolding user_item_def
proof (rule simple_item_parses)
  assume c: "in_user c"
  show "user_read (f v c)" if "user_kind k = String_item f" "str_ok v" for k f v
    using that c by (cases k) (auto simp: user_kind_def user_read_def in_user_def user_typed_def user_strings_def most_typed_def)
  show "user_read (f i c)" if "user_kind k = Number_item f" "int_ok i" for k f i
    using that by (cases k) (simp_all add: user_kind_def Let_def)
qed (auto intro: parses_stuck)

lemma user_entry_parses:
  assumes "conf_typed c" "stream_ok s"
  shows "parses 1 conf_typed s (user_entry c s)"
proof -
  define d where "d = c\<lparr>UserItemList := UserItemList c @ [\<lparr>user_masks = [], user_scanners = []\<rparr>]\<rparr>"
  have d: "in_user d" using assms(1) by (simp add: d_def in_user_def conf_typed_def most_typed_def user_strings_def)
  show ?thesis unfolding user_entry_def Let_def d_def [symmetric]
    by (rule entry_parses [where P = in_user and Q = user_read], erule user_item_parses)
       (use d assms(2) user_read_typed in \<open>auto simp: user_read_def\<close>)
qed

subsection \<open>Scanners\<close>

definition in_scanner :: "parse_st \<Rightarrow> bool" where
  "in_scanner c \<longleftrightarrow> conf_typed c \<and> ScannerItemList c \<noteq> []"

lemma upd_scanner_typed:
  assumes "in_scanner c" "\<And>x. scanner_typed x \<Longrightarrow> scanner_typed (f x)"
  shows "in_scanner (upd_scanner f c)"
proof -
  have "list_all scanner_typed (ScannerItemList c)" "ScannerItemList c \<noteq> []" using assms(1) by (simp_all add: in_scanner_def typed_defs)
  then have "list_all scanner_typed (update_last f (ScannerItemList c))" by (intro update_last_all) (use assms(2) in auto)
  then show ?thesis using assms(1) by (simp add: in_scanner_def upd_scanner_def typed_defs)
qed

lemma add_target_typed:
  assumes "in_scanner c" "str_ok v"
  shows "in_scanner (add_target_string v c)"
proof -
  have "in_scanner (if ts_created c then c else (upd_scanner (\<lambda>x. x\<lparr>sc_target_string := []\<rparr>) c)\<lparr>ts_created := True\<rparr>)"
    using assms(1) upd_scanner_typed [OF assms(1), of "\<lambda>x. x\<lparr>sc_target_string := []\<rparr>"]
    by (simp add: scanner_typed_def) (simp add: in_scanner_def typed_defs)
  then show ?thesis unfolding add_target_string_def Let_def by (rule upd_scanner_typed) (use assms(2) in \<open>simp add: scanner_typed_def\<close>)
qed

lemma scanner_protocol_parses:
  assumes "in_scanner c" "stream_ok s"
  shows "parses 0 in_scanner s (scanner_protocol c s)"
  unfolding scanner_protocol_def
proof (rule after_expect [OF assms(2)], rule parses_after, erule protocol_token_parses, rule parses_earlier [of 0], rule after_expect, assumption,
    rule parses_after, erule number_token_parses, rule parses_earlier [of 0], rule after_expect, assumption, rule parses_ok)
  fix ty i and s' :: stream
  assume "type_ok ty" and i: "int_ok i"
  moreover have "int (nat i) = i" using i by (simp add: int_ok_def)
  ultimately show "in_scanner (upd_scanner (\<lambda>x. x\<lparr>sc_protocols := sc_protocols x @ [\<lparr>proto_type = ty, proto_port = nat i\<rparr>]\<rparr>) c)"
    by (intro upd_scanner_typed [OF assms(1)]) (simp add: scanner_typed_def)
qed auto

lemma scanner_item_parses: "in_scanner c \<Longrightarrow> stream_ok s \<Longrightarrow> parses 1 in_scanner s (scanner_item c s)"
  unfolding scanner_item_def
proof (rule simple_item_parses)
  assume c: "in_scanner c" and s: "stream_ok s"
  show "in_scanner (f v c)" if "scanner_kind k = String_item f" "str_ok v" for k f v
    using that by (cases k) (auto simp: scanner_kind_def scanner_typed_def intro!: add_target_typed [OF c] upd_scanner_typed [OF c])
  show "in_scanner (f i c)" if "scanner_kind k = Number_item f" "int_ok i" for k f i
    using that by (cases k) (auto simp: scanner_kind_def scanner_typed_def intro!: upd_scanner_typed [OF c])
  show "parses 1 in_scanner s (if k = PROTOCOL then scanner_protocol c s' else stuck s)" if "s = T (K k) n s'" for k n s'
  proof (cases "k = PROTOCOL")
    case True
    have "parses 1 in_scanner s (scanner_protocol c s')"
      by (rule parses_earlier [OF scanner_protocol_parses [OF c]]) (use s that in simp_all)
    then show ?thesis using True by simp
  qed (simp add: parses_stuck [OF s])
qed

lemma scanner_entry_parses:
  assumes "conf_typed c" "stream_ok s"
  shows "parses 1 conf_typed s (scanner_entry c s)"
proof -
  have n: "in_scanner (new_scanner c)"
  proof (cases "ScannerItemList c = []")
    case True
    then show ?thesis using assms(1) by (simp add: new_scanner_def in_scanner_def typed_defs scanner_typed_def str_ok_def int_ok_def)
  next
    case False
    then have "scanner_typed (last (ScannerItemList c))" using assms(1) by (auto simp: typed_defs list_all_iff)
    then show ?thesis using assms(1) False by (simp add: new_scanner_def Let_def in_scanner_def typed_defs scanner_typed_def)
  qed
  show ?thesis unfolding scanner_entry_def
    by (rule entry_parses [where P = in_scanner and Q = in_scanner], erule scanner_item_parses) (use n assms(2) in \<open>auto simp: in_scanner_def\<close>)
qed

subsection \<open>Blacklists\<close>

definition in_blacklist :: "parse_st \<Rightarrow> bool" where
  "in_blacklist c \<longleftrightarrow> conf_typed c \<and> opm_blacklists (OpmItem c) \<noteq> []"

lemma upd_blacklist_typed:
  assumes "in_blacklist c" "\<And>x. blacklist_typed x \<Longrightarrow> blacklist_typed (f x)"
  shows "in_blacklist (upd_blacklist f c)"
proof -
  have "list_all blacklist_typed (opm_blacklists (OpmItem c))" "opm_blacklists (OpmItem c) \<noteq> []"
    using assms(1) by (simp_all add: in_blacklist_def typed_defs)
  then have "list_all blacklist_typed (update_last f (opm_blacklists (OpmItem c)))" by (intro update_last_all) (use assms(2) in auto)
  then show ?thesis using assms(1) by (simp add: in_blacklist_def upd_blacklist_def typed_defs)
qed

lemma reply_item_parses:
  assumes "in_blacklist c" "stream_ok s"
  shows "parses 1 in_blacklist s (reply_item c s)"
  unfolding reply_item_def
proof (rule parses_after [OF number_token_parses [OF assms(2)]])
  fix i s1
  assume s1: "stream_ok s1" "stream_len s1 + 1 \<le> stream_len s"
  let ?add = "\<lambda>v. upd_blacklist (\<lambda>x. x\<lparr>bl_reply := bl_reply x @ [\<lparr>reply_number = word_of_int i, reply_type = v\<rparr>]\<rparr>) c"
  have "in_blacklist (?add v)" if "str_ok v" for v by (rule upd_blacklist_typed [OF assms(1)]) (use that in \<open>simp add: blacklist_typed_def\<close>)
  then have "parses 0 in_blacklist s1 (after (string_value s1) (\<lambda>(v, n) s. ok (?add v) s))"
    by (intro parses_after [OF string_value_parses [OF s1(1)]]) (auto intro!: parses_ok)
  then show "parses 1 in_blacklist s (after (string_value s1) (\<lambda>(v, n) s. ok (?add v) s))" by (rule parses_earlier) (use s1 in simp)
qed

lemma blacklist_type_parses:
  assumes "in_blacklist c" "stream_ok s"
  shows "parses 0 in_blacklist s (blacklist_type_item c s)"
  unfolding blacklist_type_item_def
  by (rule parses_after [OF string_value_parses [OF assms(2)]])
     (auto intro!: parses_ok upd_blacklist_typed [OF assms(1)] simp: blacklist_typed_def parses_def [of _ _ _ "Some (Inl _)"] error_ok_def)

lemma blacklist_item_parses: "in_blacklist c \<Longrightarrow> stream_ok s \<Longrightarrow> parses 1 in_blacklist s (blacklist_item c s)"
  unfolding blacklist_item_def
proof (rule simple_item_parses)
  assume c: "in_blacklist c" and s: "stream_ok s"
  show "in_blacklist (f v c)" if "blacklist_kind k = String_item f" "str_ok v" for k f v
    using that by (cases k) (auto simp: blacklist_kind_def blacklist_typed_def intro!: upd_blacklist_typed [OF c])
  show "in_blacklist (f i c)" if "blacklist_kind k = Number_item f" "int_ok i" for k f i
    using that by (cases k) (auto simp: blacklist_kind_def blacklist_typed_def intro!: upd_blacklist_typed [OF c])
  show "parses 1 in_blacklist s (if k = TYPE_KW then blacklist_type_item c s' else if k = REPLY then block True reply_item c s' else stuck s)"
    if "s = T (K k) n s'" for k n s'
  proof -
    have s': "stream_ok s'" "stream_len s' + 1 \<le> stream_len s + 0" using s that by simp_all
    have "parses 1 in_blacklist s' (block True reply_item c s')" by (rule block_parses, erule reply_item_parses) (use c s' in auto)
    then have "parses 0 in_blacklist s' (block True reply_item c s')" by (rule parses_weaken) simp_all
    then have "parses 1 in_blacklist s (block True reply_item c s')" "parses 1 in_blacklist s (blacklist_type_item c s')"
      using parses_earlier [OF _ s'(2)] blacklist_type_parses [OF c s'(1)] by blast+
    then show ?thesis by (simp add: parses_stuck [OF s])
  qed
qed

lemma blacklist_entry_parses:
  assumes "conf_typed c" "stream_ok s"
  shows "parses 1 conf_typed s (blacklist_entry c s)"
proof -
  define d where "d = upd_opm (\<lambda>x. x\<lparr>opm_blacklists := opm_blacklists x @ [\<lparr>bl_name = [], bl_kline = [], bl_type = A_BITMASK,
                bl_ban_unknown = False, bl_reply = [], bl_stats_recv = 0\<rparr>]\<rparr>) c"
  have d: "in_blacklist d" using assms(1) by (simp add: d_def in_blacklist_def typed_defs blacklist_typed_def)
  show ?thesis unfolding blacklist_entry_def Let_def d_def [symmetric]
    by (rule entry_parses [where P = in_blacklist and Q = in_blacklist], erule blacklist_item_parses) (use d assms(2) in \<open>auto simp: in_blacklist_def\<close>)
qed

lemma opm_item_parses: "conf_typed c \<Longrightarrow> stream_ok s \<Longrightarrow> parses 1 conf_typed s (opm_item c s)"
  unfolding opm_item_def
proof (rule simple_item_parses)
  assume c: "conf_typed c" and s: "stream_ok s"
  show "conf_typed (f v c)" if "opm_kind k = String_item f" "str_ok v" for k f v
    using that c by (cases k) (auto simp: opm_kind_def typed_defs)
  show "conf_typed (f i c)" if "opm_kind k = Number_item f" "int_ok i" for k f i
    using that by (cases k) (simp_all add: opm_kind_def)
  show "parses 1 conf_typed s (if k = BLACKLIST then blacklist_entry c s else stuck s)" for k
    by (simp add: blacklist_entry_parses [OF c s, simplified] parses_stuck [OF s])
qed

lemma exempt_item_parses: "conf_typed c \<Longrightarrow> stream_ok s \<Longrightarrow> parses 1 conf_typed s (exempt_item c s)"
  unfolding exempt_item_def
proof (rule simple_item_parses)
  assume c: "conf_typed c"
  show "conf_typed (f v c)" if "exempt_kind k = String_item f" "str_ok v" for k f v
    using that c by (cases k) (auto simp: exempt_kind_def typed_defs)
  show "conf_typed (f i c)" if "exempt_kind k = Number_item f" "int_ok i" for k f i
    using that by (cases k) (simp_all add: exempt_kind_def)
qed (auto intro: parses_stuck)

section \<open>The file\<close>

lemma config_items_parses:
  assumes "conf_typed c" "stream_ok s"
  shows "parses 1 conf_typed s (config_items c s)"
proof (cases "\<exists>k n s'. s = T (K k) n s'")
  case True
  then obtain k n s' where s: "s = T (K k) n s'" by blast
  then have s': "stream_ok s'" "stream_len s' + 1 \<le> stream_len s + 1" using assms(2) by simp_all
  have b: "parses 1 conf_typed s (block e item c s')" if "\<And>c s. conf_typed c \<Longrightarrow> stream_ok s \<Longrightarrow> parses 1 conf_typed s (item c s)" for e item
    by (rule parses_earlier [OF block_parses [where P = conf_typed, OF that] s'(2)]) (use assms(1) s'(1) in auto)
  note r = b [of irc_item, OF irc_item_parses] b [of options_item, OF options_item_parses] b [of opm_item, OF opm_item_parses]
    b [of exempt_item, OF exempt_item_parses]
    user_entry_parses [OF assms] scanner_entry_parses [OF assms] parses_stuck [OF assms(2)]
  have "config_items c s = (case k of IRC \<Rightarrow> block False irc_item c s' | OPTIONS \<Rightarrow> block True options_item c s' | OPM \<Rightarrow> block True opm_item c s'
      | USER \<Rightarrow> user_entry c s | SCANNER \<Rightarrow> scanner_entry c s | EXEMPT \<Rightarrow> block True exempt_item c s' | _ \<Rightarrow> stuck s)"
    by (cases k) (simp_all add: config_items_def s)
  then show ?thesis by (cases k) (simp_all only: keyword.case r)
next
  case False
  then have "config_items c s = stuck s" by (auto simp: config_items_def split: stream.split token.split)
  then show ?thesis using parses_stuck [OF assms(2)] by simp
qed

lemma parse_total_typed:
  assumes "text_ok s" "conf_typed c"
  shows "\<exists>r. yyparse c s = Some r \<and> (\<forall>d. r = Inr d \<longrightarrow> conf_typed d) \<and> (\<forall>e. r = Inl e \<longrightarrow> error_ok e)"
proof -
  let ?c = "conf.extend c (parse_st.fields False)"
  have "conf_typed ?c" using assms(2) by (simp add: typed_defs conf.defs parse_st.defs)
  then have "parses 0 conf_typed (scan_config s) (many at_end config_items ?c (scan_config s))"
    by (intro many_parses config_items_parses scan_config_ok assms(1))
  moreover have "conf_typed (conf.truncate d)" if "conf_typed d" for d :: parse_st using that by (simp add: typed_defs conf.defs)
  ultimately show ?thesis by (auto simp: yyparse_def parse_stream_def parses_def split: option.splits sum.splits)
qed



section \<open>Limits of the scanner\<close>

lemma lex_match_newline: "lex_match (newline # s) = (1 + length (takeWhile (\<lambda>c. c \<noteq> newline) s), R_newline)"
proof -
  obtain n r where m: "lex_match (newline # s) = (n, r)" by force
  then have "r = R_string \<or> r = R_newline \<or> r = R_char" using lex_match_special by blast
  moreover have "0 < n" using lex_match_bounds(1) [of "newline # s"] m by simp
  moreover have "m_string (newline # s) = 0" "m_any (newline # s) = 0" by (simp_all add: m_string_def m_any_def)
  ultimately have r: "r = R_newline" using lex_match_rule(1,3) [OF m list.discI] by auto
  then have "n = m_newline (newline # s)" using lex_match_rule(2) [OF m list.discI] by simp
  then show ?thesis using m r by (simp add: m_newline_def)
qed

text \<open>A line of 512 characters behind a line end overruns \<open>linebuf\<close>, however the text goes on.\<close>

lemma long_line_undefined:
  assumes "newline \<notin> set l" "NUL \<notin> set l" "LINEBUF \<le> length l"
  shows "tokens \<lparr>lx_more = [], lx_inp = newline # l @ newline # s, lx_linenum = n\<rparr> = T_undefined"
proof -
  have t: "takeWhile (\<lambda>c. c \<noteq> newline) (l @ newline # s) = l" using assms(1) by (auto simp: takeWhile_append)
  have "c_string l = l" using assms(2) by (auto simp: c_string_def)
  then have "newline_action (newline # l) (newline # s) n = None" using assms(3) by (simp add: newline_action_def)
  moreover have "lex_match (newline # l @ newline # s) = (1 + length l, R_newline)" using lex_match_newline [of "l @ newline # s"] t by simp
  ultimately have "lex_step \<lparr>lx_more = [], lx_inp = newline # l @ newline # s, lx_linenum = n\<rparr> = None" by (simp add: lex_step_def)
  then show ?thesis by (simp add: tokens.simps [of "\<lparr>lx_more = [], lx_inp = newline # l @ newline # s, lx_linenum = n\<rparr>"])
qed

text \<open>A string that its line cuts off is dropped and the line not counted; a backslash in front of the line end has
  the string read again as if it had no quote; an escaped backslash does not keep a quote from being escaped; a
  character with the highest bit set ends the file; a line end behind a star is not counted in a comment.\<close>

lemma cut_string_dropped: "scan_config ([quote] @ ''a'' @ [newline] @ ''fd'') = T (K FD) 1 (T_end 1)"
  by code_simp

lemma cut_string_read_again: "scan_config ([quote] @ ''no'' @ [backslash, newline] @ ''fd'') =
    T (NUMBER 0) 2 (T (Chr backslash) 2 (T (K FD) 3 (T_end 3)))"
  by code_simp

lemma backslash_string_open: "scan_config ([quote] @ ''a'' @ [backslash, backslash, quote] @ '';'') = T (Chr quote) 1 (T (Chr CHR '';'') 1 (T_end 1))"
  by code_simp

lemma high_char_ends: "scan_config (''fd'' @ [CHR 0xE9] @ ''fd'') = T (K FD) 1 (T_end 1)"
  by code_simp

lemma comment_line_not_counted: "scan_config (''/**'' @ [newline] @ ''*/fd'') = T (K FD) 1 (T_end 1)"
  by code_simp

end
