(* ===== verification/Bopm.thy ===== *)
theory Bopm
  imports Irc_Safe Conf_Print Conf_Safe
begin

text \<open>
  main.c and log.c, with the functions that give the components their turn: \<open>irc_cycle\<close>,
  \<open>scan_cycle\<close> and the timers.  What the surroundings answer during one turn of the main loop is
  an argument.
\<close>

section \<open>State\<close>

text \<open>A pointer to a file: not set, open, or closed but still there.\<close>

datatype file_ptr = No_file | Open_file | Closed_file

record bopm_st = irc_st +
  OPT_DEBUG :: nat
  ALARMED :: bool
  REOPEN :: bool
  logfile :: file_ptr
  scanlog_fp :: file_ptr
  log_lines :: "string list"

datatype select_result = Select_error | Select_timeout | Select_ready

text \<open>
  The answers during a turn: those to \<open>irc_init\<close>, \<open>connect\<close> and \<open>select\<close>; the bytes waiting on the
  connection and how they end; what each scanner of libopm reports; whether the log files, \<open>getrlimit\<close>
  and \<open>execve\<close> work, the text of the error, the name of the program and the date of a log line.
\<close>

record answers =
  an_init :: init_answers
  an_connect :: connect_result
  an_select :: select_result
  an_input :: string
  an_end :: read_end
  an_reports :: "(ptr \<times> opm_report \<times> opm_callback) list list"
  an_fopen :: bool
  an_scanlog :: bool
  an_rlimit :: bool
  an_execve :: bool
  an_error :: string
  an_argv0 :: string
  an_date :: "int \<Rightarrow> string"

text \<open>How a part of the loop ends: the loop goes on, the program ends with a status, or another
  program takes its place.\<close>

datatype 'w outcome = Goes_on 'w | Ends int 'w | Replaced 'w

section \<open>The log\<close>

definition log_open :: "'b answers_scheme \<Rightarrow> 'a bopm_st_scheme \<Rightarrow> 'a bopm_st_scheme outcome" where
  "log_open an w = (if an_fopen an then Goes_on (w\<lparr>logfile := Open_file\<rparr>) else Ends 1 (w\<lparr>logfile := No_file\<rparr>))"

definition log_close :: "'a bopm_st_scheme \<Rightarrow> 'a bopm_st_scheme option" where
  "log_close w = (if logfile w = Open_file then Some (w\<lparr>logfile := Closed_file\<rparr>) else None)"

definition log_printf :: "'b answers_scheme \<Rightarrow> string \<Rightarrow> arg list \<Rightarrow> 'a bopm_st_scheme \<Rightarrow> 'a bopm_st_scheme option" where
  "log_printf an data ap w =
     (if OPT_DEBUG w = 0 \<and> logfile w = No_file then Some w
      else do {
        data2 \<leftarrow> format_buffer 512 data ap;
        let line = ''['' @ an_date an (clock w) @ ''] '' @ data2 @ [CHR 0x0A];
        if OPT_DEBUG w \<noteq> 0 \<or> logfile w = Open_file then Some (w\<lparr>log_lines := log_lines w @ [line]\<rparr>) else None })"

definition scanlog_open :: "'b answers_scheme \<Rightarrow> 'a bopm_st_scheme \<Rightarrow> 'a bopm_st_scheme option" where
  "scanlog_open an w =
     (if an_scanlog an then Some (w\<lparr>scanlog_fp := Open_file\<rparr>)
      else log_printf an ''Failed to open scan log file: %s'' [Str (an_error an)] (w\<lparr>scanlog_fp := No_file\<rparr>))"

definition scanlog_close :: "'a bopm_st_scheme \<Rightarrow> 'a bopm_st_scheme option" where
  "scanlog_close w =
     (case scanlog_fp w of
        No_file \<Rightarrow> Some w
      | Open_file \<Rightarrow> Some (w\<lparr>scanlog_fp := Closed_file\<rparr>)
      | Closed_file \<Rightarrow> None)"

section \<open>The cycles\<close>

definition irc_cycle :: "irc_sys \<Rightarrow> answers \<Rightarrow> 'a irc_st_scheme \<Rightarrow> (string \<times> 'a irc_st_scheme outcome) option" where
  "irc_cycle sys an w =
     (if IRC_FD w \<le> 0 then do {
        w \<leftarrow> (if opt_negcache (OptionsItem (cfg w)) > 0
              then map_option (\<lambda>(h, m). w\<lparr>nc_head := h, nc_mem := m\<rparr>) (nc_init (nc_mem w) (nc_head w)) else Some w);
        r \<leftarrow> irc_init (an_init an) w;
        case r of
          Exited w \<Rightarrow> Some (an_input an, Ends 1 w)
        | Returned w \<Rightarrow> do { w \<leftarrow> irc_connect (an_connect an) w; Some (an_input an, Goes_on w) } }
      else (case an_select an of
              Select_error \<Rightarrow> Some (an_input an, Goes_on w)
            | Select_timeout \<Rightarrow> Some (an_input an, Goes_on w)
            | Select_ready \<Rightarrow> do { (inp, w) \<leftarrow> irc_read sys (an_end an) (an_input an) w; Some (inp, Goes_on w) }))"

text \<open>\<open>opm_cycle\<close> of libopm calls back for scans it has accepted and not ended.\<close>

fun opm_cycle :: "nat \<Rightarrow> (ptr \<times> opm_report \<times> opm_callback) list \<Rightarrow> 'a scan_st_scheme \<Rightarrow> 'a scan_st_scheme option" where
  "opm_cycle i [] w = Some w"
| "opm_cycle i ((p, rep, cb) # rs) w = do {
     w \<leftarrow> (if (i, p) \<in> set (opm_active w) then opm_call i p rep cb w else Some w);
     opm_cycle i rs w }"

fun scan_cycle_loop ::
  "nat \<Rightarrow> scanner_struct list \<Rightarrow> (ptr \<times> opm_report \<times> opm_callback) list list \<Rightarrow> 'a scan_st_scheme \<Rightarrow> 'a scan_st_scheme option" where
  "scan_cycle_loop i [] rss w = Some w"
| "scan_cycle_loop i (scs # ss) rss w = do {
     w \<leftarrow> opm_cycle i (concat (take 1 rss)) w;
     scan_cycle_loop (Suc i) ss (tl rss) w }"

definition scan_cycle :: "(ptr \<times> opm_report \<times> opm_callback) list list \<Rightarrow> 'a scan_st_scheme \<Rightarrow> 'a scan_st_scheme option" where
  "scan_cycle rss w = do {
     w \<leftarrow> dnsbl_cycle w;
     scan_cycle_loop 0 (SCANNERS w) rss w }"

section \<open>The main loop\<close>

definition proceed :: "'w outcome option \<Rightarrow> ('w \<Rightarrow> 'w outcome option) \<Rightarrow> 'w outcome option" where
  "proceed r f = (case r of Some (Goes_on w) \<Rightarrow> f w | _ \<Rightarrow> r)"

text \<open>The restart.  Marking the descriptors as closed on execution has no effect the model sees.\<close>

definition main_check_restart :: "answers \<Rightarrow> 'a bopm_st_scheme \<Rightarrow> 'a bopm_st_scheme outcome option" where
  "main_check_restart an w =
     (if \<not> RESTART w then Some (Goes_on w)
      else if OPT_DEBUG w \<noteq> 0 then Some (Ends 1 w)
      else do {
        w \<leftarrow> log_printf an ''MAIN -> Restarting process'' [] w;
        if \<not> an_rlimit an then do {
          w \<leftarrow> log_printf an ''MAIN RESTART -> getrlimit() error retrieving RLIMIT_NOFILE (%s)'' [Str (an_error an)] w;
          Some (Ends 1 w) }
        else if an_execve an then Some (Replaced w)
        else do {
          w \<leftarrow> log_printf an (''MAIN RESTART -> Execution of '' @ [CHR 0x22] @ ''%s'' @ [CHR 0x22] @ '' failed. ERROR: %s'')
                 [Str (an_argv0 an), Str (an_error an)] w;
          Some (Goes_on (w\<lparr>RESTART := False\<rparr>)) } })"

definition scanlog_reopen :: "answers \<Rightarrow> 'a bopm_st_scheme \<Rightarrow> 'a bopm_st_scheme option" where
  "scanlog_reopen an w =
     (if opt_scanlog (OptionsItem (cfg w)) \<noteq> None then do { w \<leftarrow> scanlog_close w; scanlog_open an w } else Some w)"

definition main_check_reopen :: "answers \<Rightarrow> 'a bopm_st_scheme \<Rightarrow> 'a bopm_st_scheme outcome option" where
  "main_check_reopen an w =
     (if \<not> REOPEN w then Some (Goes_on w)
      else do {
        w \<leftarrow> log_printf an ''MAIN -> Caught SIGUSR1, reopening logfiles'' [] w;
        w \<leftarrow> log_close w;
        proceed (Some (log_open an w)) (\<lambda>w. do {
          w \<leftarrow> scanlog_reopen an w;
          w \<leftarrow> log_printf an ''MAIN -> reopened logfiles'' [] w;
          Some (Goes_on (w\<lparr>REOPEN := False\<rparr>)) }) })"

definition main_timers :: "'a bopm_st_scheme \<Rightarrow> 'a bopm_st_scheme outcome option" where
  "main_timers w =
     (if \<not> ALARMED w then Some (Goes_on w)
      else do {
        w \<leftarrow> irc_timer w;
        w \<leftarrow> scan_timer w;
        w \<leftarrow> command_timer w;
        Some (Goes_on (w\<lparr>ALARMED := False\<rparr>)) })"

definition main_cycle :: "irc_sys \<Rightarrow> answers \<Rightarrow> 'a bopm_st_scheme \<Rightarrow> 'a bopm_st_scheme outcome option" where
  "main_cycle sys an w =
     proceed (map_option snd (irc_cycle sys an w)) (\<lambda>w.
     proceed (map_option Goes_on (scan_cycle (an_reports an) w)) (\<lambda>w.
     proceed (main_check_restart an w) (\<lambda>w.
     proceed (main_check_reopen an w)
     main_timers)))"

datatype signal = SIGALRM | SIGINT | SIGUSR1

definition do_signal :: "answers \<Rightarrow> signal \<Rightarrow> 'a bopm_st_scheme \<Rightarrow> 'a bopm_st_scheme outcome option" where
  "do_signal an sig w =
     (case sig of
        SIGALRM \<Rightarrow> Some (Goes_on (w\<lparr>ALARMED := True\<rparr>))
      | SIGINT \<Rightarrow> do { w \<leftarrow> log_printf an ''MAIN -> Caught SIGINT, bye!'' [] w; Some (Ends 0 w) }
      | SIGUSR1 \<Rightarrow> Some (Goes_on (w\<lparr>REOPEN := True\<rparr>)))"

section \<open>Starting\<close>

text \<open>
  What else the surroundings decide when the program starts: the options \<open>getopt\<close> finds, the
  directories, the results of \<open>fork\<close> and \<open>setpgid\<close>, whether the configuration can be opened and its
  text, the lines of the resolver's files and whether the file for the process id
  can be opened.
\<close>

datatype main_option = Opt_c string | Opt_d | Opt_unknown

datatype fork_result = Fork_failed | Fork_parent | Fork_child

record startup = answers +
  st_args :: "main_option list"
  st_confdir :: string
  st_logdir :: string
  st_fork :: fork_result
  st_setpgid :: bool
  st_open :: bool
  st_text :: string
  st_pref :: "string list option"
  st_fbck :: "string list option"
  st_pidfile :: bool

fun main_args :: "main_option list \<Rightarrow> string \<times> nat \<Rightarrow> string \<times> nat" where
  "main_args [] st = st"
| "main_args (Opt_c nm # os) (CONFNAME, debug) = main_args os (nm, debug)"
| "main_args (Opt_d # os) (CONFNAME, debug) = main_args os (CONFNAME, debug + 1)"
| "main_args (Opt_unknown # os) (CONFNAME, debug) = main_args os (CONFNAME, debug)"

definition main_path :: "string \<Rightarrow> string \<Rightarrow> string \<Rightarrow> string option" where
  "main_path dir name ext = format_buffer (length dir + length name + length ext + 3) ''%s/%s.%s'' [Str dir, Str name, Str ext]"

text \<open>\<open>config_load\<close>: the parser ends with an error, which \<open>yyerror\<close> reports, or leaves the configuration.  A
  comment that is not closed ends the program inside the scanner.\<close>

definition config_load :: "startup \<Rightarrow> string \<Rightarrow> 'a bopm_st_scheme \<Rightarrow> 'a bopm_st_scheme outcome option" where
  "config_load st filename w = do {
     let w = w\<lparr>cfg := config_init_setup\<rparr>;
     w \<leftarrow> log_printf st ''CONFIG -> Loading %s'' [Str filename] w;
     if \<not> st_open st then do {
       w \<leftarrow> log_printf st ''CONFIG -> Error opening %s'' [Str filename] w;
       Some (Ends 1 w) }
     else do {
       r \<leftarrow> yyparse (cfg w) (st_text st);
       case r of
       Inl (Yyerror err linenum) \<Rightarrow> do {
         w \<leftarrow> log_printf st ''CONFIG -> %s: line %d'' [Str err, ArgInt (of_nat linenum)] w;
         Some (Ends 1 w) }
     | Inl Comment_open \<Rightarrow> Some (Ends 2 w)
     | Inr c \<Rightarrow> do {
         w \<leftarrow> scan_init (w\<lparr>cfg := c\<rparr>);
         case firedns_init (st_pref st) (st_fbck st) (stats_init (command_init w)) of
           Exited w \<Rightarrow> Some (Ends 1 w)
         | Returned w \<Rightarrow> Some (Goes_on w) } } }"

definition main_daemon :: "startup \<Rightarrow> 'a bopm_st_scheme \<Rightarrow> 'a bopm_st_scheme outcome option" where
  "main_daemon st w =
     (if OPT_DEBUG w = 0 then
        (case st_fork st of
           Fork_failed \<Rightarrow> Some (Ends 1 w)
         | Fork_parent \<Rightarrow> Some (Ends 0 w)
         | Fork_child \<Rightarrow> if \<not> st_setpgid st then Some (Ends 1 w) else Some (log_open st w))
      else map_option Goes_on (log_printf st ''MAIN -> Debug level %d'' [ArgInt (of_nat (OPT_DEBUG w))] w))"

text \<open>The scan log and the file for the process id.\<close>

definition main_files :: "startup \<Rightarrow> 'a bopm_st_scheme \<Rightarrow> 'a bopm_st_scheme outcome option" where
  "main_files st w = do {
     w \<leftarrow> (if opt_scanlog (OptionsItem (cfg w)) \<noteq> None then scanlog_open st w else Some w);
     if st_pidfile st then Some (Goes_on w)
     else do {
       w \<leftarrow> log_printf st ''MAIN -> Error opening %s: %s'' [Str (opt_pidfile (OptionsItem (cfg w))), Str (an_error st)] w;
       Some (Ends 1 w) } }"

text \<open>\<open>main\<close> up to the loop.  The umask, the closing of the standard descriptors, the number written into
  the file for the process id and the installation of the signal handlers are left out.\<close>

definition main_start :: "startup \<Rightarrow> 'a bopm_st_scheme \<Rightarrow> 'a bopm_st_scheme outcome option" where
  "main_start st w = do {
     let (CONFNAME, debug) = main_args (st_args st) (''bopm'', OPT_DEBUG w);
     let w = w\<lparr>OPT_DEBUG := debug\<rparr>;
     CONFFILE \<leftarrow> main_path (st_confdir st) CONFNAME ''conf'';
     LOGFILE \<leftarrow> main_path (st_logdir st) CONFNAME ''log'';
     proceed (main_daemon st w) (\<lambda>w. do {
       w \<leftarrow> log_printf st ''MAIN -> BOPM %s started.'' [Str (VERSION (envir w))] w;
       w \<leftarrow> log_printf st ''MAIN -> Reading configuration file...'' [] w;
       proceed (config_load st CONFFILE w) (main_files st) }) }"

definition bopm_globals :: "int \<Rightarrow> env \<Rightarrow> bopm_st" where
  "bopm_globals now e =
     irc_st.extend (oper_st.extend (scan_st.extend (scan_globals now e config_init_setup) (oper_st.fields None 1 0))
       (irc_st.fields (replicate 513 NUL) 0 (replicate 17 None) False False))
       (bopm_st.fields 0 False False No_file No_file [])"

section \<open>The loop is safe\<close>

text \<open>The log can be written to, and reopened when that has been asked for.\<close>

definition logs_ok :: "'a bopm_st_scheme \<Rightarrow> bool" where
  "logs_ok w \<longleftrightarrow> (OPT_DEBUG w \<noteq> 0 \<or> logfile w = Open_file) \<and> scanlog_fp w \<noteq> Closed_file \<and> (REOPEN w \<longrightarrow> logfile w = Open_file)"

definition running :: "'a bopm_st_scheme \<Rightarrow> bool" where
  "running w \<longleftrightarrow> good w \<and> reader_ok w \<and> logs_ok w"

text \<open>A part of the loop returns, and if the program goes on it is in order.\<close>

definition safely :: "'a bopm_st_scheme outcome option \<Rightarrow> bool" where
  "safely r \<longleftrightarrow> (\<exists>out. r = Some out \<and> (\<forall>w'. out = Goes_on w' \<longrightarrow> running w'))"

lemma safely_simps [simp]: "safely (Some (Goes_on w)) = running w" "safely (Some (Ends n w))" "safely (Some (Replaced w))"
  by (simp_all add: safely_def)

lemma safely_proceed: "safely r \<Longrightarrow> (\<And>w. running w \<Longrightarrow> safely (f w)) \<Longrightarrow> safely (proceed r f)"
  by (auto simp: safely_def proceed_def split: outcome.split)

lemma good_bopm [simp]:
  "good (w\<lparr>log_lines := ls\<rparr>) = good w" "good (w\<lparr>logfile := l\<rparr>) = good w" "good (w\<lparr>scanlog_fp := l\<rparr>) = good w"
  "good (w\<lparr>ALARMED := b\<rparr>) = good w" "good (w\<lparr>REOPEN := b\<rparr>) = good w"
  by (simp_all add: good_def quiet_def scan_inv_def cache_fine_def conns_ok_def fd_limit_def lookups_ok_def indices_ok_def
      static_ok_def blacklists_def asked_def queue_ok_def uptime_ok_def)

lemma reader_bopm [simp]:
  "reader_ok (w\<lparr>log_lines := ls\<rparr>) = reader_ok w" "reader_ok (w\<lparr>logfile := l\<rparr>) = reader_ok w" "reader_ok (w\<lparr>scanlog_fp := l\<rparr>) = reader_ok w"
  "reader_ok (w\<lparr>ALARMED := b\<rparr>) = reader_ok w" "reader_ok (w\<lparr>REOPEN := b\<rparr>) = reader_ok w" "reader_ok (w\<lparr>RESTART := b\<rparr>) = reader_ok w"
  by (simp_all add: reader_ok_def buffers_ok_def)

lemma running_upd [simp]:
  "running (w\<lparr>log_lines := ls\<rparr>) = running w" "running (w\<lparr>ALARMED := b\<rparr>) = running w" "running (w\<lparr>RESTART := b\<rparr>) = running w"
  "running w \<Longrightarrow> running (w\<lparr>REOPEN := False\<rparr>)"
  by (simp_all add: running_def logs_ok_def)

lemma log_printf_total:
  assumes "formats data ap" "OPT_DEBUG w \<noteq> 0 \<or> logfile w = Open_file"
  shows "\<exists>ls. log_printf an data ap w = Some (w\<lparr>log_lines := ls\<rparr>)"
proof -
  obtain t where "format_buffer 512 data ap = Some t" using format_buffer_total [of data ap 512] assms(1) by (auto simp: formats_def)
  then show ?thesis using assms(2) by (auto simp: log_printf_def Let_def)
qed

lemma running_log:
  assumes "running w" "formats data ap"
  shows "\<exists>ls. log_printf an data ap w = Some (w\<lparr>log_lines := ls\<rparr>)"
  using log_printf_total [OF assms(2), of w an] assms(1) by (simp add: running_def logs_ok_def)

lemma restart_safely: "running w \<Longrightarrow> safely (main_check_restart an w)"
proof -
  assume r: "running w"
  have "\<exists>l1. log_printf an ''MAIN -> Restarting process'' [] w = Some (w\<lparr>log_lines := l1\<rparr>)" by (rule running_log [OF r]) simp
  then obtain l1 where l1: "log_printf an ''MAIN -> Restarting process'' [] w = Some (w\<lparr>log_lines := l1\<rparr>)" by blast
  have r1: "running (w\<lparr>log_lines := l1\<rparr>)" using r by simp
  have "\<exists>l2. log_printf an ''MAIN RESTART -> getrlimit() error retrieving RLIMIT_NOFILE (%s)'' [Str (an_error an)] (w\<lparr>log_lines := l1\<rparr>) =
      Some (w\<lparr>log_lines := l1\<rparr>\<lparr>log_lines := l2\<rparr>)" by (rule running_log [OF r1]) simp
  then obtain l2 where l2: "log_printf an ''MAIN RESTART -> getrlimit() error retrieving RLIMIT_NOFILE (%s)'' [Str (an_error an)] (w\<lparr>log_lines := l1\<rparr>) =
      Some (w\<lparr>log_lines := l1\<rparr>\<lparr>log_lines := l2\<rparr>)" by blast
  have "\<exists>l3. log_printf an (''MAIN RESTART -> Execution of '' @ [CHR 0x22] @ ''%s'' @ [CHR 0x22] @ '' failed. ERROR: %s'')
      [Str (an_argv0 an), Str (an_error an)] (w\<lparr>log_lines := l1\<rparr>) = Some (w\<lparr>log_lines := l1\<rparr>\<lparr>log_lines := l3\<rparr>)" by (rule running_log [OF r1]) simp
  then obtain l3 where l3: "log_printf an (''MAIN RESTART -> Execution of '' @ [CHR 0x22] @ ''%s'' @ [CHR 0x22] @ '' failed. ERROR: %s'')
      [Str (an_argv0 an), Str (an_error an)] (w\<lparr>log_lines := l1\<rparr>) = Some (w\<lparr>log_lines := l1\<rparr>\<lparr>log_lines := l3\<rparr>)" by blast
  show ?thesis using r l1 l2 l3 by (simp add: main_check_restart_def)
qed

lemma scanlog_reopen_running: "running w \<Longrightarrow> \<exists>w'. scanlog_reopen an w = Some w' \<and> running w'"
proof (cases "opt_scanlog (OptionsItem (cfg w)) = None")
  case False
  assume r: "running w"
  then obtain w2 where w2: "scanlog_close w = Some w2" "w2 = w \<or> w2 = w\<lparr>scanlog_fp := Closed_file\<rparr>"
    by (cases "scanlog_fp w") (auto simp: scanlog_close_def running_def logs_ok_def)
  then have r2: "running (w2\<lparr>scanlog_fp := No_file\<rparr>)" "running (w2\<lparr>scanlog_fp := Open_file\<rparr>)" using r by (auto simp: running_def logs_ok_def)
  have "\<exists>l. log_printf an ''Failed to open scan log file: %s'' [Str (an_error an)] (w2\<lparr>scanlog_fp := No_file\<rparr>) =
      Some (w2\<lparr>scanlog_fp := No_file\<rparr>\<lparr>log_lines := l\<rparr>)" by (rule running_log [OF r2(1)]) simp
  then show ?thesis using False w2(1) r2 by (auto simp: scanlog_reopen_def scanlog_open_def)
qed (simp add: scanlog_reopen_def)

lemma reopen_safely: "running w \<Longrightarrow> safely (main_check_reopen an w)"
proof (cases "REOPEN w")
  case True
  assume r: "running w"
  then have "\<exists>l. log_printf an ''MAIN -> Caught SIGUSR1, reopening logfiles'' [] w = Some (w\<lparr>log_lines := l\<rparr>)" by (rule running_log) simp
  then obtain l where l: "log_printf an ''MAIN -> Caught SIGUSR1, reopening logfiles'' [] w = Some (w\<lparr>log_lines := l\<rparr>)" by blast
  define w1 where "w1 = w\<lparr>log_lines := l, logfile := Open_file\<rparr>"
  have lo: "logfile w = Open_file" "running w1" using r True by (simp_all add: w1_def running_def logs_ok_def)
  obtain w2 where w2: "scanlog_reopen an w1 = Some w2" "running w2" using scanlog_reopen_running [OF lo(2)] by blast
  then have "\<exists>l. log_printf an ''MAIN -> reopened logfiles'' [] w2 = Some (w2\<lparr>log_lines := l\<rparr>)" by (intro running_log) simp_all
  then obtain l2 where l2: "log_printf an ''MAIN -> reopened logfiles'' [] w2 = Some (w2\<lparr>log_lines := l2\<rparr>)" by blast
  have "main_check_reopen an w = (if an_fopen an then Some (Goes_on (w2\<lparr>log_lines := l2\<rparr>\<lparr>REOPEN := False\<rparr>))
      else Some (Ends 1 (w\<lparr>log_lines := l\<rparr>\<lparr>logfile := No_file\<rparr>)))"
    using True l lo(1) w2(1) l2 by (simp add: main_check_reopen_def log_close_def log_open_def proceed_def w1_def)
  then show ?thesis using w2(2) by simp
qed (simp add: main_check_reopen_def)

lemma opm_cycle_inv: "quiet w \<Longrightarrow> \<exists>w'. opm_cycle i rs w = Some w' \<and> quiet w' \<and> calm w w'"
proof (induction rs arbitrary: w)
  case (Cons r rs)
  obtain p rep cb where r: "r = (p, rep, cb)" by (cases r)
  obtain w1 where w1: "(if (i, p) \<in> set (opm_active w) then opm_call i p rep cb w else Some w) = Some w1" "quiet w1" "calm w w1"
    using opm_call_inv [OF Cons.prems, of i p rep cb] Cons.prems by (cases "(i, p) \<in> set (opm_active w)") auto
  obtain w2 where "opm_cycle i rs w1 = Some w2" "quiet w2" "calm w1 w2" using Cons.IH [OF w1(2)] by blast
  then show ?case using w1 calm_trans [OF w1(3)] by (auto simp: r)
qed simp

lemma scan_cycle_loop_inv: "quiet w \<Longrightarrow> \<exists>w'. scan_cycle_loop i ss rss w = Some w' \<and> quiet w' \<and> calm w w'"
proof (induction ss arbitrary: i rss w)
  case (Cons s ss)
  obtain w1 where w1: "opm_cycle i (concat (take 1 rss)) w = Some w1" "quiet w1" "calm w w1" using opm_cycle_inv [OF Cons.prems] by blast
  obtain w2 where "scan_cycle_loop (Suc i) ss (tl rss) w1 = Some w2" "quiet w2" "calm w1 w2" using Cons.IH [OF w1(2)] by blast
  then show ?case using w1 calm_trans [OF w1(3)] by auto
qed simp

lemma scan_cycle_inv: "quiet w \<Longrightarrow> \<exists>w'. scan_cycle rss w = Some w' \<and> quiet w' \<and> calm w w'"
proof -
  assume "quiet w"
  then obtain w1 where w1: "dnsbl_cycle w = Some w1" "quiet w1" "calm w w1" using dnsbl_cycle_inv by blast
  obtain w2 where "scan_cycle_loop 0 (SCANNERS w1) rss w1 = Some w2" "quiet w2" "calm w1 w2" using scan_cycle_loop_inv [OF w1(2)] by blast
  then show ?thesis using w1 calm_trans [OF w1(3)] by (auto simp: scan_cycle_def)
qed

lemma apart_logs: "apart w w' \<Longrightarrow> logs_ok w' = logs_ok w"
  by (cases w; cases w') (simp add: apart_def logs_ok_def)

lemma same_line_running: "running w \<Longrightarrow> good w' \<Longrightarrow> same_line w w' \<Longrightarrow> running w'"
  using apart_logs [of w w'] by (simp add: running_def same_line_def reader_ok_def buffers_ok_def apart_def)

lemma calm_good:
  assumes "good w" "quiet w'" "calm w w'"
  shows "good w' \<and> same_line w w'"
proof -
  have "queue_ok w' = queue_ok w" "uptime_ok w' = uptime_ok w"
    using assms(3) by (cases w; cases w'; simp add: calm_def queue_ok_def uptime_ok_def)+
  then show ?thesis using assms still_line [OF calm_still [OF assms(3)]] by (simp add: good_def)
qed

lemma calm_running: "running w \<Longrightarrow> quiet w' \<Longrightarrow> calm w w' \<Longrightarrow> running w'"
  using calm_good same_line_running by (metis running_def)

lemma irc_timer_handled: "good w \<Longrightarrow> handled w (irc_timer w)"
  using good_reconnect [of w] irc_send_handled [of "''PING :BOPM''" "[]" w]
  by (auto simp: irc_timer_def Let_def same_line_def intro!: handledI)

lemma timers_safely: "running w \<Longrightarrow> safely (main_timers w)"
proof (cases "ALARMED w")
  case True
  assume r: "running w"
  obtain w1 where t: "irc_timer w = Some w1" "good w1" "same_line w w1" using irc_timer_handled [of w] r by (auto simp: handled_def running_def)
  have w1: "irc_timer w = Some w1" "running w1" using t same_line_running [OF r t(2,3)] by simp_all
  have q1: "quiet w1" using w1(2) by (simp add: running_def good_def)
  obtain w2 where w2: "scan_timer w1 = Some w2" "quiet w2" "calm w1 w2" using scan_timer_inv [OF q1] by blast
  have r2: "running w2" by (rule calm_running [OF w1(2) w2(2,3)])
  obtain w3 where w3: "command_timer w2 = Some w3" "quiet w3" "queue_ok w3" "still w2 w3"
    using command_timer_ok [of w2] r2 by (auto simp: running_def good_def)
  have "good w3" using r2 w3 by (simp add: running_def good_def uptime_ok_def still_def)
  then have "running w3" using same_line_running [OF r2 _ still_line [OF w3(4)]] by blast
  then show ?thesis using True w1(1) w2(1) w3(1) by (simp add: main_timers_def)
qed (simp add: main_timers_def)

text \<open>One turn of the loop while the program is connected.\<close>

lemma main_cycle_safely:
  assumes r: "running w" and fd: "0 < IRC_FD w" and i: "an_select an = Select_ready \<Longrightarrow> input_ok (an_input an) w"
    and sys: "regex_ok sys" "fd_ok (sys_fds sys)"
  shows "safely (main_cycle sys an w)"
proof -
  have "\<exists>inp w'. irc_cycle sys an w = Some (inp, Goes_on w') \<and> running w'"
  proof (cases "an_select an = Select_ready")
    case True
    obtain inp w' where "irc_read sys (an_end an) (an_input an) w = Some (inp, w')" "good w'" "reader_ok w'" "apart w w'"
      using irc_read_handled [OF _ _ i [OF True] sys, of "an_end an"] r by (auto simp: running_def)
    then show ?thesis using True fd r apart_logs [of w w'] by (auto simp: irc_cycle_def running_def)
  next
    case False
    then show ?thesis using fd r by (cases "an_select an") (auto simp: irc_cycle_def)
  qed
  then have c: "safely (map_option snd (irc_cycle sys an w))" by auto
  have "safely (map_option Goes_on (scan_cycle (an_reports an) w'))" if "running w'" for w' :: "'a bopm_st_scheme"
  proof -
    have "quiet w'" using that by (simp add: running_def good_def)
    from scan_cycle_inv [OF this, of "an_reports an"] obtain w2 where w2: "scan_cycle (an_reports an) w' = Some w2" "quiet w2" "calm w' w2" by blast
    then show ?thesis using calm_running [OF that w2(2,3)] by simp
  qed
  then show ?thesis unfolding main_cycle_def
    by (intro safely_proceed c restart_safely reopen_safely timers_safely) simp_all
qed

section \<open>Starting\<close>

lemma quiet_truncate: "quiet (scan_st.truncate w) = quiet w"
  by (simp add: scan_st.defs quiet_def scan_inv_def cache_fine_def conns_ok_def fd_limit_def lookups_ok_def indices_ok_def
      static_ok_def blacklists_def asked_def)

lemma scan_init_truncate:
  assumes "scan_init (scan_st.truncate w) = Some v"
  shows "\<exists>w'. scan_init w = Some w' \<and> scan_st.truncate w' = v \<and> scan_st.more w' = scan_st.more w \<and> clock w' = clock w"
  using assms by (auto simp: scan_init_def Let_def scan_st.defs split: if_splits)

text \<open>The state of the globals when the program starts, but for its log and its configuration.\<close>

definition fresh :: "env \<Rightarrow> 'a bopm_st_scheme \<Rightarrow> bool" where
  "fresh e w \<longleftrightarrow> (\<exists>now. \<forall>c. scan_st.truncate (w\<lparr>cfg := c\<rparr>) = scan_globals now e c) \<and> COMMANDS w = None \<and> cmd_interval w = 0 \<and>
     IRC_RAW w = replicate 513 NUL \<and> IRC_RAW_LEN w = 0 \<and> irc_parv w = replicate 17 None \<and> REOPEN w = False \<and> scanlog_fp w = No_file"

lemma fresh_globals: "fresh e (bopm_globals now e)"
  by (auto simp: fresh_def bopm_globals_def scan_st.defs oper_st.defs irc_st.defs bopm_st.defs scan_globals_def fdns.defs fdns_globals_def
      stats_globals_def stats.defs net_init_def net.defs intro!: exI [of _ now])

lemma fresh_upd [simp]:
  "fresh e (w\<lparr>log_lines := ls\<rparr>) = fresh e w" "fresh e (w\<lparr>logfile := l\<rparr>) = fresh e w" "fresh e (w\<lparr>OPT_DEBUG := n\<rparr>) = fresh e w"
  "fresh e (w\<lparr>cfg := c\<rparr>) = fresh e w"
  by (simp_all add: fresh_def scan_st.defs)

lemma fresh_boot:
  assumes s: "setting_ok e c" and f: "fresh e w" and d: "OPT_DEBUG w \<noteq> 0 \<or> logfile w = Open_file"
  shows "\<exists>w1. scan_init (w\<lparr>cfg := c\<rparr>) = Some w1 \<and> (\<forall>w0. firedns_init pref fbck (stats_init (command_init w1)) = Returned w0 \<longrightarrow>
    running w0 \<and> OPT_DEBUG w0 = OPT_DEBUG w \<and> logfile w0 = logfile w \<and> IRC_RAW_LEN w0 = 0)"
proof -
  obtain now where t: "scan_st.truncate (w\<lparr>cfg := c\<rparr>) = scan_globals now e c" using f by (auto simp: fresh_def)
  obtain v where v: "scan_init (scan_globals now e c) = Some v" "quiet v" "CONNECTIONS v = []" using init_quiet [OF s] by blast
  then obtain w1 where w1: "scan_init (w\<lparr>cfg := c\<rparr>) = Some w1" "scan_st.truncate w1 = v" "scan_st.more w1 = scan_st.more w" "clock w1 = clock w"
    using scan_init_truncate [of "w\<lparr>cfg := c\<rparr>" v] t by auto
  have q: "quiet w1" "CONNECTIONS w1 = []" using v(2,3) w1(2) quiet_truncate [of w1] by (auto simp: scan_st.defs)
  have g: "COMMANDS w1 = None" "cmd_interval w1 = 0" "IRC_RAW w1 = replicate 513 NUL" "IRC_RAW_LEN w1 = 0" "irc_parv w1 = replicate 17 None"
      "OPT_DEBUG w1 = OPT_DEBUG w" "REOPEN w1 = False" "logfile w1 = logfile w" "scanlog_fp w1 = No_file"
    using w1(3) f by (cases w; cases w1; simp add: fresh_def)+
  have "running w0 \<and> OPT_DEBUG w0 = OPT_DEBUG w \<and> logfile w0 = logfile w \<and> IRC_RAW_LEN w0 = 0"
    if r: "firedns_init pref fbck (stats_init (command_init w1)) = Returned w0" for w0
  proof -
    have "\<exists>ss. w0 = (stats_init (command_init w1))\<lparr>CONNECTIONS := [], servers4 := ss\<rparr>"
      using r by (auto simp: firedns_init_def Let_def split: option.splits if_splits) (intro exI [of _ "[]"], simp)
    then obtain ss where e: "w0 = (stats_init (command_init w1))\<lparr>CONNECTIONS := [], servers4 := ss\<rparr>" by blast
    have "(stats_init (command_init w1))\<lparr>CONNECTIONS := [], servers4 := ss\<rparr> =
        w1\<lparr>COMMANDS := Some []\<rparr>\<lparr>STATS_UPTIME := clock w1\<rparr>\<lparr>servers4 := ss\<rparr>"
      using q(2) g(1) by (cases w1) (simp add: stats_init_def command_init_def)
    then have e2: "w0 = w1\<lparr>COMMANDS := Some []\<rparr>\<lparr>STATS_UPTIME := clock w1\<rparr>\<lparr>servers4 := ss\<rparr>" using e by simp
    have "quiet w0" unfolding e2 quiet_upd quiet_oper by (rule q(1))
    then show ?thesis using g d by (simp add: e2 running_def good_def queue_ok_def uptime_ok_def reader_ok_def buffers_ok_def logs_ok_def)
  qed
  then show ?thesis using w1(1) by blast
qed

text \<open>Whatever happens before the loop, it is entered with everything in order.\<close>

definition entered :: "'a bopm_st_scheme outcome option \<Rightarrow> bool" where
  "entered r \<longleftrightarrow> r \<noteq> None \<and> (\<forall>w. r = Some (Goes_on w) \<longrightarrow> running w \<and> IRC_RAW_LEN w = 0)"

lemma entered_simps [simp]: "entered (Some (Goes_on w)) \<longleftrightarrow> running w \<and> IRC_RAW_LEN w = 0" "entered (Some (Ends n w))" "entered (Some (Replaced w))"
  by (auto simp: entered_def)

text \<open>The text has a meaning, and a configuration that it stands for is one the program can work with.\<close>

definition text_runs :: "env \<Rightarrow> string \<Rightarrow> bool" where
  "text_runs e s \<longleftrightarrow> (case yyparse config_init_setup s of None \<Rightarrow> False | Some (Inl err) \<Rightarrow> True | Some (Inr c) \<Rightarrow> setting_ok e c)"

lemma config_load_entered:
  assumes s: "text_runs e (st_text st)" and f: "fresh e w" and d: "OPT_DEBUG w \<noteq> 0 \<or> logfile w = Open_file"
  shows "entered (config_load st filename w)"
proof -
  let ?w = "w\<lparr>cfg := config_init_setup\<rparr>"
  obtain l1 where l1: "log_printf st ''CONFIG -> Loading %s'' [Str filename] ?w = Some (?w\<lparr>log_lines := l1\<rparr>)"
    using log_printf_total [of "''CONFIG -> Loading %s''" "[Str filename]" ?w st] d by auto
  let ?w1 = "?w\<lparr>log_lines := l1\<rparr>"
  obtain l2 where l2: "log_printf st ''CONFIG -> Error opening %s'' [Str filename] ?w1 = Some (?w1\<lparr>log_lines := l2\<rparr>)"
    using log_printf_total [of "''CONFIG -> Error opening %s''" "[Str filename]" ?w1 st] d by auto
  show ?thesis
  proof (cases "st_open st")
    case False
    then show ?thesis using l1 l2 by (simp add: config_load_def)
  next
    case True
    obtain r where p: "yyparse config_init_setup (st_text st) = Some r" using s by (cases "yyparse config_init_setup (st_text st)") (simp_all add: text_runs_def)
    consider err linenum where "r = Inl (Yyerror err linenum)" | "r = Inl Comment_open" | c where "r = Inr c"
      by (cases r) (metis conf_error.exhaust, blast)
    then show ?thesis
    proof cases
      case (1 err linenum)
      have "formats ''CONFIG -> %s: line %d'' [Str err, ArgInt (of_nat linenum)]" by simp
      then obtain l3 where "log_printf st ''CONFIG -> %s: line %d'' [Str err, ArgInt (of_nat linenum)] ?w1 = Some (?w1\<lparr>log_lines := l3\<rparr>)"
        using log_printf_total [of "''CONFIG -> %s: line %d''" "[Str err, ArgInt (of_nat linenum)]" ?w1 st] d by auto
      then show ?thesis using True 1 p l1 by (simp add: config_load_def)
    next
      case 2
      then show ?thesis using True p l1 by (simp add: config_load_def)
    next
      case (3 c)
      then have "setting_ok e c" using s p by (simp add: text_runs_def)
      then obtain w2 where w2: "scan_init (?w1\<lparr>cfg := c\<rparr>) = Some w2" "\<forall>w0. firedns_init (st_pref st) (st_fbck st) (stats_init (command_init w2)) = Returned w0 \<longrightarrow>
          running w0 \<and> OPT_DEBUG w0 = OPT_DEBUG ?w1 \<and> logfile w0 = logfile ?w1 \<and> IRC_RAW_LEN w0 = 0"
        using fresh_boot [of e c ?w1 "st_pref st" "st_fbck st"] f d by auto
      then show ?thesis using True 3 p l1
        by (cases "firedns_init (st_pref st) (st_fbck st) (stats_init (command_init w2))") (simp_all add: config_load_def)
    qed
  qed
qed

lemma proceed_entered: "r \<noteq> None \<Longrightarrow> (\<And>w. r = Some (Goes_on w) \<Longrightarrow> entered (f w)) \<Longrightarrow> entered (proceed r f)"
  by (auto simp: proceed_def split: outcome.split)

lemma main_daemon_fresh:
  assumes "fresh e w"
  shows "main_daemon st w \<noteq> None \<and> (\<forall>w'. main_daemon st w = Some (Goes_on w') \<longrightarrow> fresh e w' \<and> (OPT_DEBUG w' \<noteq> 0 \<or> logfile w' = Open_file))"
proof (cases "OPT_DEBUG w = 0")
  case True
  then show ?thesis using assms by (auto simp: main_daemon_def log_open_def split: fork_result.splits if_splits)
next
  case False
  then obtain l where "log_printf st ''MAIN -> Debug level %d'' [ArgInt (of_nat (OPT_DEBUG w))] w = Some (w\<lparr>log_lines := l\<rparr>)"
    using log_printf_total [of "''MAIN -> Debug level %d''" "[ArgInt (of_nat (OPT_DEBUG w))]" w st] by auto
  then show ?thesis using False assms by (simp add: main_daemon_def)
qed

lemma main_path_total: "\<exists>s. main_path dir name ext = Some s"
proof -
  have "vformat ''%s/%s.%s'' [Str dir, Str name, Str ext] \<noteq> None" by simp
  then show ?thesis using format_buffer_total [of "''%s/%s.%s''" "[Str dir, Str name, Str ext]" "length dir + length name + length ext + 3"]
    by (simp add: main_path_def)
qed

text \<open>The buffers of the file names are exactly as long as they have to be.\<close>

lemma main_path_exact:
  assumes "cstring dir" "cstring name" "cstring ext" "length dir < 2 ^ 31" "length name < 2 ^ 31" "length ext < 2 ^ 31"
  shows "main_path dir name ext = Some (dir @ ''/'' @ name @ ''.'' @ ext)"
proof -
  have "vformat ''%s/%s.%s'' [Str dir, Str name, Str ext] = Some (dir @ ''/'' @ name @ ''.'' @ ext)" using assms by (simp add: fmt_simps)
  from format_buffer_eq [OF this, of "length dir + length name + length ext + 3"] show ?thesis using assms by (simp add: main_path_def cstring_def)
qed

lemma main_files_entered:
  assumes r: "running w" "IRC_RAW_LEN w = 0"
  shows "entered (main_files st w)"
proof -
  have o: "running (w\<lparr>scanlog_fp := Open_file\<rparr>)" "running (w\<lparr>scanlog_fp := No_file\<rparr>)" using r by (simp_all add: running_def logs_ok_def)
  have "\<exists>l. log_printf st ''Failed to open scan log file: %s'' [Str (an_error st)] (w\<lparr>scanlog_fp := No_file\<rparr>) = Some (w\<lparr>scanlog_fp := No_file\<rparr>\<lparr>log_lines := l\<rparr>)"
    by (rule running_log [OF o(2)]) simp
  then obtain w1 where w1: "(if opt_scanlog (OptionsItem (cfg w)) \<noteq> None then scanlog_open st w else Some w) = Some w1" "running w1" "IRC_RAW_LEN w1 = 0"
    using o r by (cases "opt_scanlog (OptionsItem (cfg w)) = None"; cases "an_scanlog st") (auto simp: scanlog_open_def)
  have "\<exists>l. log_printf st ''MAIN -> Error opening %s: %s'' [Str (opt_pidfile (OptionsItem (cfg w1))), Str (an_error st)] w1 = Some (w1\<lparr>log_lines := l\<rparr>)"
    by (rule running_log [OF w1(2)]) simp
  then show ?thesis using w1 by (auto simp: main_files_def)
qed

lemma main_start_entered:
  assumes s: "text_runs e (st_text st)" and f: "fresh e w"
  shows "entered (main_start st w)"
proof -
  obtain name debug where a: "main_args (st_args st) (''bopm'', OPT_DEBUG w) = (name, debug)" by fastforce
  obtain cf lf where p: "main_path (st_confdir st) name ''conf'' = Some cf" "main_path (st_logdir st) name ''log'' = Some lf" using main_path_total by metis
  let ?w = "w\<lparr>OPT_DEBUG := debug\<rparr>"
  have f1: "fresh e ?w" using f by simp
  have "entered (proceed (main_daemon st ?w) (\<lambda>w. do {
       w \<leftarrow> log_printf st ''MAIN -> BOPM %s started.'' [Str (VERSION (envir w))] w;
       w \<leftarrow> log_printf st ''MAIN -> Reading configuration file...'' [] w;
       proceed (config_load st cf w) (main_files st) }))"
  proof (rule proceed_entered)
    fix w1 assume "main_daemon st ?w = Some (Goes_on w1)"
    then have w1: "fresh e w1" "OPT_DEBUG w1 \<noteq> 0 \<or> logfile w1 = Open_file" using main_daemon_fresh [OF f1, of st] by auto
    obtain l1 where l1: "log_printf st ''MAIN -> BOPM %s started.'' [Str (VERSION (envir w1))] w1 = Some (w1\<lparr>log_lines := l1\<rparr>)"
      using log_printf_total [of "''MAIN -> BOPM %s started.''" "[Str (VERSION (envir w1))]" w1 st] w1(2) by auto
    obtain l2 where l2: "log_printf st ''MAIN -> Reading configuration file...'' [] (w1\<lparr>log_lines := l1\<rparr>) = Some (w1\<lparr>log_lines := l1\<rparr>\<lparr>log_lines := l2\<rparr>)"
      using log_printf_total [of "''MAIN -> Reading configuration file...''" "[]" "w1\<lparr>log_lines := l1\<rparr>" st] w1(2) by auto
    have "entered (config_load st cf (w1\<lparr>log_lines := l1\<rparr>\<lparr>log_lines := l2\<rparr>))"
      by (rule config_load_entered [OF s]) (use w1 in simp_all)
    then show "entered (do {
       w \<leftarrow> log_printf st ''MAIN -> BOPM %s started.'' [Str (VERSION (envir w1))] w1;
       w \<leftarrow> log_printf st ''MAIN -> Reading configuration file...'' [] w;
       proceed (config_load st cf w) (main_files st) })"
      unfolding l1 l2 Option.bind.bind_lunit
      by (intro proceed_entered main_files_entered) (auto simp: entered_def)
  qed (use main_daemon_fresh [OF f1, of st] in simp)
  then show ?thesis using a p by (simp add: main_start_def Let_def)
qed

section \<open>Runs\<close>

text \<open>A connection that has been made.\<close>

definition connected :: "int \<Rightarrow> string \<Rightarrow> 'a bopm_st_scheme \<Rightarrow> 'a bopm_st_scheme" where
  "connected fd channels w = w\<lparr>IRC_FD := fd, IRC_CHANNELS := channels\<rparr>"

text \<open>What the server sends in a turn is within the limits of the protocol.\<close>

definition turn_ok :: "answers \<Rightarrow> 'a bopm_st_scheme \<Rightarrow> bool" where
  "turn_ok an w \<longleftrightarrow> (an_select an = Select_ready \<longrightarrow> input_ok (an_input an) w)"

inductive bopm_runs :: "irc_sys \<Rightarrow> bopm_st \<Rightarrow> bopm_st \<Rightarrow> bool" for sys w0 where
  start: "bopm_runs sys w0 w0"
| turn: "bopm_runs sys w0 w \<Longrightarrow> turn_ok an w \<Longrightarrow> main_cycle sys an w = Some (Goes_on w') \<Longrightarrow> bopm_runs sys w0 w'"
| signal: "bopm_runs sys w0 w \<Longrightarrow> OPT_DEBUG w = 0 \<or> sig \<noteq> SIGUSR1 \<Longrightarrow> do_signal an sig w = Some (Goes_on w') \<Longrightarrow> bopm_runs sys w0 w'"
| tick: "bopm_runs sys w0 w \<Longrightarrow> clock w \<le> now \<Longrightarrow> now < STATS_UPTIME w + 31536000 * 2 ^ 31 \<Longrightarrow> bopm_runs sys w0 (w\<lparr>clock := now\<rparr>)"

lemma running_connected [simp]: "running (connected fd channels w) = running w"
  by (simp add: connected_def running_def good_def reader_ok_def buffers_ok_def logs_ok_def quiet_def scan_inv_def cache_fine_def conns_ok_def
      fd_limit_def lookups_ok_def indices_ok_def static_ok_def blacklists_def asked_def queue_ok_def uptime_ok_def)

lemma running_tick:
  assumes "running w" "clock w \<le> now" "now < STATS_UPTIME w + 31536000 * 2 ^ 31"
  shows "running (w\<lparr>clock := now\<rparr>)"
proof -
  have "queue_ok (w\<lparr>clock := now\<rparr>)" using assms(1,2) by (fastforce simp: running_def good_def queue_ok_def)
  then show ?thesis using assms by (simp add: running_def good_def uptime_ok_def reader_ok_def buffers_ok_def logs_ok_def)
qed

text \<open>Without a connection a turn never goes on: the server cannot be reached, or \<open>irc_init\<close> stores
  behind its buffer.\<close>

lemma irc_cycle_unconnected:
  assumes "IRC_FD w \<le> 0"
  shows "irc_cycle sys an w = None \<or> (\<exists>w'. irc_cycle sys an w = Some (an_input an, Ends 1 w'))"
proof -
  define r where "r = (if opt_negcache (OptionsItem (cfg w)) > 0
      then map_option (\<lambda>(h, m). w\<lparr>nc_head := h, nc_mem := m\<rparr>) (nc_init (nc_mem w) (nc_head w)) else Some w)"
  have c: "irc_cycle sys an w = do { w \<leftarrow> r; q \<leftarrow> irc_init (an_init an) w; case q of
      Exited w \<Rightarrow> Some (an_input an, Ends 1 w) | Returned w \<Rightarrow> do { w \<leftarrow> irc_connect (an_connect an) w; Some (an_input an, Goes_on w) } }"
    using assms by (simp add: irc_cycle_def r_def)
  show ?thesis
  proof (cases r)
    case (Some w1)
    show ?thesis
    proof (cases "irc_init (an_init an) w1")
      case q: (Some q)
      then show ?thesis using c Some irc_init_overflow [of "an_init an" w1] by (cases q) auto
    qed (use c Some in simp)
  qed (use c in simp)
qed

lemma no_connection: "IRC_FD w \<le> 0 \<Longrightarrow> main_cycle sys an w = None \<or> (\<exists>w'. main_cycle sys an w = Some (Ends 1 w'))"
  using irc_cycle_unconnected [of w sys an] by (auto simp: main_cycle_def proceed_def)

lemma runs_running:
  assumes "bopm_runs sys w0 w" "running w0" "regex_ok sys" "fd_ok (sys_fds sys)"
  shows "running w"
  using assms(1)
proof induction
  case (turn w an w')
  have "0 < IRC_FD w" using no_connection [of w sys an] turn.hyps(3) by force
  then have "safely (main_cycle sys an w)" using main_cycle_safely [OF turn.IH] turn.hyps(2) assms(3,4) by (simp add: turn_ok_def)
  then show ?case using turn.hyps(3) by simp
next
  case (signal w sig an w')
  show ?case
  proof (cases sig)
    case SIGINT
    then show ?thesis using signal.hyps(3) by (cases "log_printf an ''MAIN -> Caught SIGINT, bye!'' [] w") (simp_all add: do_signal_def)
  qed (use signal in \<open>auto simp: do_signal_def running_def logs_ok_def\<close>)
next
  case (tick w now)
  then show ?case using running_tick by blast
qed (rule assms(2))

section \<open>Restart\<close>

lemma dispatch_kill: "find (\<lambda>(name, h). strcaseeq name ''KILL'') IRC_TABLE = Some (''KILL'', M_kill)"
  by code_simp

lemma read_kill:
  assumes a: "CHR 0x0A \<notin> set a" and l: "line_ok (line_bytes a)" "line_bytes a \<noteq> []" "line_parts [] (line_bytes a) ! 1 = ''KILL''"
    and r: "reader_ok w" "IRC_RAW_LEN w = 0"
  shows "\<exists>w'. irc_read sys e (a @ CHR 0x0A # b) w = Some (b, w') \<and> RESTART w'"
proof -
  let ?s = "line_bytes a" and ?w = "ended (line_bytes a) w"
  have b: "length (IRC_RAW w) = 513" "length (irc_parv w) = 17" using r(1) by (simp_all add: reader_ok_def buffers_ok_def)
  have h: "holds_line ?s ?w" using b r(2) l(1,2) by (simp add: holds_line_def ended_def line_ok_def)
  define ps where "ps = line_parts (irc_server (IRCItem (cfg ?w))) ?s"
  have ps: "2 \<le> length ps" "length ps \<le> 17" "ps ! 1 = ''KILL''"
    using l line_parts_server(1) [of "irc_server (IRCItem (cfg ?w))" ?s] line_parts_server(2) [of "irc_server (IRCItem (cfg ?w))" ?s 0]
    by (simp_all add: ps_def line_ok_def Let_def)
  obtain m raw pv where "irc_parse sys ?w = irc_dispatch sys ''KILL'' m (?w\<lparr>IRC_LAST := clock ?w, IRC_RAW := raw, irc_parv := pv\<rparr>)"
    using irc_parse_line [OF h ps_def ps(1,2), of sys] ps(3) by auto
  then have "irc_parse sys ?w = Some (main_restart (?w\<lparr>IRC_LAST := clock ?w, IRC_RAW := raw, irc_parv := pv\<rparr>))"
    by (simp add: irc_dispatch_def dispatch_kill irc_handle_def m_kill_def)
  then show ?thesis using irc_read_line [OF a, of w sys e b] r(2) b(1) l(1) by (simp add: line_ok_def main_restart_def)
qed

lemma calm_restart: "calm w w' \<Longrightarrow> RESTART w' = RESTART w \<and> OPT_DEBUG w' = OPT_DEBUG w"
  by (cases w; cases w') (simp add: calm_def)

section \<open>A state\<close>

definition sample_answers :: "string \<Rightarrow> answers" where
  "sample_answers inp = \<lparr>an_init = \<lparr>ans_resolve = Some 0x7F000001, ans_socket = 5, ans_bind = 0\<rparr>, an_connect = Connected, an_select = Select_ready,
     an_input = inp, an_end = Again, an_reports = [], an_fopen = True, an_scanlog = True, an_rlimit = True, an_execve = True,
     an_error = [], an_argv0 = ''bopm'', an_date = (\<lambda>_. ''Jan 01 00:00:00 1970'')\<rparr>"

definition sample_startup :: startup where
  "sample_startup = answers.extend (sample_answers []) (startup.fields [] ''/etc'' ''/var'' Fork_child True True (config_text plain_conf) None None True)"

lemma plain_expressible: "expressible plain_conf"
  by (simp add: expressible_def config_tokens_def config_blocks_def item_text_def braces_def options_items_def irc_items_def channel_items_def
    opm_items_def user_items_def scanner_items_def exempt_items_def string_item_def number_item_def string_tokens_def number_tokens_def
    protocol_tokens_def string_ok_def plain_conf_def sample_conf_def config_init_setup_def default_connregex_def bsl_def)

lemmas plain_parsed = parse_config_text [OF plain_expressible]

lemma plain_text_runs: "text_runs env_live (config_text plain_conf)"
  by (simp add: text_runs_def plain_parsed plain_ok)

definition bopm_start :: bopm_st where
  "bopm_start = (case main_start sample_startup (bopm_globals 1000 env_live) of Some (Goes_on w) \<Rightarrow> w | _ \<Rightarrow> bopm_globals 0 env_live)"

lemma sample_startup_fields [simp]:
  "st_args sample_startup = []" "st_fork sample_startup = Fork_child" "st_setpgid sample_startup" "st_open sample_startup"
  "st_text sample_startup = config_text plain_conf" "st_pref sample_startup = None" "st_fbck sample_startup = None" "st_pidfile sample_startup"
  "an_fopen sample_startup" "an_scanlog sample_startup"
  by (simp_all add: sample_startup_def answers.defs startup.defs sample_answers_def)

lemma bopm_boot: "main_start sample_startup (bopm_globals 1000 env_live) = Some (Goes_on bopm_start)" "OPT_DEBUG bopm_start = 0"
proof -
  let ?g = "(bopm_globals 1000 env_live)\<lparr>OPT_DEBUG := 0, logfile := Open_file\<rparr>"
  have o: "OPT_DEBUG (bopm_globals 1000 env_live) = 0" by (simp add: bopm_globals_def irc_st.defs bopm_st.defs)
  obtain cf lf where p: "main_path (st_confdir sample_startup) ''bopm'' ''conf'' = Some cf" "main_path (st_logdir sample_startup) ''bopm'' ''log'' = Some lf"
    using main_path_total by metis
  have logs: "\<exists>l. log_printf sample_startup data ap w = Some (w\<lparr>log_lines := l\<rparr>)" if "logfile w = Open_file" "formats data ap" for data ap and w :: bopm_st
    using log_printf_total [of data ap w sample_startup] that by simp
  obtain l1 where l1: "log_printf sample_startup ''MAIN -> BOPM %s started.'' [Str (VERSION (envir ?g))] ?g = Some (?g\<lparr>log_lines := l1\<rparr>)"
    using logs [of ?g "''MAIN -> BOPM %s started.''" "[Str (VERSION (envir ?g))]"] by auto
  obtain l2 where l2: "log_printf sample_startup ''MAIN -> Reading configuration file...'' [] (?g\<lparr>log_lines := l1\<rparr>) = Some (?g\<lparr>log_lines := l2\<rparr>)"
    using logs [of "?g\<lparr>log_lines := l1\<rparr>" "''MAIN -> Reading configuration file...''" "[]"] by auto
  let ?w = "?g\<lparr>log_lines := l2\<rparr>\<lparr>cfg := config_init_setup\<rparr>"
  obtain l3 where l3: "log_printf sample_startup ''CONFIG -> Loading %s'' [Str cf] ?w = Some (?w\<lparr>log_lines := l3\<rparr>)"
    using logs [of ?w "''CONFIG -> Loading %s''" "[Str cf]"] by auto
  have f: "fresh env_live (?w\<lparr>log_lines := l3\<rparr>)" using fresh_globals [of env_live 1000] by simp
  define w0 where "w0 w = (stats_init (command_init w))\<lparr>servers4 := [], CONNECTIONS := []\<rparr>" for w :: bopm_st
  have fi: "firedns_init None None (stats_init (command_init w)) = Returned (w0 w)" for w by (simp add: firedns_init_def w0_def)
  obtain w1 where w1: "scan_init (?w\<lparr>log_lines := l3\<rparr>\<lparr>cfg := plain_conf\<rparr>) = Some w1" and d: "OPT_DEBUG (w0 w1) = 0"
    using fresh_boot [OF plain_ok f, of None None] fi by auto
  have "config_load sample_startup cf (?g\<lparr>log_lines := l2\<rparr>) = Some (Goes_on (w0 w1))"
    using l3 w1 fi by (simp add: config_load_def Let_def plain_parsed)
  moreover have "main_daemon sample_startup ((bopm_globals 1000 env_live)\<lparr>OPT_DEBUG := 0\<rparr>) = Some (Goes_on ?g)"
    by (simp add: main_daemon_def log_open_def)
  moreover have "opt_scanlog (OptionsItem (cfg (w0 w1))) = None"
    using w1 by (auto simp: w0_def stats_init_def command_init_def scan_init_def Let_def plain_conf_def sample_conf_def config_init_setup_def split: if_splits)
  ultimately have "main_start sample_startup (bopm_globals 1000 env_live) = Some (Goes_on (w0 w1))"
    using o p l1 l2 by (simp add: main_start_def proceed_def main_files_def)
  then show "main_start sample_startup (bopm_globals 1000 env_live) = Some (Goes_on bopm_start)" "OPT_DEBUG bopm_start = 0"
    using d by (simp_all add: bopm_start_def)
qed

lemma bopm_start_running: "running bopm_start" "IRC_RAW_LEN bopm_start = 0"
  using main_start_entered [of env_live sample_startup "bopm_globals 1000 env_live"] plain_text_runs fresh_globals bopm_boot by auto

lemma sample_sys_ok: "regex_ok sample_sys" "fd_ok (sys_fds sample_sys)"
proof -
  have "length sample_notice = 47" by code_simp
  then show "regex_ok sample_sys" by (auto simp: regex_ok_def sample_sys_def)
  show "fd_ok (sys_fds sample_sys)" using oper_start_fields(5) by (simp add: sample_sys_def)
qed

lemma sample_input_ok: "input_ok (''PING :x'' @ [CHR 0x0A]) (connected 5 [] bopm_start)" "line_ok '':oper KILL bopm''"
proof -
  have "line_ok ''PING :x''" by code_simp
  moreover have "line_bytes ''PING :x'' = ''PING :x''" by code_simp
  ultimately show "input_ok (''PING :x'' @ [CHR 0x0A]) (connected 5 [] bopm_start)"
    using bopm_start_running(2) by (simp add: input_ok_def connected_def)
  show "line_ok '':oper KILL bopm''" by code_simp
qed

lemma parse_error_ok:
  assumes "text_ok s" "yyparse config_init_setup s = Some (Inl (Yyerror m n))"
  shows "m = ''syntax error'' \<or> m = ''Unknown blacklist type defined''"
  using parse_total_typed [OF assms(1) defaults_typed] assms(2) by (auto simp: error_ok_def)

lemma error_text:
  assumes "m = ''syntax error'' \<or> m = ''Unknown blacklist type defined''" "n < 2 ^ 31"
  shows "format_buffer 512 ''CONFIG -> %s: line %d'' [Str m, ArgInt (of_nat n)] = Some (''CONFIG -> '' @ m @ '': line '' @ num_str 10 False n)"
proof -
  let ?t = "''CONFIG -> '' @ m @ '': line '' @ num_str 10 False n"
  have n: "sint (of_nat n :: uint) = int n" by (rule sint_small [OF assms(2)])
  have l: "length m \<le> 30" "cstring m" using assms(1) by (auto simp: cstring_def)
  then have "vformat ''CONFIG -> %s: line %d'' [Str m, ArgInt (of_nat n)] = Some ?t" using l by (simp add: fmt_simps n int_str_def)
  moreover have "length (num_str 10 False n) \<le> 20" using num_str_fits [of n False] assms(2) by simp
  moreover have "cstring (num_str 10 False n)" by (auto simp: cstring_def isdigit_def dest: num_str_digits)
  ultimately show ?thesis using format_buffer_eq [of "''CONFIG -> %s: line %d''" "[Str m, ArgInt (of_nat n)]" ?t 512] l
    by (simp add: cstring_def)
qed

lemma start_returns:
  assumes "text_ok (st_text st)" "\<And>c. yyparse config_init_setup (st_text st) = Some (Inr c) \<Longrightarrow> setting_ok e c"
  shows "main_start st (bopm_globals now e) \<noteq> None"
proof -
  obtain r where "yyparse config_init_setup (st_text st) = Some r" using parse_total_typed [OF assms(1) defaults_typed] by blast
  then have "text_runs e (st_text st)" using assms(2) by (auto simp: text_runs_def split: sum.split)
  then show ?thesis using main_start_entered [OF _ fresh_globals] by (simp add: entered_def)
qed

lemma no_items_error: "yyparse config_init_setup ''irc { };'' = Some (Inl (Yyerror ''syntax error'' 1))"
  by code_simp

section \<open>Properties\<close>





text \<open>C19: Without a connection the program cannot go on: a turn ends it when the server cannot be
  resolved, no socket is available or the local address cannot be used, and in every other case
  \<open>irc_init\<close> stores behind its buffer.\<close>

theorem unconnected_turn:
  assumes "IRC_FD w \<le> 0"
  shows "if (\<exists>a. ans_resolve (an_init an) = Some a \<and> a \<noteq> INADDR_NONE) \<and> ans_socket (an_init an) \<noteq> -1 \<and>
      (irc_vhost (IRCItem (cfg w)) = [] \<or> (\<exists>l. sys_pton (envir w) (irc_vhost (IRCItem (cfg w))) = Some l) \<and> ans_bind (an_init an) = 0)
    then main_cycle sys an w = None else \<exists>w'. main_cycle sys an w = Some (Ends 1 w')"
    (is "if ?c then _ else _")
proof -
  have "nc_init m h \<noteq> None" for m h using nc_init_total [of m] by (cases "h = NULL") (auto simp: nc_init_def)
  then obtain h m where n: "nc_init (nc_mem w) (nc_head w) = Some (h, m)" by (metis option.exhaust surj_pair)
  define w1 where "w1 = (if opt_negcache (OptionsItem (cfg w)) > 0 then w\<lparr>nc_head := h, nc_mem := m\<rparr> else w)"
  have c: "irc_cycle sys an w = do { q \<leftarrow> irc_init (an_init an) w1; case q of
      Exited w \<Rightarrow> Some (an_input an, Ends 1 w) | Returned w \<Rightarrow> do { w \<leftarrow> irc_connect (an_connect an) w; Some (an_input an, Goes_on w) } }"
    using assms n by (simp add: irc_cycle_def w1_def)
  have w1: "cfg w1 = cfg w" "envir w1 = envir w" by (simp_all add: w1_def)
  have o: "irc_init (an_init an) w1 \<noteq> Some (Returned w')" "irc_init (an_init an) w1 = None \<longleftrightarrow> ?c" for w'
    using irc_init_overflow [of "an_init an" w1] w1 by auto
  show ?thesis
  proof (cases "irc_init (an_init an) w1")
    case None
    then have ?c using o(2) by simp
    then show ?thesis using c None by (simp add: main_cycle_def proceed_def)
  next
    case (Some q)
    then have "\<not> ?c" using o(2) by simp
    moreover have "\<exists>w'. main_cycle sys an w = Some (Ends 1 w')" using c Some o(1) by (cases q) (simp_all add: main_cycle_def proceed_def)
    ultimately show ?thesis by (simp only: if_False)
  qed
qed

theorem unconnected_turn_witness:
  "\<exists>w'. main_cycle sample_sys ((sample_answers [])\<lparr>an_init := \<lparr>ans_resolve = None, ans_socket = 5, ans_bind = 0\<rparr>\<rparr>)
     (connected 0 [] bopm_start) = Some (Ends 1 w')"
  using unconnected_turn [of "connected 0 [] bopm_start" "(sample_answers [])\<lparr>an_init := \<lparr>ans_resolve = None, ans_socket = 5, ans_bind = 0\<rparr>\<rparr>" sample_sys]
  by (simp add: connected_def)

text \<open>Asking a program in debug mode to reopen its log closes a file that was never opened.\<close>

lemma reopen_in_debug_mode: "OPT_DEBUG w \<noteq> 0 \<Longrightarrow> logfile w = No_file \<Longrightarrow> REOPEN w \<Longrightarrow> main_check_reopen an w = None"
  using log_printf_total [of "''MAIN -> Caught SIGUSR1, reopening logfiles''" "[]" w an] by (auto simp: main_check_reopen_def log_close_def)



end
